(* ===== verification/Ipc_Prelude.thy ===== *)
theory Ipc_Prelude
  imports Main "HOL-Library.Word" "HOL-Library.Monad_Syntax"
begin

unbundle bit_operations_syntax

text \<open>
  Shared vocabulary of the development: machine integers and bytes, byte-addressed memory
  blocks with checked reads and writes, the little-endian encoding of unsigned integers that
  the supported targets (x86-64, AArch64) use, decimal formatting as \<^verbatim>\<open>std::format\<close>
  prints it, and the outcome type for code whose execution can be stopped by an assertion or by
  an access outside the memory it owns.
\<close>

section \<open>Machine types\<close>

type_synonym byte = "8 word"
type_synonym u32 = "32 word"
type_synonym u64 = "64 word"
type_synonym i32 = "32 word"

text \<open>Addresses are 64-bit; the null pointer is address 0.\<close>

type_synonym addr = "64 word"

abbreviation (input) nullptr :: addr where
  "nullptr \<equiv> 0"

text \<open>
  What stops an execution: a failed \<^verbatim>\<open>assert\<close>, a read or write outside the memory block
  it is applied to, and releasing a block that is not allocated. Everything else a C++ operation
  does is an ordinary result.
\<close>

datatype fault = AssertFailed string | OutOfBounds | InvalidFree | NullPointer

type_synonym 'a exec = "fault + 'a"

named_theorems word_nat "unsigned readings of word operations that do not overflow"
named_theorems mem_simps "reads and writes of memory blocks"

section \<open>Words as natural numbers\<close>

lemma u64_less_iff [word_nat]: "(a::u64) < b \<longleftrightarrow> unat a < unat b"
  by (rule word_less_nat_alt)

lemma u64_le_iff [word_nat]: "(a::u64) \<le> b \<longleftrightarrow> unat a \<le> unat b"
  by (rule word_le_nat_alt)

lemma u64_eq_iff: "(a::u64) = b \<longleftrightarrow> unat a = unat b"
  by (simp add: word_unat_eq_iff)

lemma word_nat_unat_id: "word_of_nat (unat w) = (w::u64)"
  by simp

lemma unat_word_of_nat_u64: "n < 2 ^ 64 \<Longrightarrow> unat (word_of_nat n :: u64) = n"
  by (simp add: unat_of_nat)

lemma unat_u64_bound [simp]: "unat (a::u64) < 18446744073709551616"
  using unsigned_less [of a] by simp

lemma unat_add_u64 [word_nat]:
  "unat a + unat b < 2 ^ 64 \<Longrightarrow> unat ((a::u64) + b) = unat a + unat b"
  by (simp add: unat_word_ariths)

lemma unat_sub_u64 [word_nat]:
  "unat b \<le> unat a \<Longrightarrow> unat ((a::u64) - b) = unat a - unat b"
  by (simp add: unat_sub word_le_nat_alt)

lemma unat_div_u64 [word_nat]: "unat ((a::u64) div b) = unat a div unat b"
  by (simp add: unat_div_distrib)

lemma unat_mod_u64 [word_nat]: "unat ((a::u64) mod b) = unat a mod unat b"
  by (simp add: unat_mod_distrib)

text \<open>Clearing the low three bits rounds down to a multiple of 8.\<close>

lemma and_not_7_eq: "(x::u64) AND NOT 7 = push_bit 3 (drop_bit 3 x)"
proof -
  have seven: "(7::u64) = mask 3"
    by (simp add: mask_eq_exp_minus_1)
  show ?thesis
    unfolding seven by (rule bit_word_eqI) (auto simp: bit_simps)
qed

lemma unat_and_not_7: "unat ((x::u64) AND NOT 7) = 8 * (unat x div 8)"
proof -
  have "push_bit 3 (drop_bit 3 x) = 8 * (x div 8)"
    by (simp add: push_bit_eq_mult drop_bit_eq_div)
  moreover have "8 * (unat x div 8) < 2 ^ 64"
    by (rule le_less_trans [of _ "unat x"]) simp_all
  ultimately show ?thesis
    unfolding and_not_7_eq by (simp add: unat_word_ariths unat_div_u64)
qed

text \<open>Rounding up to a multiple of 8, on natural numbers.\<close>

definition align8 :: "nat \<Rightarrow> nat" where
  "align8 n = 8 * ((n + 7) div 8)"

lemma align8_ge: "n \<le> align8 n"
  unfolding align8_def by presburger

lemma align8_less: "align8 n < n + 8"
  unfolding align8_def by presburger

lemma align8_dvd [simp]: "8 dvd align8 n"
  by (simp add: align8_def)

lemma align8_id: "8 dvd n \<Longrightarrow> align8 n = n"
  by (auto simp: align8_def dvd_def)

lemma align8_add: "8 dvd i \<Longrightarrow> align8 (i + n) = i + align8 n"
  unfolding align8_def by presburger

lemma align8_mono: "m \<le> n \<Longrightarrow> align8 m \<le> align8 n"
  by (simp add: align8_def div_le_mono)

lemma align8_least: "8 dvd k \<Longrightarrow> n \<le> k \<Longrightarrow> align8 n \<le> k"
  unfolding align8_def by presburger

lemma dvd8_less_add: "8 dvd (i::nat) \<Longrightarrow> 8 dvd j \<Longrightarrow> i < j \<Longrightarrow> i + 8 \<le> j"
  by (auto simp: dvd_def)

section \<open>Memory blocks\<close>

text \<open>
  A block of memory is a list of bytes. \<open>mem_slice\<close> and \<open>mem_splice\<close> are the total readings of a
  range and of an overwritten range; \<open>mem_read\<close> and \<open>mem_write\<close> are the accesses the
  program makes (\<^verbatim>\<open>memcpy\<close>, \<^verbatim>\<open>memset\<close>), undefined outside the block.
\<close>

definition mem_slice :: "byte list \<Rightarrow> nat \<Rightarrow> nat \<Rightarrow> byte list" where
  "mem_slice mem off n = take n (drop off mem)"

definition mem_splice :: "byte list \<Rightarrow> nat \<Rightarrow> byte list \<Rightarrow> byte list" where
  "mem_splice mem off bs = take off mem @ bs @ drop (off + length bs) mem"

definition mem_read :: "byte list \<Rightarrow> nat \<Rightarrow> nat \<Rightarrow> byte list option" where
  "mem_read mem off n = (if off + n \<le> length mem then Some (mem_slice mem off n) else None)"

definition mem_write :: "byte list \<Rightarrow> nat \<Rightarrow> byte list \<Rightarrow> byte list option" where
  "mem_write mem off bs =
     (if off + length bs \<le> length mem then Some (mem_splice mem off bs) else None)"

lemma length_mem_slice [mem_simps]: "off + n \<le> length mem \<Longrightarrow> length (mem_slice mem off n) = n"
  by (simp add: mem_slice_def)

lemma length_mem_splice [mem_simps]:
  "off + length bs \<le> length mem \<Longrightarrow> length (mem_splice mem off bs) = length mem"
  by (simp add: mem_splice_def)

lemma slice_splice_same [mem_simps]:
  "off + length bs \<le> length mem \<Longrightarrow> n = length bs \<Longrightarrow> mem_slice (mem_splice mem off bs) off n = bs"
  by (simp add: mem_slice_def mem_splice_def)

lemma slice_splice_below:
  "a + n \<le> off \<Longrightarrow> off + length bs \<le> length mem \<Longrightarrow>
     mem_slice (mem_splice mem off bs) a n = mem_slice mem a n"
  by (simp add: mem_slice_def mem_splice_def drop_take min_absorb1)

lemma slice_splice_above:
  assumes "off + length bs \<le> a" and "off + length bs \<le> length mem"
  shows "mem_slice (mem_splice mem off bs) a n = mem_slice mem a n"
proof -
  have "drop a (mem_splice mem off bs) = drop (a - (off + length bs)) (drop (off + length bs) mem)"
    using assms by (simp add: mem_splice_def)
  then show ?thesis
    using assms by (simp add: mem_slice_def)
qed

lemma slice_splice_disjoint:
  "a + n \<le> off \<or> off + length bs \<le> a \<Longrightarrow> off + length bs \<le> length mem \<Longrightarrow>
     mem_slice (mem_splice mem off bs) a n = mem_slice mem a n"
  using slice_splice_below slice_splice_above by blast

lemma mem_read_Some_iff:
  "mem_read mem off n = Some bs \<longleftrightarrow> off + n \<le> length mem \<and> bs = mem_slice mem off n"
  by (auto simp: mem_read_def)

lemma mem_write_Some_iff:
  "mem_write mem off bs = Some mem' \<longleftrightarrow> off + length bs \<le> length mem \<and> mem' = mem_splice mem off bs"
  by (auto simp: mem_write_def)

section \<open>Little-endian integers\<close>

primrec nat_to_le :: "nat \<Rightarrow> nat \<Rightarrow> byte list" where
  "nat_to_le 0 n = []"
| "nat_to_le (Suc k) n = word_of_nat (n mod 256) # nat_to_le k (n div 256)"

primrec le_to_nat :: "byte list \<Rightarrow> nat" where
  "le_to_nat [] = 0"
| "le_to_nat (b # bs) = unat b + 256 * le_to_nat bs"

definition bytes_of_u64 :: "u64 \<Rightarrow> byte list" where
  "bytes_of_u64 w = nat_to_le 8 (unat w)"

definition u64_of_bytes :: "byte list \<Rightarrow> u64" where
  "u64_of_bytes bs = word_of_nat (le_to_nat bs)"

definition bytes_of_u32 :: "u32 \<Rightarrow> byte list" where
  "bytes_of_u32 w = nat_to_le 4 (unat w)"

definition u32_of_bytes :: "byte list \<Rightarrow> u32" where
  "u32_of_bytes bs = word_of_nat (le_to_nat bs)"

lemma length_nat_to_le [simp]: "length (nat_to_le k n) = k"
  by (induction k arbitrary: n) simp_all

lemma length_bytes_of_u64 [simp]: "length (bytes_of_u64 w) = 8"
  by (simp add: bytes_of_u64_def)

lemma length_bytes_of_u32 [simp]: "length (bytes_of_u32 w) = 4"
  by (simp add: bytes_of_u32_def)

lemma le_to_nat_nat_to_le: "le_to_nat (nat_to_le k n) = n mod 256 ^ k"
proof (induction k arbitrary: n)
  case 0
  then show ?case by simp
next
  case (Suc k)
  have "unat (word_of_nat (n mod 256) :: byte) = n mod 256"
    by (simp add: unat_of_nat)
  then show ?case
    by (simp add: Suc.IH mod_mult2_eq)
qed

lemma u64_of_bytes_of_u64 [simp]: "u64_of_bytes (bytes_of_u64 w) = w"
proof -
  have "unat w mod 256 ^ 8 = unat w"
    using unsigned_less [of w] by simp
  then show ?thesis
    by (simp only: u64_of_bytes_def bytes_of_u64_def le_to_nat_nat_to_le) simp
qed

lemma u32_of_bytes_of_u32 [simp]: "u32_of_bytes (bytes_of_u32 w) = w"
proof -
  have "unat w < 2 ^ 32"
    using unsigned_less [where 'b = 32 and 'a = nat, of w] by simp
  then have "unat w mod 256 ^ 4 = unat w"
    by simp
  then show ?thesis
    by (simp only: u32_of_bytes_def bytes_of_u32_def le_to_nat_nat_to_le) simp
qed

lemma le_to_nat_zeros: "le_to_nat (replicate n 0) = 0"
  by (induction n) simp_all

lemma u64_of_bytes_zeros [simp]: "u64_of_bytes (replicate n 0) = 0"
  by (simp add: u64_of_bytes_def le_to_nat_zeros)

text \<open>Evaluation goes through binary integers.\<close>

primrec int_to_le :: "nat \<Rightarrow> int \<Rightarrow> byte list" where
  "int_to_le 0 n = []"
| "int_to_le (Suc k) n = word_of_int (n mod 256) # int_to_le k (n div 256)"

primrec le_to_int :: "byte list \<Rightarrow> int" where
  "le_to_int [] = 0"
| "le_to_int (b # bs) = uint b + 256 * le_to_int bs"

lemma nat_to_le_int: "nat_to_le k n = int_to_le k (int n)"
proof (induction k arbitrary: n)
  case (Suc k)
  have "word_of_int (int n mod 256) = (word_of_nat (n mod 256) :: byte)"
    by (metis of_int_of_nat_eq of_nat_mod of_nat_numeral)
  then show ?case by (simp add: Suc.IH zdiv_int)
qed simp

lemma le_to_nat_int: "int (le_to_nat bs) = le_to_int bs"
  by (induction bs) simp_all

lemma bytes_of_word_code [code]:
  "bytes_of_u64 w = int_to_le 8 (uint w)" "bytes_of_u32 v = int_to_le 4 (uint v)"
  by (simp_all add: bytes_of_u64_def bytes_of_u32_def nat_to_le_int)

lemma word_of_bytes_code [code]:
  "u64_of_bytes bs = word_of_int (le_to_int bs)" "u32_of_bytes bs = word_of_int (le_to_int bs)"
  by (simp_all add: u64_of_bytes_def u32_of_bytes_def flip: le_to_nat_int)

section \<open>Decimal formatting\<close>

text \<open>\<open>fmt_nat\<close> is what \<^verbatim>\<open>std::format("{}", n)\<close> prints for an unsigned integer.\<close>

fun fmt_nat :: "nat \<Rightarrow> string" where
  "fmt_nat n =
     (if n < 10 then [char_of (48 + n)] else fmt_nat (n div 10) @ [char_of (48 + n mod 10)])"

declare fmt_nat.simps [simp del]

definition fmt_int :: "int \<Rightarrow> string" where
  "fmt_int i = (if i < 0 then ''-'' @ fmt_nat (nat (- i)) else fmt_nat (nat i))"

definition fmt_bool :: "bool \<Rightarrow> string" where
  "fmt_bool b = (if b then ''true'' else ''false'')"

text \<open>Reading a decimal numeral back, digit by digit.\<close>

definition parse_dec :: "string \<Rightarrow> nat" where
  "parse_dec s = foldl (\<lambda>acc c. 10 * acc + (of_char c - 48)) 0 s"

lemma parse_dec_fmt_nat: "parse_dec (fmt_nat n) = n"
proof (induction n rule: fmt_nat.induct)
  case (1 n)
  show ?case
  proof (cases "n < 10")
    case True
    then show ?thesis
      by (simp add: fmt_nat.simps [of n] parse_dec_def of_char_of)
  next
    case False
    then have "parse_dec (fmt_nat (n div 10)) = n div 10"
      by (rule 1)
    moreover have "(of_char (char_of (48 + n mod 10) :: char) :: nat) = 48 + n mod 10"
      by (simp add: of_char_of)
    ultimately show ?thesis
      using False by (simp add: fmt_nat.simps [of n] parse_dec_def)
  qed
qed

end
