(* ===== verification/Ipc_Errors.thy ===== *)
theory Ipc_Errors
  imports Ipc_Prelude
begin

text \<open>
  \<^verbatim>\<open>include/posix_ipc/errors.hpp\<close>: the error codes, the error category that turns a raw
  code into its name, and the error value every fallible operation returns. A
  \<^verbatim>\<open>std::source_location\<close> is the record of the four readings the code makes of it; its value
  is supplied by the compiler at the call, so the operations that build an error take it as an
  argument.
\<close>

section \<open>Error codes\<close>

datatype PosixIpcErrorCode =
    success
  | shm_open_failed
  | shm_fstat_failed
  | shm_truncate_failed
  | shm_mmap_failed
  | shm_unlink_failed
  | thread_set_affinity_failed
  | thread_set_name_failed
  | pubsub_invalid_queue_full_policy
  | pubsub_shm_size_mismatch
  | spsc_storage_error

text \<open>The underlying 16-bit values: the enumerators count up from \<open>success = 0\<close>.\<close>

fun code_value :: "PosixIpcErrorCode \<Rightarrow> int" where
  "code_value success = 0"
| "code_value shm_open_failed = 1"
| "code_value shm_fstat_failed = 2"
| "code_value shm_truncate_failed = 3"
| "code_value shm_mmap_failed = 4"
| "code_value shm_unlink_failed = 5"
| "code_value thread_set_affinity_failed = 6"
| "code_value thread_set_name_failed = 7"
| "code_value pubsub_invalid_queue_full_policy = 8"
| "code_value pubsub_shm_size_mismatch = 9"
| "code_value spsc_storage_error = 10"

definition all_codes :: "PosixIpcErrorCode list" where
  "all_codes =
     [success, shm_open_failed, shm_fstat_failed, shm_truncate_failed, shm_mmap_failed,
      shm_unlink_failed, thread_set_affinity_failed, thread_set_name_failed,
      pubsub_invalid_queue_full_policy, pubsub_shm_size_mismatch, spsc_storage_error]"

text \<open>
  \<^verbatim>\<open>static_cast<PosixIpcErrorCode>(ev)\<close> narrows an \<^verbatim>\<open>int\<close> to 16 bits; the result need
  not be one of the enumerators.
\<close>

definition narrow_i16 :: "int \<Rightarrow> int" where
  "narrow_i16 ev = (ev + 32768) mod 65536 - 32768"

definition code_of_int :: "int \<Rightarrow> PosixIpcErrorCode option" where
  "code_of_int ev = find (\<lambda>c. code_value c = narrow_i16 ev) all_codes"

text \<open>\<^verbatim>\<open>to_string(PosixIpcErrorCode)\<close>: \<open>success\<close> has no case of its own.\<close>

fun code_to_string :: "PosixIpcErrorCode \<Rightarrow> string" where
  "code_to_string shm_open_failed = ''shm_open_failed''"
| "code_to_string shm_fstat_failed = ''shm_fstat_failed''"
| "code_to_string shm_truncate_failed = ''shm_truncate_failed''"
| "code_to_string shm_mmap_failed = ''shm_mmap_failed''"
| "code_to_string shm_unlink_failed = ''shm_unlink_failed''"
| "code_to_string thread_set_affinity_failed = ''thread_set_affinity_failed''"
| "code_to_string thread_set_name_failed = ''thread_set_name_failed''"
| "code_to_string pubsub_invalid_queue_full_policy = ''pubsub_invalid_queue_full_policy''"
| "code_to_string pubsub_shm_size_mismatch = ''pubsub_shm_size_mismatch''"
| "code_to_string spsc_storage_error = ''spsc_storage_error''"
| "code_to_string success = ''unknown''"

section \<open>The error category\<close>

definition category_name :: string where
  "category_name = ''PosixIpcErrorCategory''"

definition category_message :: "int \<Rightarrow> string" where
  "category_message ev =
     (case code_of_int ev of Some c \<Rightarrow> code_to_string c | None \<Rightarrow> ''unknown'')"

text \<open>A \<^verbatim>\<open>std::error_code\<close> is a value and the category that reads it.\<close>

record error_code =
  ec_value :: int
  ec_category :: string

definition make_error_code :: "PosixIpcErrorCode \<Rightarrow> error_code" where
  "make_error_code e = \<lparr>ec_value = code_value e, ec_category = category_name\<rparr>"

section \<open>The error value\<close>

record source_location =
  file_name :: string
  loc_line :: nat
  loc_column :: nat
  function_name :: string

record PosixIpcError =
  err_code :: PosixIpcErrorCode
  err_message :: string
  err_location :: source_location

definition PosixIpcError_new ::
    "PosixIpcErrorCode \<Rightarrow> string \<Rightarrow> source_location \<Rightarrow> PosixIpcError" where
  "PosixIpcError_new c msg loc = \<lparr>err_code = c, err_message = msg, err_location = loc\<rparr>"

text \<open>A source location for concrete instances.\<close>

definition loc0 :: source_location where
  "loc0 = \<lparr>file_name = ''main.cpp'', loc_line = 1, loc_column = 1, function_name = ''main''\<rparr>"

definition to_error_code :: "PosixIpcError \<Rightarrow> error_code" where
  "to_error_code e = make_error_code (err_code e)"

definition error_code_message :: "PosixIpcError \<Rightarrow> string" where
  "error_code_message e = category_message (code_value (err_code e))"

definition error_to_string :: "PosixIpcError \<Rightarrow> string" where
  "error_to_string e =
     ''PosixIpcError '' @ code_to_string (err_code e) @ '': '' @ err_message e @ '' at '' @
     file_name (err_location e) @ '':'' @ fmt_nat (loc_line (err_location e)) @ '':'' @
     fmt_nat (loc_column (err_location e)) @ '' in '' @ function_name (err_location e)"

text \<open>\<^verbatim>\<open>operator<<\<close> and the two \<^verbatim>\<open>std::formatter\<close> specialisations append to an output.\<close>

definition error_to_ostream :: "string \<Rightarrow> PosixIpcError \<Rightarrow> string" where
  "error_to_ostream os e = os @ error_to_string e"

definition format_error :: "string \<Rightarrow> PosixIpcError \<Rightarrow> string" where
  "format_error out e = out @ error_to_string e"

definition format_error_code :: "string \<Rightarrow> PosixIpcErrorCode \<Rightarrow> string" where
  "format_error_code out c = out @ code_to_string c"

section \<open>Properties\<close>

lemma code_value_inj: "code_value c = code_value d \<Longrightarrow> c = d"
  by (cases c; cases d; simp)

lemma code_value_range: "0 \<le> code_value c \<and> code_value c \<le> 10"
  by (cases c) simp_all

lemma narrow_i16_id: "-32768 \<le> ev \<Longrightarrow> ev < 32768 \<Longrightarrow> narrow_i16 ev = ev"
  by (simp add: narrow_i16_def)

lemma narrow_code_value [simp]: "narrow_i16 (code_value c) = code_value c"
  using code_value_range [of c] by (intro narrow_i16_id) auto

lemma code_of_int_code_value [simp]: "code_of_int (code_value c) = Some c"
  unfolding code_of_int_def narrow_code_value by (cases c) (simp_all add: all_codes_def)

lemma category_message_code: "category_message (code_value c) = code_to_string c"
  by (simp add: category_message_def)

lemma category_message_unknown:
  assumes "-32768 \<le> ev" and "ev < 32768" and "ev < 1 \<or> 10 < ev"
  shows "category_message ev = ''unknown''"
proof (cases "code_of_int ev")
  case None
  then show ?thesis by (simp add: category_message_def)
next
  case (Some c)
  then have "code_value c = ev"
    using assms by (auto simp: code_of_int_def narrow_i16_id find_Some_iff)
  with assms Some show ?thesis
    by (cases c) (simp_all add: category_message_def)
qed

lemma code_to_string_inj: "code_to_string c = code_to_string d \<Longrightarrow> c = d"
  by (cases c; cases d; simp)


end
