(* ===== verification/Pub_Sub_Config.thy ===== *)
theory Pub_Sub_Config
  imports Ipc_Errors
begin

text \<open>
  \<^verbatim>\<open>queues/pubsub/enums.hpp\<close> and \<^verbatim>\<open>queues/pubsub/PubSubConfig.hpp\<close>: the policy for full queues and
  the configuration of a publisher or a subscriber, with their printing and parsing.
\<close>

datatype QueueFullPolicy = DROP_NEWEST

definition QueueFullPolicy_from_string ::
    "source_location \<Rightarrow> string \<Rightarrow> PosixIpcError + QueueFullPolicy" where
  "QueueFullPolicy_from_string loc s =
     (if s = ''DROP_NEWEST'' then Inr DROP_NEWEST
      else Inl (PosixIpcError_new pubsub_invalid_queue_full_policy
             (''Unknown queue full policy: '' @ s) loc))"

text \<open>
  \<^verbatim>\<open>to_string\<close> switches over the underlying byte, for which the enumeration has one value.
\<close>

definition policy_of_byte :: "byte \<Rightarrow> QueueFullPolicy option" where
  "policy_of_byte b = (if b = 0 then Some DROP_NEWEST else None)"

fun policy_to_string :: "QueueFullPolicy option \<Rightarrow> string" where
  "policy_to_string (Some DROP_NEWEST) = ''DROP_NEWEST''"
| "policy_to_string None = ''UNKNOWN''"

record PubSubConfig =
  cfg_shm_name :: string
  cfg_storage_size_bytes :: u64
  cfg_queue_full_policy :: QueueFullPolicy
  cfg_log_message_drop :: bool

text \<open>The default member initialisers.\<close>

definition PubSubConfig_new :: "string \<Rightarrow> u64 \<Rightarrow> PubSubConfig" where
  "PubSubConfig_new name sz =
     \<lparr>cfg_shm_name = name, cfg_storage_size_bytes = sz, cfg_queue_full_policy = DROP_NEWEST,
      cfg_log_message_drop = True\<rparr>"

definition newline_tab :: string where
  "newline_tab = [CHR 0x0A, CHR 0x09]"

definition config_to_string :: "PubSubConfig \<Rightarrow> string" where
  "config_to_string c =
     ''PubSubConfig('' @ newline_tab @ ''shm_name='' @ cfg_shm_name c @
     newline_tab @ ''storage_size_bytes='' @ fmt_nat (unat (cfg_storage_size_bytes c)) @
     newline_tab @ ''queue_full_policy='' @ policy_to_string (Some (cfg_queue_full_policy c)) @
     newline_tab @ ''log_message_drop='' @ fmt_bool (cfg_log_message_drop c) @
     [CHR 0x0A] @ '')''"

definition config_to_ostream :: "string \<Rightarrow> PubSubConfig \<Rightarrow> string" where
  "config_to_ostream os cfg = os @ config_to_string cfg"

section \<open>Parsing and printing\<close>

text \<open>
  Parsing accepts exactly the name that printing produces for a policy, and a byte that is no
  policy prints as a name that parsing refuses.
\<close>

lemma policy_parse_print:
  "QueueFullPolicy_from_string loc s = Inr p \<longleftrightarrow> s = policy_to_string (Some p)"
  by (cases p) (simp add: QueueFullPolicy_from_string_def)

lemma unknown_policy_refused:
  "b \<noteq> 0 \<Longrightarrow> \<exists>e. QueueFullPolicy_from_string loc (policy_to_string (policy_of_byte b)) = Inl e \<and>
     err_code e = pubsub_invalid_queue_full_policy"
  by (simp add: QueueFullPolicy_from_string_def policy_of_byte_def PosixIpcError_new_def)

end
