(* ===== verification/Posix_Api.thy ===== *)
theory Posix_Api
  imports Ipc_Prelude
begin

text \<open>
  The operating system as a parameter. The shared-memory classes call POSIX functions; a
  \<open>posix_os\<close> record holds one function per call, over an arbitrary type of system states that
  includes \<^verbatim>\<open>errno\<close> and the memory behind shared mappings. Nothing is assumed of them in the
  definitions. \<open>kernel_os\<close> is a concrete instance, in which names, objects, descriptors and
  mappings are tables; the concrete instances of the properties run on it.
\<close>

section \<open>The calls\<close>

record open_flags =
  o_creat :: bool
  o_excl :: bool
  o_rdwr :: bool
  o_trunc :: bool

definition EEXIST :: int where "EEXIST = 17"

text \<open>\<^verbatim>\<open>MAP_FAILED\<close> is \<^verbatim>\<open>(void*)-1\<close>.\<close>

definition MAP_FAILED :: addr where "MAP_FAILED = - 1"

record 'w posix_os =
  sys_shm_open :: "string \<Rightarrow> open_flags \<Rightarrow> nat \<Rightarrow> 'w \<Rightarrow> int \<times> 'w"
  sys_ftruncate :: "int \<Rightarrow> u64 \<Rightarrow> 'w \<Rightarrow> int \<times> 'w"
  sys_fstat :: "int \<Rightarrow> 'w \<Rightarrow> int \<times> u64 \<times> 'w"
  sys_mmap :: "u64 \<Rightarrow> int \<Rightarrow> 'w \<Rightarrow> addr \<times> 'w"
  sys_munmap :: "addr \<Rightarrow> u64 \<Rightarrow> 'w \<Rightarrow> 'w"
  sys_close :: "int \<Rightarrow> 'w \<Rightarrow> 'w"
  sys_shm_unlink :: "string \<Rightarrow> 'w \<Rightarrow> 'w"
  sys_errno :: "'w \<Rightarrow> int"
  sys_set_errno :: "int \<Rightarrow> 'w \<Rightarrow> 'w"
  sys_strerror :: "int \<Rightarrow> string"
  sys_region :: "addr \<Rightarrow> 'w \<Rightarrow> byte list option"
  sys_store :: "addr \<Rightarrow> byte list \<Rightarrow> 'w \<Rightarrow> 'w"

section \<open>A concrete system\<close>

record kern =
  k_names :: "string \<Rightarrow> nat option"
  k_data :: "nat \<Rightarrow> byte list"
  k_fds :: "int \<Rightarrow> nat option"
  k_maps :: "addr \<Rightarrow> nat option"
  k_next_obj :: nat
  k_next_fd :: int
  k_next_addr :: addr
  k_errno :: int

definition kern_fail :: "int \<Rightarrow> kern \<Rightarrow> int \<times> kern" where
  "kern_fail e k = (-1, k\<lparr>k_errno := e\<rparr>)"

definition kern_new_fd :: "nat \<Rightarrow> kern \<Rightarrow> int \<times> kern" where
  "kern_new_fd i k =
     (k_next_fd k, k\<lparr>k_fds := (k_fds k)(k_next_fd k := Some i), k_next_fd := k_next_fd k + 1\<rparr>)"

text \<open>No descriptor left: \<^verbatim>\<open>EMFILE\<close>.\<close>

definition kern_fd_free :: "kern \<Rightarrow> bool" where
  "kern_fd_free k \<longleftrightarrow> 0 \<le> k_next_fd k \<and> k_fds k (k_next_fd k) = None"

definition kern_addr_free :: "kern \<Rightarrow> bool" where
  "kern_addr_free k \<longleftrightarrow>
     k_next_addr k \<noteq> nullptr \<and> k_next_addr k \<noteq> MAP_FAILED \<and> k_maps k (k_next_addr k) = None"

definition kern_shm_open :: "string \<Rightarrow> open_flags \<Rightarrow> nat \<Rightarrow> kern \<Rightarrow> int \<times> kern" where
  "kern_shm_open name fl mode k =
     (if \<not> kern_fd_free k then kern_fail 24 k
      else case k_names k name of
        Some i \<Rightarrow>
          if o_creat fl \<and> o_excl fl then kern_fail EEXIST k
          else kern_new_fd i (if o_trunc fl then k\<lparr>k_data := (k_data k)(i := [])\<rparr> else k)
      | None \<Rightarrow>
          if o_creat fl
          then kern_new_fd (k_next_obj k)
                 (k\<lparr>k_names := (k_names k)(name := Some (k_next_obj k)),
                    k_data := (k_data k)(k_next_obj k := []), k_next_obj := Suc (k_next_obj k)\<rparr>)
          else kern_fail 2 k)"

definition kern_ftruncate :: "int \<Rightarrow> u64 \<Rightarrow> kern \<Rightarrow> int \<times> kern" where
  "kern_ftruncate fd n k =
     (case k_fds k fd of
        None \<Rightarrow> kern_fail 9 k
      | Some i \<Rightarrow>
          (0, k\<lparr>k_data := (k_data k)(i := take (unat n) (k_data k i @ replicate (unat n) 0))\<rparr>))"

definition kern_fstat :: "int \<Rightarrow> kern \<Rightarrow> int \<times> u64 \<times> kern" where
  "kern_fstat fd k =
     (case k_fds k fd of
        None \<Rightarrow> (-1, 0, k\<lparr>k_errno := 9\<rparr>)
      | Some i \<Rightarrow> (0, word_of_nat (length (k_data k i)), k))"

definition kern_mmap :: "u64 \<Rightarrow> int \<Rightarrow> kern \<Rightarrow> addr \<times> kern" where
  "kern_mmap len fd k =
     (case k_fds k fd of
        None \<Rightarrow> (MAP_FAILED, k\<lparr>k_errno := 9\<rparr>)
      | Some i \<Rightarrow>
          if len = 0 then (MAP_FAILED, k\<lparr>k_errno := 22\<rparr>)
          else if \<not> kern_addr_free k then (MAP_FAILED, k\<lparr>k_errno := 12\<rparr>)
          else (k_next_addr k,
                k\<lparr>k_maps := (k_maps k)(k_next_addr k := Some i),
                  k_next_addr := k_next_addr k + 0x100000000\<rparr>))"

definition kern_region :: "addr \<Rightarrow> kern \<Rightarrow> byte list option" where
  "kern_region p k =
     (case k_maps k p of
        None \<Rightarrow> None
      | Some i \<Rightarrow> if int (length (k_data k i)) < 2 ^ 64 then Some (k_data k i) else None)"

definition kern_store :: "addr \<Rightarrow> byte list \<Rightarrow> kern \<Rightarrow> kern" where
  "kern_store p bs k =
     (case k_maps k p of None \<Rightarrow> k | Some i \<Rightarrow> k\<lparr>k_data := (k_data k)(i := bs)\<rparr>)"

definition kernel_os :: "kern posix_os" where
  "kernel_os =
     \<lparr>sys_shm_open = kern_shm_open, sys_ftruncate = kern_ftruncate, sys_fstat = kern_fstat,
      sys_mmap = kern_mmap, sys_munmap = (\<lambda>p n k. k\<lparr>k_maps := (k_maps k)(p := None)\<rparr>),
      sys_close = (\<lambda>fd k. k\<lparr>k_fds := (k_fds k)(fd := None)\<rparr>),
      sys_shm_unlink = (\<lambda>n k. k\<lparr>k_names := (k_names k)(n := None)\<rparr>),
      sys_errno = k_errno, sys_set_errno = (\<lambda>e k. k\<lparr>k_errno := e\<rparr>),
      sys_strerror = (\<lambda>e. ''error''), sys_region = kern_region, sys_store = kern_store\<rparr>"

section \<open>What the documentation promises\<close>

text \<open>
  The part of the POSIX documentation the resource properties rely on. \<open>fds\<close>, \<open>maps\<close> and
  \<open>names\<close> observe the open descriptors and mappings of the process and the names of the existing
  objects: \<^verbatim>\<open>shm_open\<close> returns a new non-negative descriptor or -1; \<^verbatim>\<open>mmap\<close> returns a new non-null
  address or \<^verbatim>\<open>MAP_FAILED\<close>; an exclusive creation succeeds only for a name that does not exist
  and fails with \<^verbatim>\<open>EEXIST\<close> only for one that does; and no other call changes these sets.
\<close>

locale posix_resources =
  fixes os :: "'w posix_os"
    and fds :: "'w \<Rightarrow> int set"
    and maps :: "'w \<Rightarrow> addr set"
    and names :: "'w \<Rightarrow> string set"
  assumes open_fd: "sys_shm_open os n fl md w = (fd, w') \<Longrightarrow> fd \<noteq> -1 \<Longrightarrow>
      0 \<le> fd \<and> fd \<notin> fds w \<and> fds w' = insert fd (fds w) \<and> maps w' = maps w"
    and open_fail: "sys_shm_open os n fl md w = (-1, w') \<Longrightarrow>
      fds w' = fds w \<and> maps w' = maps w \<and> names w' = names w"
    and open_excl: "sys_shm_open os n fl md w = (fd, w') \<Longrightarrow> fd \<noteq> -1 \<Longrightarrow>
      o_creat fl \<Longrightarrow> o_excl fl \<Longrightarrow> n \<notin> names w \<and> names w' = insert n (names w)"
    and open_exists: "sys_shm_open os n fl md w = (-1, w') \<Longrightarrow> o_creat fl \<Longrightarrow> o_excl fl \<Longrightarrow>
      sys_errno os w' = EEXIST \<Longrightarrow> n \<in> names w"
    and truncate_keeps: "sys_ftruncate os fd sz w = (rc, w') \<Longrightarrow>
      fds w' = fds w \<and> maps w' = maps w"
    and fstat_keeps: "sys_fstat os fd w = (rc, n', w') \<Longrightarrow> fds w' = fds w \<and> maps w' = maps w"
    and mmap_new: "sys_mmap os sz fd w = (p, w') \<Longrightarrow> p \<noteq> MAP_FAILED \<Longrightarrow>
      p \<noteq> nullptr \<and> p \<notin> maps w \<and> maps w' = insert p (maps w) \<and> fds w' = fds w"
    and mmap_fail: "sys_mmap os sz fd w = (MAP_FAILED, w') \<Longrightarrow> maps w' = maps w \<and> fds w' = fds w"
    and close_fd: "fds (sys_close os fd w) = fds w - {fd}"
    and close_keeps: "maps (sys_close os fd w) = maps w" "names (sys_close os fd w) = names w"
    and munmap: "maps (sys_munmap os p sz w) = maps w - {p}" "fds (sys_munmap os p sz w) = fds w"
      "names (sys_munmap os p sz w) = names w"
    and unlink: "names (sys_shm_unlink os n w) = names w - {n}"
      "fds (sys_shm_unlink os n w) = fds w" "maps (sys_shm_unlink os n w) = maps w"
    and set_errno: "names (sys_set_errno os e w) = names w"
      "fds (sys_set_errno os e w) = fds w" "maps (sys_set_errno os e w) = maps w"
    and store_keeps: "fds (sys_store os p mem w) = fds w" "maps (sys_store os p mem w) = maps w"
    and no_fd: "-1 \<notin> fds w"
    and no_map: "nullptr \<notin> maps w"

text \<open>
  Shared mappings: \<open>obj\<close> tells which object an address maps. Mappings of one object show the same
  bytes; a store through one of them changes that object and no other, and no mapping.
\<close>

locale posix_memory =
  fixes os :: "'w posix_os"
    and obj :: "'w \<Rightarrow> addr \<Rightarrow> 'o option"
  assumes mapped: "sys_region os p w = Some mem \<Longrightarrow> obj w p \<noteq> None"
    and shared: "obj w p = obj w p' \<Longrightarrow> sys_region os p w = sys_region os p' w"
    and store_here: "sys_region os p w = Some mem \<Longrightarrow> length mem' = length mem \<Longrightarrow>
      sys_region os p (sys_store os p mem' w) = Some mem'"
    and store_other: "obj w p' \<noteq> obj w p \<Longrightarrow>
      sys_region os p' (sys_store os p mem' w) = sys_region os p' w"
    and store_maps: "obj (sys_store os p mem' w) = obj w"

text \<open>
  Names and descriptors: \<open>nm\<close> and \<open>fdo\<close> tell which object a name and a descriptor stand for. A
  descriptor stands for the object of the name it was opened by, a mapping for that of its
  descriptor; \<^verbatim>\<open>fstat\<close> tells the object's size; and the calls that neither create nor truncate
  leave names, mappings and contents alone.
\<close>

definition keeps ::
    "'w posix_os \<Rightarrow> ('w \<Rightarrow> addr \<Rightarrow> 'o option) \<Rightarrow> ('w \<Rightarrow> string \<Rightarrow> 'o option) \<Rightarrow> 'w \<Rightarrow> 'w \<Rightarrow> bool" where
  "keeps os obj nm w w' \<longleftrightarrow> nm w' = nm w \<and>
     (\<forall>p. p \<noteq> nullptr \<and> obj w p \<noteq> None \<longrightarrow>
        obj w' p = obj w p \<and> sys_region os p w' = sys_region os p w)"

lemma keeps_trans: "keeps os obj nm w w' \<Longrightarrow> keeps os obj nm w' w'' \<Longrightarrow> keeps os obj nm w w''"
  by (simp add: keeps_def)

lemma keeps_region:
  "keeps os obj nm w w' \<Longrightarrow> p \<noteq> nullptr \<Longrightarrow> obj w p \<noteq> None \<Longrightarrow>
     obj w' p = obj w p \<and> sys_region os p w' = sys_region os p w"
  by (simp add: keeps_def)

locale posix_shm = posix_memory os obj
  for os :: "'w posix_os" and obj :: "'w \<Rightarrow> addr \<Rightarrow> 'o option" +
  fixes nm :: "'w \<Rightarrow> string \<Rightarrow> 'o option" and fdo :: "'w \<Rightarrow> int \<Rightarrow> 'o option"
  assumes shm_open_fail: "sys_shm_open os n fl md w = (-1, w') \<Longrightarrow> keeps os obj nm w w'"
    and shm_open_excl: "nm w n \<noteq> None \<Longrightarrow> o_creat fl \<Longrightarrow> o_excl fl \<Longrightarrow>
      fst (sys_shm_open os n fl md w) = -1"
    and shm_open_plain: "sys_shm_open os n fl md w = (fd, w') \<Longrightarrow> fd \<noteq> -1 \<Longrightarrow>
      \<not> o_creat fl \<Longrightarrow> \<not> o_trunc fl \<Longrightarrow>
      keeps os obj nm w w' \<and> nm w n \<noteq> None \<and> fdo w' fd = nm w n"
    and shm_open_creat: "sys_shm_open os n fl md w = (fd, w') \<Longrightarrow> fd \<noteq> -1 \<Longrightarrow> o_creat fl \<Longrightarrow>
      nm w' n \<noteq> None \<and> fdo w' fd = nm w' n"
    and ftruncate_names: "sys_ftruncate os fd sz w = (rc, w') \<Longrightarrow> nm w' = nm w \<and> fdo w' = fdo w"
    and fstat_size: "sys_fstat os fd w = (rc, sz, w') \<Longrightarrow> rc \<noteq> -1 \<Longrightarrow>
      keeps os obj nm w w' \<and> fdo w' = fdo w \<and>
      (\<forall>p mem. obj w p = fdo w fd \<and> sys_region os p w = Some mem \<longrightarrow> unat sz = length mem)"
    and mmap_object: "sys_mmap os sz fd w = (p, w') \<Longrightarrow> p \<noteq> MAP_FAILED \<Longrightarrow>
      p \<noteq> nullptr \<and> keeps os obj nm w w' \<and> obj w' p = fdo w fd"
    and close_nothing: "keeps os obj nm w (sys_close os fd w)"
    and munmap_null: "keeps os obj nm w (sys_munmap os nullptr sz w)"
    and errno_nothing: "keeps os obj nm w (sys_set_errno os e w)"
    and store_names: "nm (sys_store os p mem w) = nm w"

definition kern_open_fds :: "kern \<Rightarrow> int set" where
  "kern_open_fds k = {fd. 0 \<le> fd \<and> k_fds k fd \<noteq> None}"

definition kern_mappings :: "kern \<Rightarrow> addr set" where
  "kern_mappings k = {p. p \<noteq> nullptr \<and> k_maps k p \<noteq> None}"

definition kern_names :: "kern \<Rightarrow> string set" where
  "kern_names k = dom (k_names k)"

lemmas kern_defs = kern_fail_def kern_new_fd_def kern_shm_open_def kern_ftruncate_def
  kern_fstat_def kern_mmap_def kern_fd_free_def kern_addr_free_def kern_open_fds_def
  kern_mappings_def kern_names_def

interpretation kernel: posix_resources kernel_os kern_open_fds kern_mappings kern_names
  by unfold_locales
    (auto simp: kernel_os_def kern_defs kern_store_def EEXIST_def split: option.splits if_splits)

interpretation kernel_mem: posix_memory kernel_os k_maps
  by unfold_locales
    (auto simp: kernel_os_def kern_region_def kern_store_def split: option.splits if_splits)

interpretation kernel_shm: posix_shm kernel_os k_maps k_names k_fds
  by unfold_locales
    (auto simp: kernel_os_def kern_defs kern_region_def kern_store_def keeps_def unat_word_of_nat_u64
      split: option.splits if_splits)

text \<open>A process with its three standard descriptors open, or with all of them closed.\<close>

definition boot :: "int \<Rightarrow> kern" where
  "boot fd =
     \<lparr>k_names = (\<lambda>_. None), k_data = (\<lambda>_. []), k_fds = (\<lambda>_. None), k_maps = (\<lambda>_. None),
      k_next_obj = 0, k_next_fd = fd, k_next_addr = 0x10000, k_errno = 0\<rparr>"

end
