(* ===== verification/Shared_Memory.thy ===== *)
theory Shared_Memory
  imports Ipc_Errors Posix_Api
begin

text \<open>
  \<^verbatim>\<open>include/posix_ipc/SharedMemory.hpp\<close>: opening, creating, mapping, moving and releasing a
  named shared memory object, over any operating system. Progress messages on \<^verbatim>\<open>std::clog\<close> are
  not part of the model.
\<close>

record SharedMemory =
  shm_name :: string
  shm_size :: u64
  shm_fd :: int
  shm_ptr :: addr
  shm_created :: bool

definition SharedMemory_new :: "string \<Rightarrow> u64 \<Rightarrow> int \<Rightarrow> addr \<Rightarrow> bool \<Rightarrow> SharedMemory" where
  "SharedMemory_new name sz fd p created =
     \<lparr>shm_name = name, shm_size = sz, shm_fd = fd, shm_ptr = p, shm_created = created\<rparr>"

section \<open>Release and move\<close>

definition SharedMemory_destroy :: "'w posix_os \<Rightarrow> SharedMemory \<Rightarrow> 'w \<Rightarrow> 'w" where
  "SharedMemory_destroy os m w =
     (let w1 = sys_munmap os (shm_ptr m) (shm_size m) w;
          w2 = (if shm_created m then sys_shm_unlink os (shm_name m) w1 else w1) in
      sys_close os (shm_fd m) w2)"

text \<open>
  The moved-from object keeps its size and its flag; \<^verbatim>\<open>std::move\<close> of a string leaves it empty in
  the library implementations the project supports.
\<close>

definition SharedMemory_move :: "SharedMemory \<Rightarrow> SharedMemory \<times> SharedMemory" where
  "SharedMemory_move other =
     (SharedMemory_new (shm_name other) (shm_size other) (shm_fd other) (shm_ptr other)
        (shm_created other),
      other\<lparr>shm_name := [], shm_fd := -1, shm_ptr := nullptr\<rparr>)"

definition SharedMemory_move_assign ::
    "bool \<Rightarrow> SharedMemory \<Rightarrow> SharedMemory \<Rightarrow> SharedMemory \<times> SharedMemory" where
  "SharedMemory_move_assign same self other =
     (if same then (self, other)
      else (self\<lparr>shm_name := shm_name other, shm_size := shm_size other, shm_fd := shm_fd other,
                 shm_ptr := shm_ptr other, shm_created := shm_created other\<rparr>,
            other\<lparr>shm_name := [], shm_fd := -1, shm_ptr := nullptr\<rparr>))"

section \<open>Opening\<close>

definition shm_mode :: nat where "shm_mode = 438"

definition create_flags :: open_flags where
  "create_flags = \<lparr>o_creat = True, o_excl = True, o_rdwr = True, o_trunc = True\<rparr>"

definition rdwr_flags :: open_flags where
  "rdwr_flags = \<lparr>o_creat = False, o_excl = False, o_rdwr = True, o_trunc = False\<rparr>"

definition open_error_message ::
    "'w posix_os \<Rightarrow> string \<Rightarrow> bool \<Rightarrow> u64 \<Rightarrow> string \<Rightarrow> 'w \<Rightarrow> string" where
  "open_error_message os name create sz sep w =
     ''name='' @ name @ '', create='' @ fmt_bool create @ '', size='' @ fmt_nat (unat sz) @ sep @
     ''strerror='' @ sys_strerror os (sys_errno os w) @ '', errno='' @ fmt_int (sys_errno os w)"

definition call_error_message :: "'w posix_os \<Rightarrow> string \<Rightarrow> 'w \<Rightarrow> string" where
  "call_error_message os name w =
     ''name='' @ name @ '', strerror='' @ sys_strerror os (sys_errno os w) @ '', errno='' @
     fmt_int (sys_errno os w)"

text \<open>The descriptor: exclusive creation first, then, if the object exists, a plain open.\<close>

definition shm_open_step ::
    "'w posix_os \<Rightarrow> source_location \<Rightarrow> string \<Rightarrow> u64 \<Rightarrow> bool \<Rightarrow> 'w \<Rightarrow> (PosixIpcError + int) \<times> 'w" where
  "shm_open_step os loc name sz create w =
     (let flags = (if create then create_flags else rdwr_flags);
          (fd, w1) = sys_shm_open os name flags shm_mode w in
      if fd = -1 then
        (if sys_errno os w1 = EEXIST then
           (let (fd2, w2) = sys_shm_open os name (flags\<lparr>o_excl := False\<rparr>) shm_mode w1 in
            if fd2 = -1
            then (Inl (PosixIpcError_new shm_open_failed
                    (open_error_message os name create sz '': '' w2) loc), w2)
            else (Inr fd2, w2))
         else (Inl (PosixIpcError_new shm_open_failed
                 (open_error_message os name create sz '', '' w1) loc), w1))
      else (Inr fd, w1))"

text \<open>The size: truncate a created object, ask for that of an opened one.\<close>

definition shm_size_step ::
    "'w posix_os \<Rightarrow> source_location \<Rightarrow> string \<Rightarrow> u64 \<Rightarrow> bool \<Rightarrow> int \<Rightarrow> 'w \<Rightarrow> (PosixIpcError + u64) \<times> 'w" where
  "shm_size_step os loc name sz create fd w =
     (if create then
        (if sz \<le> 0
         then (Inl (PosixIpcError_new shm_open_failed
                 (''Shared memory ['' @ name @ ''] size parameter must be greater than 0, got '' @
                  fmt_nat (unat sz) @ ''.'') loc), w)
         else
           (let (rc, w1) = sys_ftruncate os fd sz w in
            if rc = -1
            then (let w2 = sys_close os fd w1 in
                  (Inl (PosixIpcError_new shm_truncate_failed (call_error_message os name w2) loc), w2))
            else (Inr sz, w1)))
      else
        (let (rc, st_size, w1) = sys_fstat os fd w in
         if rc = -1
         then (let w2 = sys_close os fd w1 in
               (Inl (PosixIpcError_new shm_fstat_failed (call_error_message os name w2) loc), w2))
         else (Inr st_size, w1)))"

text \<open>
  The mapping. The returned object is moved into the \<^verbatim>\<open>std::expected\<close>, and the emptied temporary
  is destroyed.
\<close>

definition shm_map_step ::
    "'w posix_os \<Rightarrow> source_location \<Rightarrow> string \<Rightarrow> u64 \<Rightarrow> int \<Rightarrow> 'w \<Rightarrow>
       (PosixIpcError + SharedMemory) \<times> 'w" where
  "shm_map_step os loc name sz fd w =
     (let (p, w1) = sys_mmap os sz fd w in
      if p = MAP_FAILED
      then (let w2 = sys_close os fd w1 in
            (Inl (PosixIpcError_new shm_mmap_failed (call_error_message os name w2) loc), w2))
      else (let (m, tmp) = SharedMemory_move (SharedMemory_new name sz fd p False) in
            (Inr m, SharedMemory_destroy os tmp w1)))"

definition open_or_create ::
    "'w posix_os \<Rightarrow> source_location \<Rightarrow> string \<Rightarrow> u64 \<Rightarrow> bool \<Rightarrow> 'w \<Rightarrow>
       (PosixIpcError + SharedMemory) \<times> 'w" where
  "open_or_create os loc name sz create w =
     (case shm_open_step os loc name sz create w of
        (Inl e, w1) \<Rightarrow> (Inl e, w1)
      | (Inr fd, w1) \<Rightarrow>
          (case shm_size_step os loc name sz create fd w1 of
             (Inl e, w2) \<Rightarrow> (Inl e, w2)
           | (Inr sz', w2) \<Rightarrow> shm_map_step os loc name sz' fd w2))"

definition shm_open_existing ::
    "'w posix_os \<Rightarrow> source_location \<Rightarrow> string \<Rightarrow> 'w \<Rightarrow> (PosixIpcError + SharedMemory) \<times> 'w" where
  "shm_open_existing os loc name w = open_or_create os loc name 0 False w"

section \<open>Existence\<close>

definition exists_flags :: open_flags where
  "exists_flags = \<lparr>o_creat = True, o_excl = True, o_rdwr = True, o_trunc = False\<rparr>"

definition shm_exists :: "'w posix_os \<Rightarrow> string \<Rightarrow> 'w \<Rightarrow> bool \<times> 'w" where
  "shm_exists os name w =
     (let w0 = sys_set_errno os 0 w;
          (fd, w1) = sys_shm_open os name exists_flags shm_mode w0 in
      if fd > 0
      then (False, sys_shm_unlink os name (sys_close os fd w1))
      else if sys_errno os w1 = EEXIST then (True, w1)
      else (False, w1))"

section \<open>Resources\<close>

lemmas shm_step_defs = shm_open_step_def shm_size_step_def shm_map_step_def

lemma shm_map_step_cases:
  assumes "shm_map_step os loc name sz fd w = (r, w')"
  obtains (fail) w1 e where "sys_mmap os sz fd w = (MAP_FAILED, w1)" "r = Inl e"
      "w' = sys_close os fd w1" "err_code e = shm_mmap_failed"
    | (ok) p w1 where "sys_mmap os sz fd w = (p, w1)" "p \<noteq> MAP_FAILED"
      "r = Inr (SharedMemory_new name sz fd p False)"
      "w' = SharedMemory_destroy os (SharedMemory_new [] sz (-1) nullptr False) w1"
  using assms
  by (auto simp: shm_map_step_def Let_def PosixIpcError_new_def SharedMemory_move_def
      SharedMemory_new_def split: prod.splits if_splits)

lemma open_or_create_Inr:
  assumes "open_or_create os loc name sz create w = (Inr m, w')"
  shows "shm_name m = name \<and> \<not> shm_created m \<and> (create \<longrightarrow> shm_size m = sz \<and> 0 < sz)"
  using assms
  by (auto simp: open_or_create_def SharedMemory_new_def shm_size_step_def word_neq_0_conv Let_def
      elim!: shm_map_step_cases split: prod.splits sum.splits if_splits)

context posix_resources
begin

lemma open_step_Inr:
  assumes "shm_open_step os loc name sz create w = (Inr fd, w')"
  shows "0 \<le> fd \<and> fd \<notin> fds w \<and> fds w' = insert fd (fds w) \<and> maps w' = maps w"
  using assms open_fd open_fail
  by (fastforce simp: shm_open_step_def Let_def split: prod.splits if_splits)

lemma open_step_Inl:
  assumes "shm_open_step os loc name sz create w = (Inl e, w')"
  shows "fds w' = fds w \<and> maps w' = maps w \<and> err_code e = shm_open_failed"
  using assms open_fail
  by (fastforce simp: shm_open_step_def Let_def PosixIpcError_new_def split: prod.splits if_splits)

lemma size_step_Inr:
  assumes "shm_size_step os loc name sz create fd w = (Inr sz', w')"
  shows "fds w' = fds w \<and> maps w' = maps w"
  using assms truncate_keeps fstat_keeps
  by (fastforce simp: shm_size_step_def Let_def split: prod.splits if_splits)

lemma size_step_Inl:
  assumes "shm_size_step os loc name sz create fd w = (Inl e, w')"
  shows "maps w' = maps w \<and> fds w' = (if create \<and> sz = 0 then fds w else fds w - {fd})"
  using assms truncate_keeps fstat_keeps
  by (fastforce simp: shm_size_step_def Let_def close_fd close_keeps
      split: prod.splits if_splits)

lemma destroy_effect:
  "fds (SharedMemory_destroy os m w) = fds w - {shm_fd m}"
  "maps (SharedMemory_destroy os m w) = maps w - {shm_ptr m}"
  by (simp_all add: SharedMemory_destroy_def Let_def close_fd close_keeps munmap unlink)

lemma map_step_Inr:
  assumes "shm_map_step os loc name sz fd w = (Inr m, w')"
  shows "shm_fd m = fd \<and> shm_ptr m \<noteq> nullptr \<and> shm_ptr m \<notin> maps w \<and>
    maps w' = insert (shm_ptr m) (maps w) \<and> fds w' = fds w"
  using assms mmap_new no_fd no_map
  by (elim shm_map_step_cases) (fastforce simp: SharedMemory_new_def destroy_effect)+

lemma map_step_Inl:
  assumes "shm_map_step os loc name sz fd w = (Inl e, w')"
  shows "maps w' = maps w \<and> fds w' = fds w - {fd}"
  using assms mmap_fail by (elim shm_map_step_cases) (auto simp: close_fd close_keeps)

lemma open_or_create_ok:
  assumes "open_or_create os loc name sz create w = (Inr m, w')"
  shows "0 \<le> shm_fd m \<and> shm_fd m \<notin> fds w \<and> fds w' = insert (shm_fd m) (fds w) \<and>
    shm_ptr m \<noteq> nullptr \<and> shm_ptr m \<notin> maps w \<and> maps w' = insert (shm_ptr m) (maps w)"
proof -
  obtain fd w1 sz' w2 where steps: "shm_open_step os loc name sz create w = (Inr fd, w1)"
      "shm_size_step os loc name sz create fd w1 = (Inr sz', w2)"
      "shm_map_step os loc name sz' fd w2 = (Inr m, w')"
    using assms by (auto simp: open_or_create_def split: prod.splits sum.splits)
  show ?thesis
    using open_step_Inr [OF steps(1)] size_step_Inr [OF steps(2)] map_step_Inr [OF steps(3)] by auto
qed

lemma open_or_create_failed:
  assumes "open_or_create os loc name sz create w = (Inl e, w')"
  shows "maps w' = maps w" and "\<not> (create \<and> sz = 0) \<Longrightarrow> fds w' = fds w"
  using assms
  by (auto simp: open_or_create_def split: prod.splits sum.splits
      dest!: open_step_Inr open_step_Inl size_step_Inr size_step_Inl map_step_Inl)

lemma destroy_names:
  "\<not> shm_created m \<Longrightarrow> names (SharedMemory_destroy os m w) = names w"
  by (simp add: SharedMemory_destroy_def close_keeps munmap)

lemma moved_from_destroy:
  assumes "SharedMemory_move m = (a, b)"
  shows "fds (SharedMemory_destroy os b w) = fds w \<and> maps (SharedMemory_destroy os b w) = maps w"
  using assms no_fd no_map by (auto simp: SharedMemory_move_def destroy_effect)

lemma move_destroy_once:
  assumes "SharedMemory_move m = (a, b)"
  shows "fds (SharedMemory_destroy os a (SharedMemory_destroy os b w)) = fds w - {shm_fd m}"
    and "maps (SharedMemory_destroy os a (SharedMemory_destroy os b w)) = maps w - {shm_ptr m}"
    and "fds (SharedMemory_destroy os b (SharedMemory_destroy os a w)) = fds w - {shm_fd m}"
    and "maps (SharedMemory_destroy os b (SharedMemory_destroy os a w)) = maps w - {shm_ptr m}"
  using assms moved_from_destroy [OF assms]
  by (auto simp: destroy_effect SharedMemory_move_def SharedMemory_new_def)

lemma exists_found:
  assumes "sys_shm_open os name exists_flags shm_mode (sys_set_errno os 0 w) = (fd, w1)"
    and "shm_exists os name w = (b, w')" and "0 < fd \<or> fd = -1 \<and> sys_errno os w1 = EEXIST"
  shows "(b \<longleftrightarrow> name \<in> names w) \<and> names w' = names w \<and> fds w' = fds w"
  using assms open_fd [OF assms(1)] open_excl [OF assms(1)] open_exists [of name exists_flags shm_mode "sys_set_errno os 0 w" w1]
    open_fail [of name exists_flags shm_mode "sys_set_errno os 0 w" w1]
  by (auto simp: shm_exists_def exists_flags_def close_fd close_keeps unlink set_errno
      split: if_splits)

lemma exists_keeps:
  assumes "0 \<in> fds w" and "shm_exists os name w = (b, w')"
  shows "fds w' = fds w \<and> maps w' = maps w"
proof -
  obtain fd w1 where probe: "sys_shm_open os name exists_flags shm_mode (sys_set_errno os 0 w) = (fd, w1)"
    by (cases "sys_shm_open os name exists_flags shm_mode (sys_set_errno os 0 w)")
  show ?thesis
  proof (cases "fd = -1")
    case True
    with probe have "fds w1 = fds w \<and> maps w1 = maps w"
      using open_fail by (fastforce simp: set_errno)
    moreover have "w' = w1" using assms(2) probe True by (auto simp: shm_exists_def split: if_splits)
    ultimately show ?thesis by simp
  next
    case False
    from open_fd [OF probe False] assms(1)
    have fd: "0 < fd" "fd \<notin> fds w" "fds w1 = insert fd (fds w)" "maps w1 = maps w"
      by (auto simp: set_errno order_less_le)
    then have "w' = sys_shm_unlink os name (sys_close os fd w1)"
      using assms(2) probe by (simp add: shm_exists_def)
    then show ?thesis using fd by (simp add: close_fd close_keeps unlink)
  qed
qed

lemma open_or_create_code:
  assumes "open_or_create os loc name sz create w = (Inl e, w')"
  shows "err_code e \<in> {shm_open_failed, shm_truncate_failed, shm_fstat_failed, shm_mmap_failed}"
  using assms
  by (auto simp: open_or_create_def shm_size_step_def Let_def PosixIpcError_new_def
      split: prod.splits sum.splits if_splits dest: open_step_Inl elim!: shm_map_step_cases)

lemma exists_fd_zero:
  assumes "sys_shm_open os name exists_flags shm_mode (sys_set_errno os 0 w) = (0, w1)"
    and "shm_exists os name w = (b, w')" and "sys_errno os w1 \<noteq> EEXIST"
  shows "\<not> b \<and> name \<notin> names w \<and> names w' = insert name (names w) \<and> fds w' = insert 0 (fds w)"
  using assms open_fd [OF assms(1)] open_excl [OF assms(1)]
  by (auto simp: shm_exists_def exists_flags_def set_errno)

end

section \<open>Properties\<close>



text \<open>
  No object of the class ever counts as created. Whatever the operating system answers, the
  object that \<^verbatim>\<open>open_or_create\<close> returns does not own the name, also after a move, so the
  destructor leaves every name in the system as it was, the one it has just created included.
\<close>

theorem shared_memory_never_unlinked:
  assumes "open_or_create os loc name sz create w = (Inr m, w')"
  shows "\<not> shm_created m \<and> \<not> shm_created (fst (SharedMemory_move m)) \<and>
    SharedMemory_destroy os m v = sys_close os (shm_fd m) (sys_munmap os (shm_ptr m) (shm_size m) v) \<and>
    (posix_resources os fds maps names \<longrightarrow> names (SharedMemory_destroy os m v) = names v)"
  using open_or_create_Inr [OF assms] posix_resources.destroy_names [of os fds maps names m v]
  by (simp add: SharedMemory_destroy_def SharedMemory_move_def SharedMemory_new_def)

theorem shared_memory_never_unlinked_witness:
  "\<exists>m w'. open_or_create kernel_os loc0 ''/q'' 320 True (boot 3) = (Inr m, w') \<and>
     kern_names (boot 3) = {} \<and> kern_names (SharedMemory_destroy kernel_os m w') = {''/q''}"
proof -
  define w' where "w' = snd (open_or_create kernel_os loc0 ''/q'' 320 True (boot 3))"
  have run: "open_or_create kernel_os loc0 ''/q'' 320 True (boot 3) =
      (Inr (SharedMemory_new ''/q'' 320 3 0x10000 False), w')"
    by (simp add: w'_def open_or_create_def shm_step_defs kernel_os_def kern_defs boot_def
        create_flags_def MAP_FAILED_def SharedMemory_move_def SharedMemory_new_def
        SharedMemory_destroy_def)
  have "kern_names w' = {''/q''}"
    by (simp add: w'_def open_or_create_def shm_step_defs kernel_os_def kern_defs boot_def
        create_flags_def MAP_FAILED_def SharedMemory_move_def SharedMemory_new_def
        SharedMemory_destroy_def)
  moreover have "kern_names (boot 3) = {}"
    by (simp add: kern_names_def boot_def)
  moreover have "kern_names (SharedMemory_destroy kernel_os (SharedMemory_new ''/q'' 320 3 0x10000 False) w') =
      kern_names w'"
    using shared_memory_never_unlinked [OF run] kernel.posix_resources_axioms by metis
  ultimately show ?thesis using run by simp
qed

text \<open>
  Creating an object of size 0 is refused only after the object has been opened: the error
  \<^verbatim>\<open>shm_open_failed\<close> is returned, but the new descriptor stays open and, if the name was free, the
  new object stays behind.
\<close>

theorem shared_memory_zero_size_leaks:
  assumes "posix_resources os fds maps names"
    and "sys_shm_open os name create_flags shm_mode w = (fd, w1)" and "fd \<noteq> -1"
  shows "\<exists>e. open_or_create os loc name 0 True w = (Inl e, w1) \<and> err_code e = shm_open_failed \<and>
    fd \<notin> fds w \<and> fds w1 = insert fd (fds w) \<and> name \<notin> names w \<and> names w1 = insert name (names w)"
  using assms(2,3) posix_resources.open_fd [OF assms] posix_resources.open_excl [OF assms]
  by (auto simp: open_or_create_def shm_open_step_def shm_size_step_def PosixIpcError_new_def
      create_flags_def)

theorem shared_memory_zero_size_leaks_witness:
  "\<exists>e w1. open_or_create kernel_os loc0 ''/q'' 0 True (boot 3) = (Inl e, w1) \<and>
     kern_open_fds w1 = insert 3 (kern_open_fds (boot 3)) \<and> ''/q'' \<in> kern_names w1"
proof -
  have "sys_shm_open kernel_os ''/q'' create_flags shm_mode (boot 3) =
      (3, snd (sys_shm_open kernel_os ''/q'' create_flags shm_mode (boot 3)))"
    by (simp add: kernel_os_def kern_defs boot_def create_flags_def)
  from shared_memory_zero_size_leaks [OF kernel.posix_resources_axioms this, of loc0]
  show ?thesis by auto
qed

text \<open>
  \<^verbatim>\<open>exists\<close> probes with an exclusive creation. When the probe gets a positive descriptor or
  fails because the object exists, the answer is right and neither the objects nor the open
  descriptors change. When the probe gets descriptor 0, which happens in a process that has closed
  its standard input, the answer is still no, but the probe's object and descriptor stay.
\<close>

theorem shm_exists_correct:
  assumes "posix_resources os fds maps names"
    and "sys_shm_open os name exists_flags shm_mode (sys_set_errno os 0 w) = (fd, w1)"
    and "shm_exists os name w = (b, w')"
  shows "(0 < fd \<or> fd = -1 \<and> sys_errno os w1 = EEXIST \<longrightarrow>
       (b \<longleftrightarrow> name \<in> names w) \<and> names w' = names w \<and> fds w' = fds w) \<and>
     (fd = 0 \<and> sys_errno os w1 \<noteq> EEXIST \<longrightarrow>
       \<not> b \<and> name \<notin> names w \<and> names w' = insert name (names w) \<and> fds w' = insert 0 (fds w))"
  using posix_resources.exists_found [OF assms] posix_resources.exists_fd_zero [OF assms(1)] assms(2,3)
  by blast

theorem shm_exists_correct_witness:
  "(\<exists>w'. shm_exists kernel_os ''/q'' (boot 3) = (False, w') \<and> kern_names w' = {}) \<and>
   (\<exists>w'. shm_exists kernel_os ''/q'' (boot 0) = (False, w') \<and> kern_names w' = {''/q''})"
proof -
  have r3: "sys_shm_open kernel_os ''/q'' exists_flags shm_mode (sys_set_errno kernel_os 0 (boot 3)) =
      (3, snd (sys_shm_open kernel_os ''/q'' exists_flags shm_mode (sys_set_errno kernel_os 0 (boot 3))))"
    and r0: "sys_shm_open kernel_os ''/q'' exists_flags shm_mode (sys_set_errno kernel_os 0 (boot 0)) =
      (0, snd (sys_shm_open kernel_os ''/q'' exists_flags shm_mode (sys_set_errno kernel_os 0 (boot 0))))"
    and e0: "sys_errno kernel_os
      (snd (sys_shm_open kernel_os ''/q'' exists_flags shm_mode (sys_set_errno kernel_os 0 (boot 0)))) \<noteq> EEXIST"
    and none: "kern_names (boot 3) = {}" "kern_names (boot 0) = {}"
    by (simp_all add: kernel_os_def kern_defs boot_def exists_flags_def EEXIST_def)
  show ?thesis
    using shm_exists_correct [OF kernel.posix_resources_axioms r3 surjective_pairing]
      shm_exists_correct [OF kernel.posix_resources_axioms r0 surjective_pairing] e0
    unfolding none by (cases "shm_exists kernel_os ''/q'' (boot 3)";
        cases "shm_exists kernel_os ''/q'' (boot 0)") auto
qed

text \<open>
  A move hands the descriptor and the mapping over: destroying both objects, in either order,
  releases them exactly once. A move assignment instead forgets those of its target: after
  destroying both objects the target's old descriptor and mapping are still open.
\<close>

theorem shared_memory_moves:
  assumes "posix_resources os fds maps names"
  shows "(SharedMemory_move m = (a, b) \<longrightarrow>
       fds (SharedMemory_destroy os a (SharedMemory_destroy os b w)) = fds w - {shm_fd m} \<and>
       maps (SharedMemory_destroy os a (SharedMemory_destroy os b w)) = maps w - {shm_ptr m} \<and>
       fds (SharedMemory_destroy os b (SharedMemory_destroy os a w)) = fds w - {shm_fd m} \<and>
       maps (SharedMemory_destroy os b (SharedMemory_destroy os a w)) = maps w - {shm_ptr m}) \<and>
     (SharedMemory_move_assign False m m2 = (c, d) \<and> shm_fd m \<in> fds w \<and> shm_ptr m \<in> maps w \<and>
       shm_fd m \<noteq> shm_fd m2 \<and> shm_ptr m \<noteq> shm_ptr m2 \<longrightarrow>
       shm_fd m \<in> fds (SharedMemory_destroy os c (SharedMemory_destroy os d w)) \<and>
       shm_ptr m \<in> maps (SharedMemory_destroy os c (SharedMemory_destroy os d w)))"
  using posix_resources.move_destroy_once [OF assms, of m a b w]
    posix_resources.no_fd [OF assms, of w] posix_resources.no_map [OF assms, of w]
  by (auto simp: posix_resources.destroy_effect [OF assms] SharedMemory_move_assign_def)

theorem shared_memory_moves_witness:
  "3 \<in> kern_open_fds (SharedMemory_destroy kernel_os (SharedMemory_new ''/b'' 8 4 0x30000 False)
     (SharedMemory_destroy kernel_os (SharedMemory_new [] 8 (-1) nullptr False)
        ((boot 5)\<lparr>k_fds := [3 \<mapsto> 0, 4 \<mapsto> 1], k_maps := [0x10000 \<mapsto> 0, 0x30000 \<mapsto> 1]\<rparr>)))"
  using shared_memory_moves [OF kernel.posix_resources_axioms,
      of "SharedMemory_new ''/a'' 8 3 0x10000 False" _ _
         "(boot 5)\<lparr>k_fds := [3 \<mapsto> 0, 4 \<mapsto> 1], k_maps := [0x10000 \<mapsto> 0, 0x30000 \<mapsto> 1]\<rparr>"
         "SharedMemory_new ''/b'' 8 4 0x30000 False"
         "SharedMemory_new ''/b'' 8 4 0x30000 False" "SharedMemory_new [] 8 (-1) nullptr False"]
  by (simp add: SharedMemory_move_assign_def SharedMemory_new_def kern_open_fds_def
      kern_mappings_def)

end
