(* ===== verification/Ipc_Message.thy ===== *)
theory Ipc_Message
  imports Ipc_Prelude
begin

text \<open>
  \<^verbatim>\<open>include/posix_ipc/queues/Message.hpp\<close>: \<open>MessageView\<close>, a window on a payload that lies
  in a queue's buffer, and \<open>Message\<close>, a payload to be written, which may own the array it points
  to. The memory of the process is a map from block addresses to blocks; \<^verbatim>\<open>delete[]\<close> removes a
  block and faults on an address that is not the start of one.
\<close>

section \<open>Process memory\<close>

type_synonym heap = "addr \<rightharpoonup> byte list"

definition load_heap :: "heap \<Rightarrow> addr \<Rightarrow> nat \<Rightarrow> byte list option" where
  "load_heap h p n = (case h p of None \<Rightarrow> None | Some blk \<Rightarrow> mem_read blk 0 n)"

definition delete_array :: "heap \<Rightarrow> addr \<Rightarrow> heap exec" where
  "delete_array h p = (case h p of None \<Rightarrow> Inl InvalidFree | Some _ \<Rightarrow> Inr (h(p := None)))"

section \<open>MessageView\<close>

record MessageView =
  view_payload :: addr
  view_size :: u64
  view_index :: u64

definition MessageView_default :: MessageView where
  "MessageView_default = \<lparr>view_payload = nullptr, view_size = 0, view_index = 0\<rparr>"

definition MessageView_new :: "addr \<Rightarrow> u64 \<Rightarrow> u64 \<Rightarrow> MessageView" where
  "MessageView_new p sz ix = \<lparr>view_payload = p, view_size = sz, view_index = ix\<rparr>"

definition view_empty :: "MessageView \<Rightarrow> bool" where
  "view_empty v \<longleftrightarrow> view_size v = 0"

definition view_payload_size :: "MessageView \<Rightarrow> u64" where
  "view_payload_size v = view_size v"

definition view_total_size :: "MessageView \<Rightarrow> u64" where
  "view_total_size v = 8 + view_payload_size v"

definition view_payload_ptr :: "MessageView \<Rightarrow> addr" where
  "view_payload_ptr v = view_payload v"

text \<open>
  \<^verbatim>\<open>copy_payload_to\<close> reads through the view's pointer, so it takes the reader of the memory the
  pointer points into; \<^verbatim>\<open>dest\<close> is the block that receives the copy.
\<close>

definition copy_payload_to ::
    "(addr \<Rightarrow> nat \<Rightarrow> byte list option) \<Rightarrow> MessageView \<Rightarrow> byte list \<Rightarrow> byte list option" where
  "copy_payload_to load v dest =
     do { bs \<leftarrow> load (view_payload v) (unat (view_payload_size v)); mem_write dest 0 bs }"

text \<open>A \<^verbatim>\<open>std::string_view\<close> or \<^verbatim>\<open>std::span\<close> is a start address and a length.\<close>

definition as_string_view :: "MessageView \<Rightarrow> addr \<times> u64" where
  "as_string_view v = (view_payload v, view_size v)"

definition as_span :: "MessageView \<Rightarrow> addr \<times> u64" where
  "as_span v = (view_payload v, view_payload_size v)"

section \<open>Message\<close>

record Message =
  msg_payload :: addr
  msg_size :: u64
  owns_payload :: bool

definition Message_new :: "addr \<Rightarrow> u64 \<Rightarrow> bool \<Rightarrow> Message" where
  "Message_new p sz own = \<lparr>msg_payload = p, msg_size = sz, owns_payload = own\<rparr>"

definition Message_destroy :: "heap \<Rightarrow> Message \<Rightarrow> (heap \<times> Message) exec" where
  "Message_destroy h m =
     (if owns_payload m \<and> msg_payload m \<noteq> nullptr
      then (case delete_array h (msg_payload m) of
              Inl f \<Rightarrow> Inl f
            | Inr h' \<Rightarrow> Inr (h', m\<lparr>msg_payload := nullptr\<rparr>))
      else Inr (h, m\<lparr>msg_payload := nullptr\<rparr>))"

text \<open>The move constructor returns the new object and the emptied source.\<close>

definition Message_move :: "Message \<Rightarrow> Message \<times> Message" where
  "Message_move other =
     (Message_new (msg_payload other) (msg_size other) (owns_payload other),
      other\<lparr>msg_payload := nullptr\<rparr>)"

text \<open>
  Move assignment; \<open>same\<close> says whether \<^verbatim>\<open>this == &other\<close>. The result is the pair of the
  assigned object and the source.
\<close>

definition Message_move_assign :: "bool \<Rightarrow> Message \<Rightarrow> Message \<Rightarrow> Message \<times> Message" where
  "Message_move_assign same self other =
     (if same then (self, other)
      else (self\<lparr>msg_payload := msg_payload other, msg_size := msg_size other,
                 owns_payload := owns_payload other\<rparr>,
            other\<lparr>msg_payload := nullptr\<rparr>))"

definition msg_payload_size :: "Message \<Rightarrow> u64" where
  "msg_payload_size m = msg_size m"

definition msg_total_size :: "Message \<Rightarrow> u64" where
  "msg_total_size m = 8 + msg_payload_size m"

definition Message_owns :: "addr \<Rightarrow> u64 \<Rightarrow> Message" where
  "Message_owns p sz = Message_new p sz True"

definition Message_borrows :: "addr \<Rightarrow> u64 \<Rightarrow> Message" where
  "Message_borrows p sz = Message_new p sz False"

section \<open>Properties\<close>

lemma unat_msg_total_size:
  "unat (msg_size m) + 8 < 2 ^ 64 \<Longrightarrow> unat (msg_total_size m) = unat (msg_size m) + 8"
  by (simp add: msg_total_size_def msg_payload_size_def unat_word_ariths)

lemma unat_view_total_size:
  "unat (view_size v) + 8 < 2 ^ 64 \<Longrightarrow> unat (view_total_size v) = unat (view_size v) + 8"
  by (simp add: view_total_size_def view_payload_size_def unat_word_ariths)

lemma delete_array_Inr [simp]: "h p = Some blk \<Longrightarrow> delete_array h p = Inr (h(p := None))"
  by (simp add: delete_array_def)

lemma Message_destroy_null [simp]:
  "msg_payload m = nullptr \<Longrightarrow> Message_destroy h m = Inr (h, m)"
  by (simp add: Message_destroy_def)

lemma Message_destroy_owned:
  "owns_payload m \<Longrightarrow> h (msg_payload m) = Some blk \<Longrightarrow> msg_payload m \<noteq> nullptr \<Longrightarrow>
     Message_destroy h m = Inr (h(msg_payload m := None), m\<lparr>msg_payload := nullptr\<rparr>)"
  by (simp add: Message_destroy_def)

lemma Message_destroy_borrowed:
  "\<not> owns_payload m \<Longrightarrow> Message_destroy h m = Inr (h, m\<lparr>msg_payload := nullptr\<rparr>)"
  by (simp add: Message_destroy_def)

definition destroy_both :: "heap \<Rightarrow> Message \<Rightarrow> Message \<Rightarrow> heap exec" where
  "destroy_both h a b =
     (case Message_destroy h a of
        Inl f \<Rightarrow> Inl f
      | Inr (h1, _) \<Rightarrow> (case Message_destroy h1 b of Inl f \<Rightarrow> Inl f | Inr (h2, _) \<Rightarrow> Inr h2))"

text \<open>
  Ownership passes with a move. When a message that owns an allocated array is moved and both
  objects are destroyed, in either order, the array is released exactly once and nothing else is
  touched; destroying a message twice releases nothing the second time.
\<close>

theorem message_move_frees_once:
  assumes own: "owns_payload m" and alloc: "h (msg_payload m) = Some blk"
    and nonnull: "msg_payload m \<noteq> nullptr" and mv: "Message_move m = (a, b)"
  shows "destroy_both h a b = Inr (h(msg_payload m := None)) \<and>
         destroy_both h b a = Inr (h(msg_payload m := None)) \<and>
         destroy_both h m (m\<lparr>msg_payload := nullptr\<rparr>) = Inr (h(msg_payload m := None))"
proof -
  from mv have a: "owns_payload a" "msg_payload a = msg_payload m"
    and b: "msg_payload b = nullptr"
    using own by (auto simp: Message_move_def Message_new_def)
  have "Message_destroy h a = Inr (h(msg_payload m := None), a\<lparr>msg_payload := nullptr\<rparr>)"
    using Message_destroy_owned [of a h blk] a alloc nonnull by simp
  with b have "destroy_both h a b = Inr (h(msg_payload m := None))"
    and "destroy_both h b a = Inr (h(msg_payload m := None))"
    by (simp_all add: destroy_both_def)
  moreover have "destroy_both h m (m\<lparr>msg_payload := nullptr\<rparr>) = Inr (h(msg_payload m := None))"
    using Message_destroy_owned [of m h blk] own alloc nonnull by (simp add: destroy_both_def)
  ultimately show ?thesis by blast
qed

theorem message_move_frees_once_witness:
  "destroy_both [4096 \<mapsto> [1, 2, 3]] (Message_owns 4096 3) (Message_borrows nullptr 0)
     = Inr Map.empty \<and>
   destroy_both [4096 \<mapsto> [1, 2, 3]] (fst (Message_move (Message_owns 4096 3)))
     (snd (Message_move (Message_owns 4096 3))) = Inr Map.empty"
proof -
  have "destroy_both [4096 \<mapsto> [1, 2, 3]] (fst (Message_move (Message_owns 4096 3)))
     (snd (Message_move (Message_owns 4096 3))) = Inr ([4096 \<mapsto> [1, 2, 3]](4096 := None))"
    using message_move_frees_once
      [of "Message_owns 4096 3" "[4096 \<mapsto> [1, 2, 3]]" "[1, 2, 3]"
          "fst (Message_move (Message_owns 4096 3))" "snd (Message_move (Message_owns 4096 3))"]
    by (simp add: Message_owns_def Message_new_def)
  then show ?thesis
    by (auto simp: destroy_both_def Message_destroy_def delete_array_def Message_owns_def
        Message_borrows_def Message_new_def)
qed

text \<open>
  Move assignment does not release the array its target owns: after assigning over a message
  that owns an allocated array and destroying both objects, that array is still allocated although
  no message points to it any more.
\<close>

theorem message_move_assign_leaks:
  assumes own: "owns_payload self" "h (msg_payload self) = Some blk"
      "msg_payload self \<noteq> nullptr"
    and other: "owns_payload other" "h (msg_payload other) = Some blk'"
      "msg_payload other \<noteq> nullptr"
    and distinct: "msg_payload self \<noteq> msg_payload other"
    and asg: "Message_move_assign False self other = (a, b)"
  shows "destroy_both h a b = Inr (h(msg_payload other := None)) \<and>
         (h(msg_payload other := None)) (msg_payload self) = Some blk \<and>
         msg_payload a \<noteq> msg_payload self \<and> msg_payload b \<noteq> msg_payload self"
proof -
  from asg have a: "owns_payload a" "msg_payload a = msg_payload other"
    and b: "msg_payload b = nullptr"
    using other(1) by (auto simp: Message_move_assign_def)
  have "Message_destroy h a = Inr (h(msg_payload other := None), a\<lparr>msg_payload := nullptr\<rparr>)"
    using Message_destroy_owned [of a h blk'] a other by simp
  with b own distinct a show ?thesis
    by (auto simp: destroy_both_def)
qed

theorem message_move_assign_leaks_witness:
  "destroy_both [4096 \<mapsto> [1], 8192 \<mapsto> [2]]
     (fst (Message_move_assign False (Message_owns 4096 1) (Message_owns 8192 1)))
     (snd (Message_move_assign False (Message_owns 4096 1) (Message_owns 8192 1)))
   = Inr [4096 \<mapsto> [1]]"
  using message_move_assign_leaks
    [of "Message_owns 4096 1" "[4096 \<mapsto> [1], 8192 \<mapsto> [2]]" "[1]" "Message_owns 8192 1" "[2]"
      "fst (Message_move_assign False (Message_owns 4096 1) (Message_owns 8192 1))"
      "snd (Message_move_assign False (Message_owns 4096 1) (Message_owns 8192 1))"]
  by (simp add: Message_owns_def Message_new_def fun_upd_twist)

end
