(* ===== verification/SPSC_Storage.thy ===== *)
theory SPSC_Storage
  imports Ipc_Errors Ipc_Message
begin

text \<open>
  \<^verbatim>\<open>include/posix_ipc/queues/spsc/SPSCStorage.hpp\<close>: the header of a queue that lives at the
  start of a memory region, and the bytes that follow it. The record \<open>SPSCStorage\<close> holds the
  header's fields and the region's remaining bytes; \<open>SPSCStorage_at\<close> and \<open>SPSCStorage_put\<close>
  connect it with the raw bytes of the region, at the offsets the class documents, so that a region
  written by one process can be read by another.
\<close>

section \<open>The layout\<close>

definition SPSC_CACHE_LINE_SIZE :: u64 where
  "SPSC_CACHE_LINE_SIZE = 64"

definition SPSC_MAGIC :: u32 where
  "SPSC_MAGIC = 0x53505343"

definition SPSC_ABI_VERSION :: u32 where
  "SPSC_ABI_VERSION = 1"

definition BUFFER_OFFSET :: u64 where
  "BUFFER_OFFSET = 4 * SPSC_CACHE_LINE_SIZE"

text \<open>\<^verbatim>\<open>sizeof(SPSCStorage)\<close>, which the class asserts to be four cache lines.\<close>

definition sizeof_SPSCStorage :: u64 where
  "sizeof_SPSCStorage = 4 * SPSC_CACHE_LINE_SIZE"

definition off_magic :: nat where "off_magic = 0"
definition off_abi_version :: nat where "off_abi_version = 4"
definition off_storage_size :: nat where "off_storage_size = 8"
definition off_read_ix :: nat where "off_read_ix = 64"
definition off_write_ix :: nat where "off_write_ix = 128"
definition off_msg_count :: nat where "off_msg_count = 192"

lemmas layout_defs = SPSC_CACHE_LINE_SIZE_def BUFFER_OFFSET_def sizeof_SPSCStorage_def
  off_magic_def off_abi_version_def off_storage_size_def off_read_ix_def off_write_ix_def
  off_msg_count_def

record SPSCStorage =
  st_magic :: u32
  st_abi_version :: u32
  st_storage_size :: u64
  st_read_ix :: u64
  st_write_ix :: u64
  st_msg_count :: u64
  st_buffer :: "byte list"

text \<open>\<^verbatim>\<open>reinterpret_cast<SPSCStorage*>(ptr)\<close>: reading the fields out of a region.\<close>

definition SPSCStorage_at :: "byte list \<Rightarrow> SPSCStorage" where
  "SPSCStorage_at mem =
     \<lparr>st_magic = u32_of_bytes (mem_slice mem off_magic 4),
      st_abi_version = u32_of_bytes (mem_slice mem off_abi_version 4),
      st_storage_size = u64_of_bytes (mem_slice mem off_storage_size 8),
      st_read_ix = u64_of_bytes (mem_slice mem off_read_ix 8),
      st_write_ix = u64_of_bytes (mem_slice mem off_write_ix 8),
      st_msg_count = u64_of_bytes (mem_slice mem off_msg_count 8),
      st_buffer = drop (unat BUFFER_OFFSET) mem\<rparr>"

text \<open>Writing the fields into a region; the padding keeps its bytes.\<close>

definition SPSCStorage_put :: "byte list \<Rightarrow> SPSCStorage \<Rightarrow> byte list" where
  "SPSCStorage_put mem s =
     mem_splice (mem_splice (mem_splice (mem_splice (mem_splice (mem_splice (mem_splice mem
       off_magic (bytes_of_u32 (st_magic s)))
       off_abi_version (bytes_of_u32 (st_abi_version s)))
       off_storage_size (bytes_of_u64 (st_storage_size s)))
       off_read_ix (bytes_of_u64 (st_read_ix s)))
       off_write_ix (bytes_of_u64 (st_write_ix s)))
       off_msg_count (bytes_of_u64 (st_msg_count s)))
       (unat BUFFER_OFFSET) (st_buffer s)"

section \<open>Construction and accessors\<close>

text \<open>The constructor, run by placement new on a region whose bytes after the header are \<open>buf\<close>.\<close>

definition SPSCStorage_new :: "u64 \<Rightarrow> byte list \<Rightarrow> SPSCStorage" where
  "SPSCStorage_new storage_size buf =
     \<lparr>st_magic = SPSC_MAGIC, st_abi_version = SPSC_ABI_VERSION, st_storage_size = storage_size,
      st_read_ix = 0, st_write_ix = 0, st_msg_count = 0, st_buffer = buf\<rparr>"

text \<open>Placement new into a region: it writes the whole header, so the region must hold it.\<close>

definition placement_new :: "byte list \<Rightarrow> u64 \<Rightarrow> byte list option" where
  "placement_new mem storage_size =
     (if length mem < unat sizeof_SPSCStorage then None
      else Some (SPSCStorage_put mem
        (SPSCStorage_new storage_size (drop (unat BUFFER_OFFSET) mem))))"

definition storage_size :: "SPSCStorage \<Rightarrow> u64" where
  "storage_size s = st_storage_size s"

definition buffer_size :: "SPSCStorage \<Rightarrow> u64" where
  "buffer_size s = st_storage_size s - BUFFER_OFFSET"

text \<open>\<^verbatim>\<open>buffer()\<close>, for a storage object at address \<open>this\<close>.\<close>

definition buffer_addr :: "addr \<Rightarrow> addr" where
  "buffer_addr this = this + BUFFER_OFFSET"

section \<open>Factory functions\<close>

text \<open>
  \<^verbatim>\<open>create\<close> allocates with the aligned non-throwing \<^verbatim>\<open>operator new\<close>, given as \<open>op_new\<close>:
  the address and the content of a fresh block, or none.
\<close>

definition SPSCStorage_create ::
    "(heap \<Rightarrow> u64 \<Rightarrow> (addr \<times> byte list) option) \<Rightarrow> source_location \<Rightarrow> u64 \<Rightarrow> heap \<Rightarrow>
       PosixIpcError + (addr \<times> heap)" where
  "SPSCStorage_create op_new loc sz h =
     (if sz \<le> BUFFER_OFFSET
      then Inl (PosixIpcError_new spsc_storage_error
             (''SPSCStorage requires a memory region greater than '' @
              fmt_nat (unat BUFFER_OFFSET) @ '' bytes, '' @
              ''requested size of '' @ fmt_nat (unat sz) @ '' bytes is too small.'') loc)
      else case op_new h sz of
        None \<Rightarrow> Inl (PosixIpcError_new spsc_storage_error
                  (''Allocating '' @ fmt_nat (unat sz) @ '' bytes failed'') loc)
      | Some (raw, blk) \<Rightarrow>
          Inr (raw, h(raw := placement_new blk sz)))"

text \<open>The deleter of the unique pointer: a null pointer is left alone.\<close>

definition SPSCStorage_delete :: "heap \<Rightarrow> addr \<Rightarrow> heap exec" where
  "SPSCStorage_delete h p = (if p \<noteq> nullptr then delete_array h p else Inr h)"

text \<open>\<^verbatim>\<open>map\<close>: \<open>mem\<close> is the region the pointer points to.\<close>

definition SPSCStorage_map ::
    "source_location \<Rightarrow> addr \<Rightarrow> u64 \<Rightarrow> byte list \<Rightarrow> PosixIpcError + addr" where
  "SPSCStorage_map loc ptr len mem =
     (if ptr = nullptr
      then Inl (PosixIpcError_new spsc_storage_error ''SPSCStorage mapping pointer is null'' loc)
      else if len < sizeof_SPSCStorage
      then Inl (PosixIpcError_new spsc_storage_error
             ''Mapping smaller than SPSCStorage header'' loc)
      else if ptr mod SPSC_CACHE_LINE_SIZE \<noteq> 0
      then Inl (PosixIpcError_new spsc_storage_error
             ''SPSCStorage mapping memory address not 64-byte aligned'' loc)
      else let s = SPSCStorage_at mem in
        if st_magic s \<noteq> SPSC_MAGIC
        then Inl (PosixIpcError_new spsc_storage_error ''SPSCStorage bad SPSC_MAGIC'' loc)
        else if st_abi_version s \<noteq> SPSC_ABI_VERSION
        then Inl (PosixIpcError_new spsc_storage_error ''SPSCStorage ABI version mismatch'' loc)
        else if st_storage_size s \<noteq> len
        then Inl (PosixIpcError_new spsc_storage_error
               (''SPSCStorage buffer vs. stored size mismatch: '' @ fmt_nat (unat len) @
                '' != '' @ fmt_nat (unat (storage_size s))) loc)
        else Inr ptr)"

section \<open>Properties\<close>

lemma unat_BUFFER_OFFSET [simp]: "unat BUFFER_OFFSET = 256"
  by (simp add: layout_defs)

lemma unat_sizeof_SPSCStorage [simp]: "unat sizeof_SPSCStorage = 256"
  by (simp add: layout_defs)

lemma unat_buffer_size:
  "256 \<le> unat (st_storage_size s) \<Longrightarrow> unat (buffer_size s) = unat (st_storage_size s) - 256"
  by (simp add: buffer_size_def unat_sub_u64)

lemma length_SPSCStorage_put:
  "256 + length (st_buffer s) = length mem \<Longrightarrow> length (SPSCStorage_put mem s) = length mem"
  by (simp add: SPSCStorage_put_def layout_defs length_mem_splice)

text \<open>The fields and the buffer do not overlap, so each is read back as it was written.\<close>

lemma SPSCStorage_at_put:
  "256 + length (st_buffer s) = length mem \<Longrightarrow> SPSCStorage_at (SPSCStorage_put mem s) = s"
  by (simp add: SPSCStorage_at_def SPSCStorage_put_def layout_defs length_mem_splice
      slice_splice_same slice_splice_disjoint) (simp add: mem_splice_def)

lemma SPSCStorage_put_pad:
  assumes "256 + length (st_buffer s) = length mem"
    and "16 \<le> off \<and> off + n \<le> 64 \<or> 72 \<le> off \<and> off + n \<le> 128 \<or>
         136 \<le> off \<and> off + n \<le> 192 \<or> 200 \<le> off \<and> off + n \<le> 256"
  shows "mem_slice (SPSCStorage_put mem s) off n = mem_slice mem off n"
  using assms(2)
  by (elim disjE)
    (simp_all add: SPSCStorage_put_def layout_defs length_mem_splice slice_splice_disjoint
      assms(1) [symmetric])

lemma SPSCStorage_new_simps [simp]:
  "st_magic (SPSCStorage_new sz buf) = SPSC_MAGIC"
  "st_abi_version (SPSCStorage_new sz buf) = SPSC_ABI_VERSION"
  "st_storage_size (SPSCStorage_new sz buf) = sz"
  "st_read_ix (SPSCStorage_new sz buf) = 0"
  "st_write_ix (SPSCStorage_new sz buf) = 0"
  "st_msg_count (SPSCStorage_new sz buf) = 0"
  "st_buffer (SPSCStorage_new sz buf) = buf"
  by (simp_all add: SPSCStorage_new_def)

lemma placement_new_Some:
  "placement_new mem sz = Some mem' \<Longrightarrow>
     256 \<le> length mem \<and> length mem' = length mem \<and>
     SPSCStorage_at mem' = SPSCStorage_new sz (drop 256 mem)"
  by (auto simp: placement_new_def SPSCStorage_at_put length_SPSCStorage_put not_less
      split: if_splits)

lemma placement_new_fits: "256 \<le> length mem \<Longrightarrow> \<exists>mem'. placement_new mem sz = Some mem'"
  by (simp add: placement_new_def)



lemma SPSCStorage_map_Inr_iff:
  "SPSCStorage_map loc ptr len mem = Inr p \<longleftrightarrow>
      p = ptr \<and> ptr \<noteq> nullptr \<and> 256 \<le> unat len \<and> unat ptr mod 64 = 0 \<and>
      st_magic (SPSCStorage_at mem) = SPSC_MAGIC \<and>
      st_abi_version (SPSCStorage_at mem) = SPSC_ABI_VERSION \<and>
      st_storage_size (SPSCStorage_at mem) = len"
proof -
  have aligned: "ptr mod SPSC_CACHE_LINE_SIZE = 0 \<longleftrightarrow> unat ptr mod 64 = 0"
    by (simp add: layout_defs unat_mod_u64 u64_eq_iff)
  have big: "len < sizeof_SPSCStorage \<longleftrightarrow> unat len < 256"
    by (simp add: word_less_nat_alt)
  show ?thesis
    unfolding SPSCStorage_map_def Let_def by (auto simp: aligned big)
qed

lemma SPSCStorage_map_Inl:
  "SPSCStorage_map loc ptr len mem = Inl e \<Longrightarrow>
     err_code e = spsc_storage_error \<and> err_location e = loc"
  by (auto simp: SPSCStorage_map_def Let_def PosixIpcError_new_def split: if_splits)

text \<open>
  C13: \<^verbatim>\<open>map\<close> accepts exactly the regions that hold a queue of this library: a non-null, 64-byte
  aligned address, a length of at least the header, the magic number, the ABI version and a stored
  size equal to the length. It returns the address it was given, and every refusal carries the
  storage error code.
\<close>

theorem storage_map_accepts_iff:
  "(SPSCStorage_map loc ptr len mem = Inr p \<longleftrightarrow>
      p = ptr \<and> ptr \<noteq> nullptr \<and> 256 \<le> unat len \<and> unat ptr mod 64 = 0 \<and>
      st_magic (SPSCStorage_at mem) = SPSC_MAGIC \<and>
      st_abi_version (SPSCStorage_at mem) = SPSC_ABI_VERSION \<and>
      st_storage_size (SPSCStorage_at mem) = len) \<and>
   (\<forall>e. SPSCStorage_map loc ptr len mem = Inl e \<longrightarrow>
      err_code e = spsc_storage_error \<and> err_location e = loc)"
  by (intro conjI allI impI SPSCStorage_map_Inr_iff) (simp_all add: SPSCStorage_map_Inl)

theorem storage_map_accepts_iff_witness:
  "SPSCStorage_map loc0 4096 272 (SPSCStorage_put (replicate 272 7) (SPSCStorage_new 272 (replicate 16 9)))
     = Inr 4096"
  using storage_map_accepts_iff [of loc0 4096 272
      "SPSCStorage_put (replicate 272 7) (SPSCStorage_new 272 (replicate 16 9))" 4096]
  by (simp add: SPSCStorage_at_put)

text \<open>What the aligned allocator guarantees of a block it returns.\<close>

definition fresh_block :: "heap \<Rightarrow> u64 \<Rightarrow> addr \<Rightarrow> byte list \<Rightarrow> bool" where
  "fresh_block h sz a blk \<longleftrightarrow>
     length blk = unat sz \<and> unat a mod 64 = 0 \<and> a \<noteq> nullptr \<and> h a = None"

text \<open>
  A storage object created on the heap is one that \<^verbatim>\<open>map\<close> accepts: creation refuses sizes
  that leave no room for a buffer, and otherwise, with an allocator that returns fresh aligned
  blocks of the size asked for, it yields an address whose region maps, holds an empty queue of
  the requested size with a non-empty buffer, and is released by the deleter, restoring the heap.
\<close>

theorem storage_create_then_map:
  assumes "SPSCStorage_create op_new loc sz h = Inr (p, h')"
    and "\<And>a blk. op_new h sz = Some (a, blk) \<Longrightarrow> fresh_block h sz a blk"
  shows "256 < unat sz \<and>
    (\<exists>mem. h' p = Some mem \<and> SPSCStorage_map loc' p sz mem = Inr p \<and>
       st_read_ix (SPSCStorage_at mem) = 0 \<and> st_write_ix (SPSCStorage_at mem) = 0 \<and>
       st_msg_count (SPSCStorage_at mem) = 0 \<and>
       unat (buffer_size (SPSCStorage_at mem)) = unat sz - 256 \<and>
       length (st_buffer (SPSCStorage_at mem)) = unat sz - 256) \<and>
    SPSCStorage_delete h' p = Inr h"
proof -
  from assms(1) have big: "256 < unat sz"
    by (auto simp: SPSCStorage_create_def word_le_nat_alt not_le split: if_splits)
  with assms(1) obtain blk where new: "op_new h sz = Some (p, blk)"
    and h': "h' = h(p := placement_new blk sz)"
    by (auto simp: SPSCStorage_create_def word_le_nat_alt split: option.splits if_splits)
  with assms(2) have fresh: "fresh_block h sz p blk" by blast
  then have "256 \<le> length blk"
    using big by (simp add: fresh_block_def)
  then obtain mem where mem: "placement_new blk sz = Some mem"
    using placement_new_fits by blast
  then have at: "SPSCStorage_at mem = SPSCStorage_new sz (drop 256 blk)"
    using placement_new_Some by blast
  have "SPSCStorage_map loc' p sz mem = Inr p"
    using SPSCStorage_map_Inr_iff fresh big at by (simp add: fresh_block_def)
  moreover have "SPSCStorage_delete h' p = Inr h"
    using fresh h' mem
    by (auto simp: SPSCStorage_delete_def delete_array_def fresh_block_def)
  ultimately show ?thesis
    using big h' mem at fresh by (simp add: unat_buffer_size fresh_block_def)
qed

theorem storage_create_then_map_witness:
  "\<exists>h' mem. SPSCStorage_create (\<lambda>h n. Some (4096, replicate (unat n) 0)) loc0 320 Map.empty
      = Inr (4096, h') \<and> h' 4096 = Some mem \<and> SPSCStorage_map loc0 4096 320 mem = Inr 4096 \<and>
      SPSCStorage_delete h' 4096 = Inr Map.empty"
proof -
  let ?new = "\<lambda>(h::heap) n::u64. Some (4096::addr, replicate (unat n) (0::byte))"
  let ?h = "[4096 \<mapsto> the (placement_new (replicate 320 0) 320)]"
  obtain m where m: "placement_new (replicate 320 0) 320 = Some m"
    using placement_new_fits [of "replicate 320 0" 320] by auto
  have "SPSCStorage_create ?new loc0 320 Map.empty = Inr (4096, ?h)"
    using m by (simp add: SPSCStorage_create_def layout_defs)
  moreover note storage_create_then_map [OF this, of loc0]
  ultimately show ?thesis
    by (fastforce simp: fresh_block_def)
qed

end
