(* ===== verification/SPSC_Queue.thy ===== *)
theory SPSC_Queue
  imports SPSC_Storage
begin

text \<open>
  \<^verbatim>\<open>include/posix_ipc/queues/spsc/SPSCQueue.hpp\<close>: the single-producer single-consumer queue of
  variable-sized messages. The queue object holds the address of the storage it works on and three
  values computed from it at construction; the storage object, which producer and consumer share,
  is passed to and returned by every operation. An operation that would touch bytes outside the
  buffer faults with \<open>OutOfBounds\<close>, and a failed \<^verbatim>\<open>assert\<close> with \<open>AssertFailed\<close>.
  The operations are stated here one whole call at a time; theory \<open>SPSC_Concurrent\<close> splits them
  at their accesses to the shared storage.
\<close>

section \<open>The queue object\<close>

record SPSCQueue =
  q_storage :: addr
  q_max_message_size :: u64
  q_buffer_size :: u64
  q_buffer :: addr

text \<open>Rounding up to the next multiple of 8, in 64-bit arithmetic.\<close>

definition next_index :: "u64 \<Rightarrow> u64 \<Rightarrow> u64" where
  "next_index current_index sz = (current_index + sz + 8 - 1) AND NOT (8 - 1)"

definition calc_max_message_size :: "SPSCStorage \<Rightarrow> u64" where
  "calc_max_message_size s = buffer_size s div 2"

definition SPSCQueue_new :: "addr \<Rightarrow> SPSCStorage \<Rightarrow> SPSCQueue" where
  "SPSCQueue_new p s =
     \<lparr>q_storage = p, q_max_message_size = calc_max_message_size s,
      q_buffer_size = buffer_size s, q_buffer = buffer_addr p\<rparr>"

definition SPSCQueue_create ::
    "source_location \<Rightarrow> addr \<Rightarrow> SPSCStorage \<Rightarrow> PosixIpcError + SPSCQueue" where
  "SPSCQueue_create loc p s =
     (if buffer_size s mod 8 \<noteq> 0
      then Inl (PosixIpcError_new spsc_storage_error
             (''SPSCStorage buffer size must be divisible by 8, got value '' @
              fmt_nat (unat (buffer_size s)) @ ''.'') loc)
      else let min_required = next_index 0 (8 + 8) in
        if buffer_size s < min_required
        then Inl (PosixIpcError_new spsc_storage_error ''SPSCQueue buffer too small'' loc)
        else Inr (SPSCQueue_new p s))"

section \<open>Observers\<close>

definition is_empty :: "SPSCStorage \<Rightarrow> bool" where
  "is_empty s \<longleftrightarrow> st_read_ix s = st_write_ix s"

definition queue_size :: "SPSCStorage \<Rightarrow> u64" where
  "queue_size s = st_msg_count s"

definition can_dequeue :: "SPSCStorage \<Rightarrow> bool" where
  "can_dequeue s \<longleftrightarrow> st_read_ix s \<noteq> st_write_ix s"

definition queue_buffer_size :: "SPSCQueue \<Rightarrow> u64" where
  "queue_buffer_size q = q_buffer_size q"

definition max_message_size :: "SPSCQueue \<Rightarrow> u64" where
  "max_message_size q = q_max_message_size q"

definition max_payload_size :: "SPSCQueue \<Rightarrow> u64" where
  "max_payload_size q = q_max_message_size q - 8"

section \<open>Enqueue\<close>

text \<open>
  The body after the assertions, which is also what a build with assertions disabled runs. The
  result is \<open>None\<close> when a copy leaves the buffer or reads past the payload.
\<close>

definition enqueue_body ::
    "SPSCQueue \<Rightarrow> heap \<Rightarrow> Message \<Rightarrow> SPSCStorage \<Rightarrow> (bool \<times> SPSCStorage) option" where
  "enqueue_body q h msg s =
     (let total_size = msg_total_size msg;
          read_ix = st_read_ix s;
          write_ix = st_write_ix s;
          next_write_ix = next_index write_ix total_size in
      if next_write_ix < q_buffer_size q then
        (if write_ix < read_ix \<and> next_write_ix \<ge> read_ix then Some (False, s)
         else do {
           bs \<leftarrow> load_heap h (msg_payload msg) (unat (msg_payload_size msg));
           m1 \<leftarrow> mem_write (st_buffer s) (unat write_ix + 8) bs;
           m2 \<leftarrow> mem_write m1 (unat write_ix) (bytes_of_u64 (msg_size msg));
           Some (True, s\<lparr>st_buffer := m2, st_write_ix := next_write_ix,
                         st_msg_count := st_msg_count s + 1\<rparr>)
         })
      else
        (let sentinel_end = write_ix + 8 in
         if write_ix < read_ix \<and> sentinel_end \<ge> read_ix then Some (False, s)
         else
           (let next_write_ix = next_index 0 total_size in
            if next_write_ix \<ge> read_ix then Some (False, s)
            else do {
              bs \<leftarrow> load_heap h (msg_payload msg) (unat (msg_payload_size msg));
              m1 \<leftarrow> mem_write (st_buffer s) 8 bs;
              m2 \<leftarrow> mem_write m1 0 (bytes_of_u64 (msg_size msg));
              m3 \<leftarrow> mem_write m2 (unat write_ix) (replicate 8 0);
              Some (True, s\<lparr>st_buffer := m3, st_write_ix := next_write_ix,
                            st_msg_count := st_msg_count s + 1\<rparr>)
            })))"

definition enqueue ::
    "SPSCQueue \<Rightarrow> heap \<Rightarrow> Message \<Rightarrow> SPSCStorage \<Rightarrow> (bool \<times> SPSCStorage) exec" where
  "enqueue q h msg s =
     (if \<not> msg_payload_size msg > 0
      then Inl (AssertFailed ''Message payload size must be greater than 0 bytes'')
      else if \<not> msg_payload_size msg \<le> max_payload_size q
      then Inl (AssertFailed ''Message payload too large'')
      else case enqueue_body q h msg s of None \<Rightarrow> Inl OutOfBounds | Some r \<Rightarrow> Inr r)"

section \<open>Dequeue\<close>

text \<open>
  One pass of \<^verbatim>\<open>dequeue_begin\<close> from its label: the queue is empty, the message at the read
  index is returned, or a wrap-around sentinel resets the read index and control goes back to the
  label. The loop is a partial function: \<open>None\<close> means that it does not return.
\<close>

datatype deq_pass = DeqView MessageView | DeqRecheck SPSCStorage | DeqFault fault

definition dequeue_pass :: "SPSCQueue \<Rightarrow> SPSCStorage \<Rightarrow> deq_pass" where
  "dequeue_pass q s =
     (let read_ix = st_read_ix s; write_ix = st_write_ix s in
      if read_ix = write_ix then DeqView MessageView_default
      else case mem_read (st_buffer s) (unat read_ix) 8 of
        None \<Rightarrow> DeqFault OutOfBounds
      | Some hdr \<Rightarrow>
          (let message_size = u64_of_bytes hdr in
           if message_size = 0 then DeqRecheck (s\<lparr>st_read_ix := 0\<rparr>)
           else DeqView (MessageView_new (q_buffer q + read_ix + 8) message_size read_ix)))"

partial_function (option) dequeue_begin ::
    "SPSCQueue \<Rightarrow> SPSCStorage \<Rightarrow> (MessageView \<times> SPSCStorage) exec option" where
  [code]: "dequeue_begin q s =
     (case dequeue_pass q s of
        DeqView v \<Rightarrow> Some (Inr (v, s))
      | DeqFault f \<Rightarrow> Some (Inl f)
      | DeqRecheck s' \<Rightarrow> dequeue_begin q s')"

definition dequeue_commit :: "MessageView \<Rightarrow> SPSCStorage \<Rightarrow> SPSCStorage" where
  "dequeue_commit message s =
     (let next_read_ix = next_index (view_index message) (view_total_size message) in
      s\<lparr>st_read_ix := next_read_ix, st_msg_count := st_msg_count s - 1\<rparr>)"

text \<open>The bytes a view shows: its pointer lies in the buffer of the queue it came from.\<close>

definition load_view :: "SPSCQueue \<Rightarrow> SPSCStorage \<Rightarrow> addr \<Rightarrow> nat \<Rightarrow> byte list option" where
  "load_view q s p n = mem_read (st_buffer s) (unat (p - q_buffer q)) n"

definition view_bytes :: "SPSCQueue \<Rightarrow> SPSCStorage \<Rightarrow> MessageView \<Rightarrow> byte list option" where
  "view_bytes q s v = load_view q s (view_payload v) (unat (view_size v))"

end
