(* ===== verification/SPSC_Ring.thy ===== *)
theory SPSC_Ring
  imports SPSC_Queue
begin

text \<open>
  The contents of the circular buffer, as a list of payloads. \<open>seg buf i ms j\<close> says that the
  messages \<open>ms\<close> lie one after another from offset \<open>i\<close> to offset \<open>j\<close>;
  \<open>ring_rep s ms\<close> says that a storage object holds the unread messages \<open>ms\<close>, either in one
  run from the read to the write index or in two runs joined by a wrap-around sentinel. The lemmas
  give the effect of every queue operation on this view of the buffer.
\<close>

section \<open>Messages in a buffer\<close>

definition header_at :: "byte list \<Rightarrow> nat \<Rightarrow> nat" where
  "header_at buf i = unat (u64_of_bytes (mem_slice buf i 8))"

abbreviation msg_end :: "nat \<Rightarrow> byte list \<Rightarrow> nat" where
  "msg_end i m \<equiv> align8 (i + 8 + length m)"

fun seg :: "byte list \<Rightarrow> nat \<Rightarrow> byte list list \<Rightarrow> nat \<Rightarrow> bool" where
  "seg buf i [] j \<longleftrightarrow> i = j"
| "seg buf i (m # ms) j \<longleftrightarrow>
     m \<noteq> [] \<and> i + 8 + length m \<le> length buf \<and> header_at buf i = length m \<and>
     mem_slice buf (i + 8) (length m) = m \<and> seg buf (msg_end i m) ms j"

lemma msg_end_gt: "i + 8 + length m \<le> msg_end i m"
  by (rule align8_ge)

lemma seg_le: "seg buf i ms j \<Longrightarrow> i + 8 * length ms \<le> j"
proof (induction ms arbitrary: i)
  case (Cons m ms)
  then have "msg_end i m + 8 * length ms \<le> j" by simp
  with msg_end_gt [of i m] show ?case by simp
qed simp

lemma seg_le': "seg buf i ms j \<Longrightarrow> i \<le> j"
  using seg_le by fastforce

lemma seg_dvd: "seg buf i ms j \<Longrightarrow> 8 dvd i \<Longrightarrow> 8 dvd j"
  by (induction ms arbitrary: i) (auto intro: align8_dvd)

lemma seg_append: "seg buf i (ms @ ns) k \<longleftrightarrow> (\<exists>j. seg buf i ms j \<and> seg buf j ns k)"
  by (induction ms arbitrary: i) auto

lemma seg_same_iff: "seg buf i ms i \<longleftrightarrow> ms = []"
  using seg_le [of buf i ms i] by auto

lemma seg_cong:
  assumes "seg buf i ms j" and "length buf' = length buf"
    and "\<And>a n. i \<le> a \<Longrightarrow> a + n \<le> j \<Longrightarrow> mem_slice buf' a n = mem_slice buf a n"
  shows "seg buf' i ms j"
  using assms(1,3)
proof (induction ms arbitrary: i)
  case (Cons m ms)
  let ?k = "msg_end i m"
  from Cons.prems(1) have "seg buf ?k ms j" by simp
  then have "?k \<le> j" by (rule seg_le')
  with msg_end_gt [of i m] have below: "i + 8 + length m \<le> j" by linarith
  have "seg buf' ?k ms j"
    using \<open>seg buf ?k ms j\<close> msg_end_gt [of i m] by (intro Cons.IH Cons.prems(2)) linarith+
  moreover have "mem_slice buf' i 8 = mem_slice buf i 8"
    and "mem_slice buf' (i + 8) (length m) = mem_slice buf (i + 8) (length m)"
    using below by (auto intro!: Cons.prems(2))
  ultimately show ?case
    using Cons.prems(1) assms(2) by (simp add: header_at_def)
qed simp

text \<open>A write that stays clear of a run leaves it as it was.\<close>

lemma seg_splice:
  "seg buf i ms j \<Longrightarrow> off + length bs \<le> i \<or> j \<le> off \<Longrightarrow> off + length bs \<le> length buf \<Longrightarrow>
     seg (mem_splice buf off bs) i ms j"
  by (erule seg_cong) (auto simp: length_mem_splice intro!: slice_splice_disjoint)

lemma header_splice:
  "i + 8 \<le> off \<or> off + length bs \<le> i \<Longrightarrow> off + length bs \<le> length buf \<Longrightarrow>
     header_at (mem_splice buf off bs) i = header_at buf i"
  by (simp add: header_at_def slice_splice_disjoint)

text \<open>Writing a message: the payload, then the header in front of it.\<close>

definition place :: "nat \<Rightarrow> byte list \<Rightarrow> byte list \<Rightarrow> byte list" where
  "place i m buf = mem_splice (mem_splice buf (i + 8) m) i (bytes_of_u64 (word_of_nat (length m)))"

lemma length_place [simp]: "i + 8 + length m \<le> length buf \<Longrightarrow> length (place i m buf) = length buf"
  by (simp add: place_def length_mem_splice)

lemma seg_place_other:
  "seg buf a ms b \<Longrightarrow> i + 8 + length m \<le> a \<or> b \<le> i \<Longrightarrow> i + 8 + length m \<le> length buf \<Longrightarrow>
     seg (place i m buf) a ms b"
  unfolding place_def by (intro seg_splice) (auto simp: length_mem_splice)

lemma header_place_other:
  "a + 8 \<le> i \<or> i + 8 + length m \<le> a \<Longrightarrow> i + 8 + length m \<le> length buf \<Longrightarrow>
     header_at (place i m buf) a = header_at buf a"
  unfolding place_def by (subst header_splice, auto simp: length_mem_splice intro!: header_splice)

lemma seg_place_same:
  assumes "m \<noteq> []" and "i + 8 + length m \<le> length buf" and "length m < 2 ^ 64"
  shows "seg (place i m buf) i [m] (msg_end i m)"
proof -
  have "header_at (place i m buf) i = length m"
    using assms by (simp add: place_def header_at_def slice_splice_same length_mem_splice unat_of_nat)
  moreover have "mem_slice (place i m buf) (i + 8) (length m) = m"
    using assms by (simp add: place_def slice_splice_disjoint slice_splice_same length_mem_splice)
  ultimately show ?thesis
    using assms by simp
qed

section \<open>The ring\<close>

text \<open>
  A usable storage object: the stored size is that of the region, the buffer is a multiple of 8
  bytes and holds at least one 8-byte message (what \<^verbatim>\<open>SPSCQueue::create\<close> checks), and the region
  is no larger than the largest object the language allows.
\<close>

definition wf_storage :: "SPSCStorage \<Rightarrow> bool" where
  "wf_storage s \<longleftrightarrow>
     unat (st_storage_size s) = 256 + length (st_buffer s) \<and> 8 dvd length (st_buffer s) \<and>
     16 \<le> length (st_buffer s) \<and> unat (st_storage_size s) < 2 ^ 63"

definition attached :: "SPSCQueue \<Rightarrow> SPSCStorage \<Rightarrow> bool" where
  "attached q s \<longleftrightarrow>
     q_buffer_size q = buffer_size s \<and> q_max_message_size q = calc_max_message_size s"

definition runs :: "byte list \<Rightarrow> nat \<Rightarrow> nat \<Rightarrow> byte list list \<Rightarrow> bool" where
  "runs buf r w ms \<longleftrightarrow>
     r \<le> w \<and> seg buf r ms w \<or>
     w < r \<and> (\<exists>ms1 ms2 e. ms = ms1 @ ms2 \<and> ms2 \<noteq> [] \<and> seg buf r ms1 e \<and> 8 dvd e \<and>
        e + 8 \<le> length buf \<and> header_at buf e = 0 \<and> seg buf 0 ms2 w)"

definition ring_rep :: "SPSCStorage \<Rightarrow> byte list list \<Rightarrow> bool" where
  "ring_rep s ms \<longleftrightarrow>
     wf_storage s \<and> 8 dvd unat (st_read_ix s) \<and> 8 dvd unat (st_write_ix s) \<and>
     unat (st_read_ix s) < length (st_buffer s) \<and> unat (st_write_ix s) < length (st_buffer s) \<and>
     runs (st_buffer s) (unat (st_read_ix s)) (unat (st_write_ix s)) ms"

text \<open>The message counter agrees with the contents when no operation is in progress.\<close>

definition queue_rep :: "SPSCStorage \<Rightarrow> byte list list \<Rightarrow> bool" where
  "queue_rep s ms \<longleftrightarrow> ring_rep s ms \<and> st_msg_count s = word_of_nat (length ms)"

lemma runs_linearI: "seg buf r ms w \<Longrightarrow> runs buf r w ms"
  using seg_le' by (auto simp: runs_def)

lemma runs_wrappedI:
  "w < r \<Longrightarrow> seg buf r ms1 e \<Longrightarrow> 8 dvd e \<Longrightarrow> e + 8 \<le> length buf \<Longrightarrow> header_at buf e = 0 \<Longrightarrow>
     seg buf 0 ms2 w \<Longrightarrow> ms2 \<noteq> [] \<Longrightarrow> runs buf r w (ms1 @ ms2)"
  by (auto simp: runs_def)

lemma runs_cases [consumes 1, case_names linear wrapped]:
  assumes "runs buf r w ms"
  obtains "r \<le> w" "seg buf r ms w"
  | ms1 ms2 e where "w < r" "ms = ms1 @ ms2" "ms2 \<noteq> []" "seg buf r ms1 e" "8 dvd e"
      "e + 8 \<le> length buf" "header_at buf e = 0" "seg buf 0 ms2 w"
  using assms by (auto simp: runs_def)

lemma unat_buffer_size_wf: "wf_storage s \<Longrightarrow> unat (buffer_size s) = length (st_buffer s)"
  by (simp add: wf_storage_def unat_buffer_size)

lemma runs_empty_iff: "runs buf r w ms \<Longrightarrow> r = w \<longleftrightarrow> ms = []"
  by (cases rule: runs_cases) (auto simp: seg_same_iff)

section \<open>Enqueue on the ring\<close>

lemma unat_next_index:
  assumes "unat i + unat sz + 7 < 2 ^ 64"
  shows "unat (next_index i sz) = align8 (unat i + unat sz)"
proof -
  have seven: "(8 - 1 :: u64) = 7" and sum: "i + sz + 8 - 1 = i + sz + 7"
    by simp_all
  have "unat (i + sz + 7) = unat i + unat sz + 7"
    using assms by (simp add: unat_word_ariths)
  then show ?thesis
    unfolding next_index_def seven sum unat_and_not_7 align8_def by simp
qed

text \<open>
  The decision and the effect of \<^verbatim>\<open>enqueue\<close> on offsets as natural numbers: \<open>T\<close> is the space the
  message takes.
\<close>

definition msg_space :: "byte list \<Rightarrow> nat" where
  "msg_space m = align8 (8 + length m)"

definition ring_put ::
    "byte list \<Rightarrow> nat \<Rightarrow> nat \<Rightarrow> byte list \<Rightarrow> (byte list \<times> nat) option" where
  "ring_put buf r w m =
     (let T = msg_space m in
      if w + T < length buf then
        (if w < r \<and> r \<le> w + T then None else Some (place w m buf, w + T))
      else if w < r \<and> r \<le> w + 8 then None
      else if r \<le> T then None
      else Some (mem_splice (place 0 m buf) w (replicate 8 0), T))"

definition payload_is :: "heap \<Rightarrow> Message \<Rightarrow> byte list \<Rightarrow> bool" where
  "payload_is h msg m \<longleftrightarrow> load_heap h (msg_payload msg) (unat (msg_size msg)) = Some m"

lemma payload_is_length: "payload_is h msg m \<Longrightarrow> unat (msg_size msg) = length m"
  by (auto simp: payload_is_def load_heap_def mem_read_Some_iff length_mem_slice split: option.splits)

lemma msg_space_bounds: "8 + length m \<le> msg_space m" "msg_space m < length m + 16"
  using align8_ge [of "8 + length m"] align8_less [of "8 + length m"]
  by (simp_all add: msg_space_def)

lemma msg_space_dvd [simp]: "8 dvd msg_space m"
  by (simp add: msg_space_def)

lemma msg_end_space: "8 dvd i \<Longrightarrow> msg_end i m = i + msg_space m"
  by (simp add: msg_space_def align8_add add.assoc)

text \<open>The storage after a call that returned \<open>ro\<close> on the ring.\<close>

definition put_result ::
    "SPSCStorage \<Rightarrow> (byte list \<times> nat) option \<Rightarrow> bool \<times> SPSCStorage" where
  "put_result s ro =
     (case ro of
        None \<Rightarrow> (False, s)
      | Some (buf, w) \<Rightarrow>
          (True, s\<lparr>st_buffer := buf, st_write_ix := word_of_nat w,
                   st_msg_count := st_msg_count s + 1\<rparr>))"

lemma enqueue_body_ring_put:
  assumes wf: "wf_storage s" and att: "attached q s" and pay: "payload_is h msg m"
    and fits: "8 + length m \<le> length (st_buffer s)"
    and w8: "8 dvd unat (st_write_ix s)" and wB: "unat (st_write_ix s) < length (st_buffer s)"
  shows "enqueue_body q h msg s =
     Some (put_result s (ring_put (st_buffer s) (unat (st_read_ix s)) (unat (st_write_ix s)) m))"
proof -
  let ?B = "length (st_buffer s)" and ?r = "unat (st_read_ix s)" and ?w = "unat (st_write_ix s)"
  let ?T = "msg_space m"
  have B8: "8 dvd ?B" and small: "?B + 256 < 2 ^ 63"
    using wf by (auto simp: wf_storage_def)
  have qB: "unat (q_buffer_size q) = ?B"
    using att wf by (simp add: attached_def unat_buffer_size_wf)
  have len: "unat (msg_size msg) = length m"
    using pay by (rule payload_is_length)
  have total: "unat (msg_total_size msg) = 8 + length m"
    using fits small len by (subst unat_msg_total_size) simp_all
  have next_w: "unat (next_index (st_write_ix s) (msg_total_size msg)) = ?w + ?T"
    using w8 wB small fits total by (subst unat_next_index) (simp_all add: msg_space_def align8_add)
  have next_0: "unat (next_index 0 (msg_total_size msg)) = ?T"
    using small fits total by (subst unat_next_index) (simp_all add: msg_space_def)
  have sent: "unat (st_write_ix s + 8) = ?w + 8"
    using wB small by (simp add: unat_word_ariths)
  have load: "load_heap h (msg_payload msg) (unat (msg_payload_size msg)) = Some m"
    using pay by (simp add: payload_is_def msg_payload_size_def)
  have hdr: "msg_size msg = word_of_nat (length m)"
    by (simp only: len [symmetric] word_nat_unat_id)
  have idx_0: "word_of_nat ?T = next_index 0 (msg_total_size msg)"
    by (simp only: next_0 [symmetric] word_nat_unat_id)
  have idx_w: "st_write_ix s + next_index 0 (msg_total_size msg) =
      next_index (st_write_ix s) (msg_total_size msg)"
    using wB small fits msg_space_bounds [of m]
    by (simp add: u64_eq_iff next_w next_0 unat_add_u64)
  have sent_fits: "?w + 8 \<le> ?B"
    using w8 B8 wB by (rule dvd8_less_add)
  show ?thesis
    using msg_space_bounds [of m] fits sent_fits
    by (auto simp: enqueue_body_def Let_def ring_put_def put_result_def word_less_nat_alt
        word_le_nat_alt next_w next_0 qB sent load mem_write_def length_mem_splice place_def hdr
        idx_w idx_0 not_less not_le)
qed

text \<open>Writing the sentinel keeps every run that does not contain its eight bytes.\<close>

lemma seg_sentinel:
  "seg buf i ms j \<Longrightarrow> j \<le> w \<or> w + 8 \<le> i \<Longrightarrow> w + 8 \<le> length buf \<Longrightarrow>
     seg (mem_splice buf w (replicate 8 0)) i ms j"
  by (rule seg_splice) auto

lemma header_sentinel: "w + 8 \<le> length buf \<Longrightarrow> header_at (mem_splice buf w (replicate 8 0)) w = 0"
  by (simp add: header_at_def slice_splice_same)

text \<open>
  The one case in which a successful \<^verbatim>\<open>enqueue\<close> does not append: the unread messages already wrap
  around (\<open>w < r\<close>) and the new one does not fit behind the write index.
\<close>

definition overtakes :: "byte list \<Rightarrow> nat \<Rightarrow> nat \<Rightarrow> byte list \<Rightarrow> bool" where
  "overtakes buf r w m \<longleftrightarrow>
     w < r \<and> length buf \<le> w + msg_space m \<and> w + 8 < r \<and> msg_space m < r"

text \<open>What every write finds: aligned indices inside a buffer that can hold the message.\<close>

definition ring_ok :: "byte list \<Rightarrow> nat \<Rightarrow> nat \<Rightarrow> byte list \<Rightarrow> bool" where
  "ring_ok buf r w m \<longleftrightarrow>
     8 dvd length buf \<and> 8 dvd r \<and> 8 dvd w \<and> r < length buf \<and> w < length buf \<and>
     m \<noteq> [] \<and> 8 + length m \<le> length buf \<and> length buf < 2 ^ 63"

lemma ring_okD:
  assumes "ring_ok buf r w m"
  shows B8: "8 dvd length buf" and r8: "8 dvd r" and w8: "8 dvd w"
    and rB: "r < length buf" and wB: "w < length buf"
    and m_ne: "m \<noteq> []" and m_fits: "8 + length m \<le> length buf" and small: "length buf < 2 ^ 63"
  using assms by (auto simp: ring_ok_def)

lemma sentinel_fits: "ring_ok buf r w m \<Longrightarrow> w + 8 \<le> length buf"
  by (rule dvd8_less_add) (auto simp: ring_ok_def)

lemma seg_placed:
  assumes ok: "ring_ok buf r w m" and "8 dvd i" and "i + 8 + length m \<le> length buf"
  shows "seg (place i m buf) i [m] (i + msg_space m)"
proof -
  have "length m < 2 ^ 64"
    using ring_okD(7,8) [OF ok] by simp
  then show ?thesis
    using seg_place_same [OF m_ne [OF ok] assms(3)] assms(2) by (simp add: msg_end_space)
qed

lemma put_behind:
  assumes ok: "ring_ok buf r w m" and fits: "w + msg_space m < length buf" and rs: "runs buf r w ms"
    and free: "r \<le> w \<or> w + msg_space m < r"
  shows "runs (place w m buf) r (w + msg_space m) (ms @ [m])"
proof -
  have room: "w + 8 + length m \<le> length buf"
    using fits msg_space_bounds [of m] by linarith
  note new = seg_placed [OF ok w8 [OF ok] room]
  from rs show ?thesis
  proof (cases rule: runs_cases)
    case linear
    then have "seg (place w m buf) r ms w"
      using room by (intro seg_place_other) auto
    then show ?thesis
      using new by (intro runs_linearI) (auto simp: seg_append)
  next
    case (wrapped ms1 ms2 e)
    have below: "w + 8 + length m \<le> r" and "r \<le> e"
      using free wrapped msg_space_bounds [of m] seg_le' by fastforce+
    have "seg (place w m buf) 0 (ms2 @ [m]) (w + msg_space m)"
      using wrapped room new by (auto simp: seg_append intro!: exI [of _ w] seg_place_other)
    moreover have "seg (place w m buf) r ms1 e"
      using wrapped room below by (intro seg_place_other) auto
    moreover have "header_at (place w m buf) e = 0"
      using wrapped room below \<open>r \<le> e\<close> by (subst header_place_other) auto
    ultimately show ?thesis
      using wrapped free room runs_wrappedI [of "w + msg_space m" r "place w m buf" ms1 e "ms2 @ [m]"]
      by auto
  qed
qed

lemma put_wrapping:
  assumes ok: "ring_ok buf r w m" and rs: "runs buf r w ms" and rw: "r \<le> w" and room: "msg_space m < r"
  shows "runs (mem_splice (place 0 m buf) w (replicate 8 0)) r (msg_space m) (ms @ [m])"
proof -
  have below: "0 + 8 + length m \<le> r" and fits: "0 + 8 + length m \<le> length buf"
    using room msg_space_bounds [of m] m_fits [OF ok] by auto
  from rs rw have "seg buf r ms w"
    by (cases rule: runs_cases) auto
  then have "seg (mem_splice (place 0 m buf) w (replicate 8 0)) r ms w"
    using below fits sentinel_fits [OF ok] by (intro seg_sentinel seg_place_other) auto
  moreover have "seg (mem_splice (place 0 m buf) w (replicate 8 0)) 0 [m] (msg_space m)"
    using seg_placed [OF ok, of 0] fits room rw sentinel_fits [OF ok]
    by (intro seg_sentinel) (auto simp: msg_space_def)
  ultimately show ?thesis
    using room w8 [OF ok] sentinel_fits [OF ok] fits
    by (intro runs_wrappedI) (auto simp: header_sentinel length_mem_splice)
qed

lemma put_overtaking:
  assumes ok: "ring_ok buf r w m" and runs: "runs buf r w ms" and over: "overtakes buf r w m" and clear: "msg_space m \<le> w"
  shows "\<exists>ms1 ms2. ms = ms1 @ ms2 \<and> ms2 \<noteq> [] \<and>
    runs (mem_splice (place 0 m buf) w (replicate 8 0)) r (msg_space m) (ms1 @ [m])"
proof -
  have below: "0 + 8 + length m \<le> r" and fits: "0 + 8 + length m \<le> length buf" and "w < r" "w + 8 \<le> r"
    and room: "msg_space m < r"
    using over msg_space_bounds [of m] m_fits [OF ok] by (auto simp: overtakes_def)
  from runs show ?thesis
  proof (cases rule: runs_cases)
    case (wrapped ms1 ms2 e)
    let ?buf = "mem_splice (place 0 m buf) w (replicate 8 0)"
    have "r \<le> e" using wrapped seg_le' by blast
    have "seg ?buf r ms1 e"
      using wrapped below fits sentinel_fits [OF ok] \<open>w + 8 \<le> r\<close>
      by (intro seg_sentinel seg_place_other) auto
    moreover have "seg ?buf 0 [m] (msg_space m)"
      using seg_placed [OF ok, of 0] fits clear sentinel_fits [OF ok]
      by (intro seg_sentinel) (auto simp: msg_space_def)
    moreover have "header_at ?buf e = 0"
      using wrapped below fits sentinel_fits [OF ok] \<open>w + 8 \<le> r\<close> \<open>r \<le> e\<close>
      by (subst header_splice) (auto simp: header_place_other)
    ultimately have "runs ?buf r (msg_space m) (ms1 @ [m])"
      using wrapped room fits sentinel_fits [OF ok] by (intro runs_wrappedI) (auto simp: length_mem_splice)
    with wrapped show ?thesis by blast
  qed (use \<open>w < r\<close> in simp)
qed

lemma ring_put_Some:
  assumes ok: "ring_ok buf r w m" and put: "ring_put buf r w m = Some (buf', w')"
    and rs: "runs buf r w ms"
    and safe: "\<not> overtakes buf r w m"
  shows "runs buf' r w' (ms @ [m])"
proof (cases "w + msg_space m < length buf")
  case True
  with put have eq: "buf' = place w m buf" "w' = w + msg_space m"
    and free: "r \<le> w \<or> w + msg_space m < r"
    by (auto simp: ring_put_def Let_def split: if_splits)
  show ?thesis
    unfolding eq by (rule put_behind [OF ok True rs free])
next
  case False
  with put have eq: "buf' = mem_splice (place 0 m buf) w (replicate 8 0)" "w' = msg_space m"
    and room: "msg_space m < r" and "\<not> (w < r \<and> r \<le> w + 8)"
    by (auto simp: ring_put_def Let_def split: if_splits)
  with safe False have "r \<le> w"
    by (auto simp: overtakes_def)
  show ?thesis
    unfolding eq by (rule put_wrapping [OF ok rs \<open>r \<le> w\<close> room])
qed

lemma ring_put_bounds:
  assumes ok: "ring_ok buf r w m" and put: "ring_put buf r w m = Some (buf', w')"
  shows "length buf' = length buf \<and> 8 dvd w' \<and> w' < length buf \<and> 0 < w'"
  using put m_fits [OF ok] msg_space_bounds [of m] w8 [OF ok] sentinel_fits [OF ok] rB [OF ok]
  by (auto simp: ring_put_def Let_def length_mem_splice split: if_splits)

section \<open>Dequeue on the ring\<close>

lemma dequeue_pass_message:
  assumes seg: "seg (st_buffer s) (unat (st_read_ix s)) (m # ms) j"
    and ne: "st_read_ix s \<noteq> st_write_ix s"
  shows "dequeue_pass q s =
    DeqView (MessageView_new (q_buffer q + st_read_ix s + 8) (word_of_nat (length m)) (st_read_ix s))"
proof -
  let ?r = "unat (st_read_ix s)"
  let ?hdr = "mem_slice (st_buffer s) ?r 8"
  from seg have room: "?r + 8 \<le> length (st_buffer s)"
    and hdr: "unat (u64_of_bytes ?hdr) = length m" and "m \<noteq> []"
    by (simp_all add: header_at_def)
  then have "u64_of_bytes ?hdr \<noteq> 0"
    by (auto simp: u64_eq_iff)
  moreover have "u64_of_bytes ?hdr = word_of_nat (length m)"
    by (simp only: hdr [symmetric] word_nat_unat_id)
  ultimately show ?thesis
    using ne room by (simp add: dequeue_pass_def mem_read_def Let_def)
qed

lemma dequeue_pass_sentinel:
  assumes "header_at (st_buffer s) (unat (st_read_ix s)) = 0"
    and "unat (st_read_ix s) + 8 \<le> length (st_buffer s)" and "st_read_ix s \<noteq> st_write_ix s"
  shows "dequeue_pass q s = DeqRecheck (s\<lparr>st_read_ix := 0\<rparr>)"
  using assms by (simp add: dequeue_pass_def mem_read_def header_at_def Let_def u64_eq_iff)

lemma dequeue_pass_empty: "st_read_ix s = st_write_ix s \<Longrightarrow> dequeue_pass q s = DeqView MessageView_default"
  by (simp add: dequeue_pass_def)

text \<open>The storage whose first unread message lies at the read index.\<close>

definition skip_sentinel :: "SPSCStorage \<Rightarrow> SPSCStorage" where
  "skip_sentinel s =
     (if st_read_ix s \<noteq> st_write_ix s \<and> header_at (st_buffer s) (unat (st_read_ix s)) = 0
      then s\<lparr>st_read_ix := 0\<rparr> else s)"

lemma ring_rep_first:
  assumes "ring_rep s (m # ms)"
  obtains (direct) j where "skip_sentinel s = s" "seg (st_buffer s) (unat (st_read_ix s)) [m] j"
      "8 dvd j" "j < length (st_buffer s)" "runs (st_buffer s) j (unat (st_write_ix s)) ms"
  | (rewound) "skip_sentinel s = s\<lparr>st_read_ix := 0\<rparr>"
      "header_at (st_buffer s) (unat (st_read_ix s)) = 0"
      "unat (st_read_ix s) + 8 \<le> length (st_buffer s)"
      "seg (st_buffer s) 0 (m # ms) (unat (st_write_ix s))"
proof -
  let ?buf = "st_buffer s" and ?r = "unat (st_read_ix s)" and ?w = "unat (st_write_ix s)"
  from assms have ring: "runs ?buf ?r ?w (m # ms)" "8 dvd ?r" "?w < length ?buf"
    by (simp_all add: ring_rep_def)
  then have ne: "st_read_ix s \<noteq> st_write_ix s"
    using runs_empty_iff by fastforce
  have skip: "skip_sentinel s = s" if "seg ?buf ?r (m # ns) k" for ns k
    using that by (auto simp: skip_sentinel_def)
  from ring(1) show thesis
  proof (cases rule: runs_cases)
    case linear
    let ?j = "msg_end ?r m"
    from linear have "seg ?buf ?j ms ?w" by simp
    moreover have "seg ?buf ?r [m] ?j" using linear by simp
    ultimately show thesis
      using skip [OF linear(2)] ring(3) seg_le' by (intro direct [of ?j] runs_linearI) fastforce+
  next
    case (wrapped ms1 ms2 e)
    show thesis
    proof (cases ms1)
      case Nil
      with wrapped ne show thesis
        by (intro rewound) (auto simp: skip_sentinel_def)
    next
      case (Cons m' ms1')
      let ?j = "msg_end ?r m"
      from Cons wrapped have "m' = m" and "ms = ms1' @ ms2" by auto
      have "seg ?buf ?j ms1' e" using wrapped Cons \<open>m' = m\<close> by simp
      then have "?j \<le> e" by (rule seg_le')
      have "?w < ?j" using wrapped(1) msg_end_gt [of ?r m] by linarith
      have "runs ?buf ?j ?w ms"
        unfolding \<open>ms = ms1' @ ms2\<close>
        using wrapped \<open>seg ?buf ?j ms1' e\<close> \<open>?w < ?j\<close> by (intro runs_wrappedI) auto
      moreover have "seg ?buf ?r [m] ?j" and "skip_sentinel s = s"
        using wrapped Cons \<open>m' = m\<close> skip [of ms1' e] by auto
      ultimately show thesis
        using wrapped \<open>?j \<le> e\<close> by (intro direct [of ?j]) auto
    qed
  qed
qed

lemma ring_rep_skip: "ring_rep s ms \<Longrightarrow> ring_rep (skip_sentinel s) ms"
proof (cases ms)
  case Nil
  moreover assume "ring_rep s ms"
  ultimately have "st_read_ix s = st_write_ix s"
    using runs_empty_iff by (fastforce simp: ring_rep_def u64_eq_iff)
  with Nil \<open>ring_rep s ms\<close> show ?thesis by (simp add: skip_sentinel_def)
next
  case (Cons m ms')
  moreover assume "ring_rep s ms"
  ultimately have "ring_rep s (m # ms')" by simp
  then show ?thesis
    by (cases rule: ring_rep_first)
      (use \<open>ring_rep s (m # ms')\<close> Cons in \<open>auto simp: ring_rep_def wf_storage_def intro!: runs_linearI\<close>)
qed

lemma skip_sentinel_simps [simp]:
  "st_buffer (skip_sentinel s) = st_buffer s" "st_write_ix (skip_sentinel s) = st_write_ix s"
  "st_msg_count (skip_sentinel s) = st_msg_count s"
  "st_storage_size (skip_sentinel s) = st_storage_size s"
  by (simp_all add: skip_sentinel_def)

lemma queue_rep_skip: "queue_rep s ms \<Longrightarrow> queue_rep (skip_sentinel s) ms"
  by (simp add: queue_rep_def ring_rep_skip)

text \<open>The message at the read index of a storage with the sentinel behind it.\<close>

definition head_view :: "SPSCQueue \<Rightarrow> SPSCStorage \<Rightarrow> byte list \<Rightarrow> MessageView" where
  "head_view q s m =
     MessageView_new (q_buffer q + st_read_ix (skip_sentinel s) + 8) (word_of_nat (length m))
       (st_read_ix (skip_sentinel s))"

lemma ring_rep_head:
  assumes "ring_rep s (m # ms)"
  obtains j where
    "seg (st_buffer s) (unat (st_read_ix (skip_sentinel s))) [m] j" "8 dvd j"
    "j < length (st_buffer s)" "runs (st_buffer s) j (unat (st_write_ix s)) ms"
  using assms
proof (cases rule: ring_rep_first)
  case (direct j)
  then show thesis by (intro that [of j]) auto
next
  case rewound
  let ?j = "msg_end 0 m"
  have "seg (st_buffer s) ?j ms (unat (st_write_ix s))" using rewound by simp
  moreover from this have "?j \<le> unat (st_write_ix s)" by (rule seg_le')
  moreover have "unat (st_write_ix s) < length (st_buffer s)"
    using assms by (simp add: ring_rep_def)
  ultimately show thesis
    using rewound by (intro that [of ?j] runs_linearI) auto
qed

lemma ring_rep_nonempty: "ring_rep s (m # ms) \<Longrightarrow> st_read_ix s \<noteq> st_write_ix s"
  using runs_empty_iff by (fastforce simp: ring_rep_def)

lemma dequeue_begin_head:
  assumes rep: "ring_rep s (m # ms)"
  shows "dequeue_begin q s = Some (Inr (head_view q s m, skip_sentinel s))"
proof -
  have rep': "ring_rep (skip_sentinel s) (m # ms)"
    using rep by (rule ring_rep_skip)
  obtain j where "seg (st_buffer s) (unat (st_read_ix (skip_sentinel s))) [m] j"
    using ring_rep_head [OF rep] by blast
  then have view: "dequeue_pass q (skip_sentinel s) = DeqView (head_view q s m)"
    using dequeue_pass_message [of "skip_sentinel s" m "[]" j q] ring_rep_nonempty [OF rep']
    by (simp add: head_view_def)
  then have "dequeue_begin q (skip_sentinel s) = Some (Inr (head_view q s m, skip_sentinel s))"
    by (simp add: dequeue_begin.simps)
  moreover have "dequeue_begin q s = dequeue_begin q (skip_sentinel s)"
    using rep
  proof (cases rule: ring_rep_first)
    case rewound
    then have "dequeue_pass q s = DeqRecheck (skip_sentinel s)"
      using dequeue_pass_sentinel ring_rep_nonempty [OF rep] by simp
    then show ?thesis by (simp add: dequeue_begin.simps [of q s])
  qed simp
  ultimately show ?thesis by simp
qed

lemma dequeue_begin_empty:
  "ring_rep s [] \<Longrightarrow> dequeue_begin q s = Some (Inr (MessageView_default, s))"
  using runs_empty_iff
  by (fastforce simp: dequeue_begin.simps [of q s] dequeue_pass_empty ring_rep_def u64_eq_iff)


lemma ring_rep_small: "ring_rep s ms \<Longrightarrow> length (st_buffer s) + 256 < 2 ^ 63"
  by (simp add: ring_rep_def wf_storage_def)

lemma head_view_bytes:
  assumes "ring_rep s (m # ms)"
  shows "view_bytes q (skip_sentinel s) (head_view q s m) = Some m"
proof -
  let ?r = "unat (st_read_ix (skip_sentinel s))"
  obtain j where seg: "seg (st_buffer s) ?r [m] j"
    using ring_rep_head [OF assms] by blast
  have small: "?r + 8 + length m < 2 ^ 63"
    using seg ring_rep_small [OF assms] by simp
  then have "unat (st_read_ix (skip_sentinel s) + 8) = ?r + 8"
    by (simp add: unat_word_ariths)
  moreover have "unat (word_of_nat (length m) :: u64) = length m"
    using small by (simp add: unat_of_nat)
  ultimately show ?thesis
    using seg by (simp add: view_bytes_def load_view_def head_view_def MessageView_new_def
        mem_read_def add.assoc)
qed

lemma head_view_simps:
  assumes "ring_rep s (m # ms)"
  shows "unat (view_total_size (head_view q s m)) = 8 + length m"
    and "view_index (head_view q s m) = st_read_ix (skip_sentinel s)"
    and "unat (st_read_ix (skip_sentinel s)) + 8 + length m < 2 ^ 63"
    and "8 dvd unat (st_read_ix (skip_sentinel s))"
proof -
  obtain j where "seg (st_buffer s) (unat (st_read_ix (skip_sentinel s))) [m] j"
    using ring_rep_head [OF assms] by blast
  then show small: "unat (st_read_ix (skip_sentinel s)) + 8 + length m < 2 ^ 63"
    using ring_rep_small [OF assms] by simp
  then have "unat (view_size (head_view q s m)) = length m"
    by (simp add: head_view_def MessageView_new_def unat_word_of_nat_u64)
  then show "unat (view_total_size (head_view q s m)) = 8 + length m"
    using small by (subst unat_view_total_size) simp_all
  show "view_index (head_view q s m) = st_read_ix (skip_sentinel s)"
    by (simp add: head_view_def MessageView_new_def)
  show "8 dvd unat (st_read_ix (skip_sentinel s))"
    using ring_rep_skip [OF assms] by (simp add: ring_rep_def)
qed

lemma dequeue_commit_read_ix:
  assumes "ring_rep s (m # ms)"
  shows "unat (st_read_ix (dequeue_commit (head_view q s m) (skip_sentinel s))) =
    unat (st_read_ix (skip_sentinel s)) + msg_space m"
  using head_view_simps(1,2) [OF assms, where q = q] head_view_simps(3,4) [OF assms]
  unfolding dequeue_commit_def Let_def
  by (simp add: unat_next_index msg_space_def align8_add)

lemma dequeue_commit_ring:
  assumes "ring_rep s (m # ms)"
  shows "ring_rep (dequeue_commit (head_view q s m) (skip_sentinel s)) ms"
proof -
  let ?r = "unat (st_read_ix (skip_sentinel s))"
  let ?t = "dequeue_commit (head_view q s m) (skip_sentinel s)"
  obtain j where seg: "seg (st_buffer s) ?r [m] j" and j: "8 dvd j" "j < length (st_buffer s)"
      "runs (st_buffer s) j (unat (st_write_ix s)) ms"
    using ring_rep_head [OF assms] by blast
  have "unat (st_read_ix ?t) = j"
    using seg dequeue_commit_read_ix [OF assms] head_view_simps(4) [OF assms]
    by (simp add: msg_end_space)
  moreover have "st_buffer ?t = st_buffer s" "st_write_ix ?t = st_write_ix s"
    "st_storage_size ?t = st_storage_size s"
    by (simp_all add: dequeue_commit_def Let_def)
  ultimately show ?thesis
    using assms j by (simp add: ring_rep_def wf_storage_def)
qed

lemma dequeue_commit_queue:
  "queue_rep s (m # ms) \<Longrightarrow> queue_rep (dequeue_commit (head_view q s m) (skip_sentinel s)) ms"
  by (simp add: queue_rep_def dequeue_commit_ring) (simp add: dequeue_commit_def Let_def)

section \<open>Whole calls\<close>

lemma attached_skip [simp]: "attached q (skip_sentinel s) \<longleftrightarrow> attached q s"
  by (simp add: attached_def buffer_size_def calc_max_message_size_def)

lemma attached_commit [simp]: "attached q (dequeue_commit v s) \<longleftrightarrow> attached q s"
  by (simp add: attached_def buffer_size_def calc_max_message_size_def dequeue_commit_def Let_def)

text \<open>A message the assertions of \<^verbatim>\<open>enqueue\<close> let through: not empty, at most half the buffer.\<close>

definition admissible :: "SPSCStorage \<Rightarrow> byte list \<Rightarrow> bool" where
  "admissible s m \<longleftrightarrow> m \<noteq> [] \<and> length m + 8 \<le> length (st_buffer s) div 2"

lemma enqueue_asserts:
  assumes "wf_storage s" and "attached q s" and "payload_is h msg m"
  shows "enqueue q h msg s =
    (if m = [] then Inl (AssertFailed ''Message payload size must be greater than 0 bytes'')
     else if \<not> admissible s m then Inl (AssertFailed ''Message payload too large'')
     else case enqueue_body q h msg s of None \<Rightarrow> Inl OutOfBounds | Some r \<Rightarrow> Inr r)"
proof -
  have len: "unat (msg_payload_size msg) = length m"
    using payload_is_length [OF assms(3)] by (simp add: msg_payload_size_def)
  have B: "unat (buffer_size s) = length (st_buffer s)" "16 \<le> length (st_buffer s)"
    using assms(1) by (simp_all add: unat_buffer_size_wf) (simp add: wf_storage_def)
  then have half: "unat (q_max_message_size q) = length (st_buffer s) div 2"
    using assms(2) by (simp add: attached_def calc_max_message_size_def unat_div_u64)
  then have "unat (max_payload_size q) = length (st_buffer s) div 2 - 8"
    using B by (simp add: max_payload_size_def unat_sub_u64)
  then have "msg_payload_size msg \<le> max_payload_size q \<longleftrightarrow> length m + 8 \<le> length (st_buffer s) div 2"
    using B len by (auto simp: word_le_nat_alt)
  moreover have "0 < msg_payload_size msg \<longleftrightarrow> m \<noteq> []"
    using len by (auto simp: word_less_nat_alt)
  ultimately show ?thesis
    by (simp add: enqueue_def admissible_def)
qed

lemma admissible_small: "ring_rep s ms \<Longrightarrow> admissible s m \<Longrightarrow> length m < 2 ^ 64"
  by (drule ring_rep_small) (auto simp: admissible_def)

lemma ring_rep_ok: "ring_rep s ms \<Longrightarrow> admissible s m \<Longrightarrow>
    ring_ok (st_buffer s) (unat (st_read_ix s)) (unat (st_write_ix s)) m"
  by (auto simp: ring_rep_def wf_storage_def ring_ok_def admissible_def)

text \<open>An admissible message never faults: the call decides and writes as \<open>ring_put\<close> does.\<close>

lemma enqueue_ring_put:
  assumes "ring_rep s ms" and "attached q s" and "payload_is h msg m" and "admissible s m"
  shows "enqueue q h msg s =
    Inr (put_result s (ring_put (st_buffer s) (unat (st_read_ix s)) (unat (st_write_ix s)) m))"
proof -
  have wf: "wf_storage s" and "8 dvd unat (st_write_ix s)"
    and "unat (st_write_ix s) < length (st_buffer s)" and "8 + length m \<le> length (st_buffer s)"
    and "m \<noteq> []"
    using assms(1,4) by (auto simp: ring_rep_def admissible_def)
  then show ?thesis
    using enqueue_body_ring_put [OF wf assms(2,3)] enqueue_asserts [OF wf assms(2,3)] assms(4)
    by simp
qed

definition overtaking :: "SPSCStorage \<Rightarrow> byte list \<Rightarrow> bool" where
  "overtaking s m \<longleftrightarrow> overtakes (st_buffer s) (unat (st_read_ix s)) (unat (st_write_ix s)) m"

lemma put_result_ring:
  assumes rep: "ring_rep s ms" and adm: "admissible s m"
    and put: "ring_put (st_buffer s) (unat (st_read_ix s)) (unat (st_write_ix s)) m = Some (buf, w)"
    and new: "runs buf (unat (st_read_ix s)) w ns"
  shows "ring_rep (snd (put_result s (Some (buf, w)))) ns"
proof -
  have "length buf = length (st_buffer s)" "8 dvd w" "w < length (st_buffer s)"
    using ring_put_bounds [OF ring_rep_ok [OF rep adm] put] by auto
  moreover have "unat (word_of_nat w :: u64) = w"
    using calculation(3) ring_rep_small [OF rep] by (intro unat_word_of_nat_u64) simp
  ultimately show ?thesis
    using rep new by (simp add: put_result_def ring_rep_def wf_storage_def)
qed

lemma enqueue_ring:
  assumes rep: "ring_rep s ms" and att: "attached q s" and pay: "payload_is h msg m"
    and adm: "admissible s m" and safe: "\<not> overtaking s m"
  shows "\<exists>b s'. enqueue q h msg s = Inr (b, s') \<and> attached q s' \<and>
    st_read_ix s' = st_read_ix s \<and> length (st_buffer s') = length (st_buffer s) \<and>
    (if b then ring_rep s' (ms @ [m]) \<and> st_msg_count s' = st_msg_count s + 1 else s' = s)"
proof -
  let ?put = "ring_put (st_buffer s) (unat (st_read_ix s)) (unat (st_write_ix s)) m"
  note enq = enqueue_ring_put [OF rep att pay adm]
  show ?thesis
  proof (cases ?put)
    case None
    then show ?thesis
      using enq att by (auto simp: put_result_def)
  next
    case (Some bw)
    then obtain buf w where put: "?put = Some (buf, w)" by (cases bw) auto
    have "runs buf (unat (st_read_ix s)) w (ms @ [m])"
      using ring_put_Some [OF ring_rep_ok [OF rep adm] put] rep safe
      by (simp add: ring_rep_def overtaking_def)
    from put_result_ring [OF rep adm put this]
    have "ring_rep (snd (put_result s (Some (buf, w)))) (ms @ [m])" .
    then show ?thesis
      using enq put att ring_put_bounds [OF ring_rep_ok [OF rep adm] put]
      by (auto simp: put_result_def attached_def buffer_size_def calc_max_message_size_def)
  qed
qed

lemma enqueue_queue:
  assumes "queue_rep s ms" and "attached q s" and "payload_is h msg m"
    and "admissible s m" and "\<not> overtaking s m"
  shows "\<exists>b s'. enqueue q h msg s = Inr (b, s') \<and> attached q s' \<and>
    st_read_ix s' = st_read_ix s \<and> length (st_buffer s') = length (st_buffer s) \<and>
    (if b then queue_rep s' (ms @ [m]) else s' = s)"
proof -
  have "ring_rep s ms" and cnt: "st_msg_count s = word_of_nat (length ms)"
    using assms(1) by (simp_all add: queue_rep_def)
  from enqueue_ring [OF this(1) assms(2-5)]
  obtain b s' where "enqueue q h msg s = Inr (b, s')" "attached q s'"
    "st_read_ix s' = st_read_ix s" "length (st_buffer s') = length (st_buffer s)"
    "if b then ring_rep s' (ms @ [m]) \<and> st_msg_count s' = st_msg_count s + 1 else s' = s"
    by blast
  with cnt show ?thesis
    by (intro exI [of _ b] exI [of _ s']) (cases b; simp add: queue_rep_def)
qed

text \<open>Every message takes at least 16 bytes, so the counter cannot overflow.\<close>

lemma runs_length:
  assumes "runs buf r w ms" and "w < length buf"
  shows "length ms \<le> 2 * length buf"
  using assms(1)
proof (cases rule: runs_cases)
  case linear
  then show ?thesis using seg_le [of buf r ms w] assms(2) by simp
next
  case (wrapped ms1 ms2 e)
  then show ?thesis
    using seg_le [of buf r ms1 e] seg_le [of buf 0 ms2 w] assms(2) by simp
qed

lemma queue_rep_count: "queue_rep s ms \<Longrightarrow> unat (queue_size s) = length ms"
proof -
  assume rep: "queue_rep s ms"
  then have "length ms \<le> 2 * length (st_buffer s)"
    using runs_length by (auto simp: queue_rep_def ring_rep_def)
  moreover have "length (st_buffer s) + 256 < 2 ^ 63"
    using rep ring_rep_small by (auto simp: queue_rep_def)
  ultimately have "length ms < 2 ^ 64" by simp
  then show ?thesis
    using rep by (simp add: queue_size_def queue_rep_def unat_word_of_nat_u64)
qed

lemma head_view_nonempty:
  assumes "ring_rep s (m # ms)"
  shows "\<not> view_empty (head_view q s m)"
proof -
  obtain j where "seg (st_buffer s) (unat (st_read_ix (skip_sentinel s))) [m] j"
    using ring_rep_head [OF assms] by blast
  then have "m \<noteq> []" and "length m < 2 ^ 64"
    using ring_rep_small [OF assms] by auto
  then show ?thesis
    by (auto simp: view_empty_def head_view_def MessageView_new_def u64_eq_iff unat_word_of_nat_u64)
qed

lemma skip_sentinel_idem:
  assumes "ring_rep s (m # ms)"
  shows "skip_sentinel (skip_sentinel s) = skip_sentinel s"
proof -
  obtain j where "seg (st_buffer s) (unat (st_read_ix (skip_sentinel s))) [m] j"
    using ring_rep_head [OF assms] by blast
  then show ?thesis
    by (auto simp: skip_sentinel_def [of "skip_sentinel s"])
qed

lemma fresh_ring: "wf_storage (SPSCStorage_new sz buf) \<Longrightarrow> queue_rep (SPSCStorage_new sz buf) []"
  by (auto simp: queue_rep_def ring_rep_def wf_storage_def intro!: runs_linearI)

end
