(* ===== verification/Fifo_Channel.thy ===== *)
theory Fifo_Channel
  imports Main
begin

text \<open>
  What a bounded queue promises its clients, as an interface: a relation between the states of the
  queue and the list of the elements in it, and the laws of the two operations. Inside the
  interface, any sequence of operations is shown to deliver exactly what was accepted, in order.
  The queue of the library and the ring buffers of the examples are instances.
\<close>

datatype 'm chan_op = Push 'm | Pop

text \<open>Running a sequence of operations: the accepted elements, the received ones, the last state.\<close>

fun run_ops ::
    "('m \<Rightarrow> 's \<Rightarrow> bool \<times> 's) \<Rightarrow> ('s \<Rightarrow> 'm option \<times> 's) \<Rightarrow> 'm chan_op list \<Rightarrow> 's \<Rightarrow>
       'm list \<times> 'm list \<times> 's" where
  "run_ops push pop [] s = ([], [], s)"
| "run_ops push pop (Push m # ops) s =
     (case push m s of
        (True, s') \<Rightarrow> (case run_ops push pop ops s' of (acc, rcv, t) \<Rightarrow> (m # acc, rcv, t))
      | (False, s') \<Rightarrow> run_ops push pop ops s')"
| "run_ops push pop (Pop # ops) s =
     (case pop s of
        (Some m, s') \<Rightarrow> (case run_ops push pop ops s' of (acc, rcv, t) \<Rightarrow> (acc, m # rcv, t))
      | (None, s') \<Rightarrow> run_ops push pop ops s')"

definition pushed :: "'m chan_op list \<Rightarrow> 'm set" where
  "pushed ops = {m. Push m \<in> set ops}"

lemma pushed_simps [simp]:
  "pushed [] = {}" "pushed (Push m # ops) = insert m (pushed ops)" "pushed (Pop # ops) = pushed ops"
  by (auto simp: pushed_def)

locale fifo_channel =
  fixes rep :: "'s \<Rightarrow> 'm list \<Rightarrow> bool" and ok :: "'m \<Rightarrow> bool"
    and push :: "'m \<Rightarrow> 's \<Rightarrow> bool \<times> 's" and pop :: "'s \<Rightarrow> 'm option \<times> 's"
  assumes push_accept: "rep s ms \<Longrightarrow> ok m \<Longrightarrow> push m s = (True, s') \<Longrightarrow> rep s' (ms @ [m])"
    and push_refuse: "rep s ms \<Longrightarrow> ok m \<Longrightarrow> push m s = (False, s') \<Longrightarrow> rep s' ms"
    and pop_empty: "rep s [] \<Longrightarrow> \<exists>s'. pop s = (None, s') \<and> rep s' []"
    and pop_first: "rep s (m # ms) \<Longrightarrow> \<exists>s'. pop s = (Some m, s') \<and> rep s' ms"
begin

lemma run_fifo:
  assumes "rep s ms" and "\<forall>m \<in> pushed ops. ok m" and "run_ops push pop ops s = (acc, rcv, t)"
  shows "\<exists>rest. rep t rest \<and> ms @ acc = rcv @ rest"
  using assms
proof (induction ops arbitrary: s ms acc rcv t)
  case Nil
  then show ?case by auto
next
  case (Cons op ops)
  show ?case
  proof (cases op)
    case (Push m)
    then have okm: "ok m" and rest_ok: "\<forall>m \<in> pushed ops. ok m"
      using Cons.prems(2) by auto
    obtain b s' where step: "push m s = (b, s')" by (cases "push m s")
    obtain acc' rcv' t' where run: "run_ops push pop ops s' = (acc', rcv', t')"
      by (cases "run_ops push pop ops s'") auto
    show ?thesis
    proof (cases b)
      case True
      then have "rep s' (ms @ [m])"
        using push_accept [OF Cons.prems(1) okm] step by simp
      from Cons.IH [OF this rest_ok run] show ?thesis
        using Cons.prems(3) Push step run True by auto
    next
      case False
      then have "rep s' ms"
        using push_refuse [OF Cons.prems(1) okm] step by simp
      from Cons.IH [OF this rest_ok run] show ?thesis
        using Cons.prems(3) Push step run False by auto
    qed
  next
    case Pop
    then have rest_ok: "\<forall>m \<in> pushed ops. ok m"
      using Cons.prems(2) by simp
    show ?thesis
    proof (cases ms)
      case Nil
      then obtain s' where "pop s = (None, s')" and "rep s' ms"
        using pop_empty Cons.prems(1) by blast
      then show ?thesis
        using Cons.IH [OF \<open>rep s' ms\<close> rest_ok] Cons.prems(3) Pop by simp
    next
      case ms: (Cons m ms')
      then obtain s' where step: "pop s = (Some m, s')" and "rep s' ms'"
        using pop_first Cons.prems(1) by blast
      obtain acc' rcv' t' where run: "run_ops push pop ops s' = (acc', rcv', t')"
        by (cases "run_ops push pop ops s'") auto
      from Cons.IH [OF \<open>rep s' ms'\<close> rest_ok run] show ?thesis
        using Cons.prems(3) Pop step run ms by auto
    qed
  qed
qed

text \<open>Popping as often as there are elements delivers all of them, oldest first.\<close>

lemma drain: "rep s ms \<Longrightarrow> \<exists>t. run_ops push pop (replicate (length ms) Pop) s = ([], ms, t) \<and> rep t []"
proof (induction ms arbitrary: s)
  case (Cons m ms)
  then obtain s' where "pop s = (Some m, s')" and "rep s' ms"
    using pop_first by blast
  with Cons.IH [OF \<open>rep s' ms\<close>] show ?case by auto
qed simp

end

section \<open>Bounded queues\<close>

text \<open>
  A stronger interface: the queue accepts exactly while it holds fewer than \<open>cap\<close> elements. Its
  reference is a list of at most \<open>cap\<close> elements.
\<close>

definition bq_push :: "nat \<Rightarrow> 'm \<Rightarrow> 'm list \<Rightarrow> bool \<times> 'm list" where
  "bq_push cap m ms = (if length ms < cap then (True, ms @ [m]) else (False, ms))"

fun bq_pop :: "'m list \<Rightarrow> 'm option \<times> 'm list" where
  "bq_pop [] = (None, [])"
| "bq_pop (m # ms) = (Some m, ms)"

locale bounded_channel =
  fixes rep :: "'s \<Rightarrow> 'm list \<Rightarrow> bool" and cap :: nat
    and push :: "'m \<Rightarrow> 's \<Rightarrow> bool \<times> 's" and pop :: "'s \<Rightarrow> 'm option \<times> 's"
  assumes push_spec: "rep s ms \<Longrightarrow> bq_push cap m ms = (b, ms') \<Longrightarrow> \<exists>s'. push m s = (b, s') \<and> rep s' ms'"
    and pop_spec: "rep s ms \<Longrightarrow> bq_pop ms = (r, ms') \<Longrightarrow> \<exists>s'. pop s = (r, s') \<and> rep s' ms'"
begin

text \<open>Every run gives the results of the reference.\<close>

lemma run_reference:
  assumes "rep s ms" and "run_ops (bq_push cap) bq_pop ops ms = (acc, rcv, ms')"
  shows "\<exists>t. run_ops push pop ops s = (acc, rcv, t) \<and> rep t ms'"
  using assms
proof (induction ops arbitrary: s ms acc rcv)
  case (Cons op ops)
  show ?case
  proof (cases op)
    case (Push m)
    obtain b ns where ref: "bq_push cap m ms = (b, ns)" by (cases "bq_push cap m ms")
    obtain s' where s': "push m s = (b, s')" "rep s' ns" using push_spec [OF Cons.prems(1) ref] by blast
    obtain acc' where run: "run_ops (bq_push cap) bq_pop ops ns = (acc', rcv, ms')"
      "acc = (if b then m # acc' else acc')"
      using Cons.prems(2) Push ref by (auto split: prod.splits bool.splits if_splits)
    from Cons.IH [OF s'(2) run(1)] show ?thesis
      using Push s'(1) run(2) by (cases b) auto
  next
    case Pop
    obtain r ns where ref: "bq_pop ms = (r, ns)" by (cases "bq_pop ms")
    obtain s' where s': "pop s = (r, s')" "rep s' ns" using pop_spec [OF Cons.prems(1) ref] by blast
    obtain rcv' where run: "run_ops (bq_push cap) bq_pop ops ns = (acc, rcv', ms')"
      "rcv = (case r of None \<Rightarrow> rcv' | Some m \<Rightarrow> m # rcv')"
      using Cons.prems(2) Pop ref by (auto split: prod.splits option.splits)
    from Cons.IH [OF s'(2) run(1)] show ?thesis
      using Pop s'(1) run(2) by (cases r) auto
  qed
qed simp

end

text \<open>A bounded queue is a first-in first-out channel for all elements.\<close>

sublocale bounded_channel \<subseteq> fifo: fifo_channel rep "\<lambda>_. True" push pop
proof
  show "rep s' (ms @ [m])" if "rep s ms" "push m s = (True, s')" for s ms m s'
    using push_spec [OF that(1) surjective_pairing, of m] that(2)
    by (cases "length ms < cap") (simp_all add: bq_push_def)
  show "rep s' ms" if "rep s ms" "push m s = (False, s')" for s ms m s'
    using push_spec [OF that(1) surjective_pairing, of m] that(2)
    by (cases "length ms < cap") (simp_all add: bq_push_def)
  show "\<exists>s'. pop s = (None, s') \<and> rep s' []" if "rep s []" for s
    using pop_spec [OF that] by simp
  show "\<exists>s'. pop s = (Some m, s') \<and> rep s' ms" if "rep s (m # ms)" for s m ms
    using pop_spec [OF that] by simp
qed

end
