(* ===== verification/SPSC_Client.thy ===== *)
theory SPSC_Client
  imports SPSC_Ring Fifo_Channel
begin

text \<open>
  The queue as its clients use it. A producer copies a payload into memory of its own, wraps it in
  a borrowing message and calls \<^verbatim>\<open>enqueue\<close>; a consumer calls \<^verbatim>\<open>dequeue_begin\<close> and, when the
  view is not empty, reads the bytes and calls \<^verbatim>\<open>dequeue_commit\<close>: the loop bodies of the
  benchmarks. Clients whose messages all take the same space in the buffer are an instance of
  \<open>fifo_channel\<close>.
\<close>

section \<open>A client's view of the queue\<close>

definition spsc_send :: "SPSCQueue \<Rightarrow> addr \<Rightarrow> byte list \<Rightarrow> SPSCStorage \<Rightarrow> (bool \<times> SPSCStorage) exec" where
  "spsc_send q p m s = enqueue q [p \<mapsto> m] (Message_borrows p (word_of_nat (length m))) s"

definition spsc_push :: "SPSCQueue \<Rightarrow> addr \<Rightarrow> byte list \<Rightarrow> SPSCStorage \<Rightarrow> bool \<times> SPSCStorage" where
  "spsc_push q p m s = (case spsc_send q p m s of Inr r \<Rightarrow> r | Inl _ \<Rightarrow> (False, s))"

definition spsc_pop :: "SPSCQueue \<Rightarrow> SPSCStorage \<Rightarrow> byte list option \<times> SPSCStorage" where
  "spsc_pop q s =
     (case dequeue_begin q s of
        Some (Inr (v, s')) \<Rightarrow>
          if view_empty v then (None, s') else (view_bytes q s' v, dequeue_commit v s')
      | _ \<Rightarrow> (None, s))"

lemma payload_borrows:
  "length m < 2 ^ 64 \<Longrightarrow> payload_is [p \<mapsto> m] (Message_borrows p (word_of_nat (length m))) m"
  by (simp add: payload_is_def load_heap_def Message_borrows_def Message_new_def mem_read_def
      unat_word_of_nat_u64 mem_slice_def)

lemma spsc_pop_first:
  assumes "queue_rep s (m # ms)"
  shows "spsc_pop q s = (Some m, dequeue_commit (head_view q s m) (skip_sentinel s))"
proof -
  have ring: "ring_rep s (m # ms)"
    using assms by (simp add: queue_rep_def)
  have "\<not> view_empty (head_view q s m)"
    using ring by (rule head_view_nonempty)
  then show ?thesis
    using dequeue_begin_head [OF ring] head_view_bytes [OF ring] by (simp add: spsc_pop_def)
qed

lemma spsc_pop_empty: "queue_rep s [] \<Longrightarrow> spsc_pop q s = (None, s)"
  by (simp add: spsc_pop_def queue_rep_def dequeue_begin_empty view_empty_def MessageView_default_def)

lemma spsc_push_step:
  assumes "queue_rep s ms" and "attached q s" and "admissible s m" and "\<not> overtaking s m"
    and "spsc_push q p m s = (b, s')"
  shows "attached q s' \<and> length (st_buffer s') = length (st_buffer s) \<and>
    st_read_ix s' = st_read_ix s \<and> (if b then queue_rep s' (ms @ [m]) else s' = s)"
proof -
  have "length m < 2 ^ 64"
    using admissible_small assms(1,3) by (auto simp: queue_rep_def)
  from enqueue_queue [OF assms(1,2) payload_borrows [OF this, of p] assms(3,4)]
  obtain b' t where "spsc_send q p m s = Inr (b', t)" and "attached q t"
    "st_read_ix t = st_read_ix s" "length (st_buffer t) = length (st_buffer s)"
    "if b' then queue_rep t (ms @ [m]) else t = s"
    by (auto simp: spsc_send_def)
  with assms(5) show ?thesis by (auto simp: spsc_push_def split: if_splits)
qed

section \<open>Clients whose messages all take the same space\<close>

definition uniform_rep :: "SPSCQueue \<Rightarrow> nat \<Rightarrow> nat \<Rightarrow> SPSCStorage \<Rightarrow> byte list list \<Rightarrow> bool" where
  "uniform_rep q B T s ms \<longleftrightarrow>
     queue_rep s ms \<and> attached q s \<and> length (st_buffer s) = B \<and>
     T dvd unat (st_read_ix s) \<and> T dvd unat (st_write_ix s) \<and> (\<forall>m \<in> set ms. msg_space m = T)"

definition uniform_ok :: "nat \<Rightarrow> nat \<Rightarrow> byte list \<Rightarrow> bool" where
  "uniform_ok B T m \<longleftrightarrow> m \<noteq> [] \<and> length m + 8 \<le> B div 2 \<and> msg_space m = T"

lemma uniform_not_overtaking:
  assumes "uniform_rep q B T s ms" and "uniform_ok B T m"
  shows "\<not> overtaking s m"
proof
  let ?r = "unat (st_read_ix s)" and ?w = "unat (st_write_ix s)"
  assume "overtaking s m"
  then have wr: "?w < ?r" and BT: "B \<le> ?w + T"
    using assms by (auto simp: overtaking_def overtakes_def uniform_rep_def uniform_ok_def)
  have rB: "?r < B" and "T dvd ?r - ?w"
    using assms by (auto simp: uniform_rep_def queue_rep_def ring_rep_def)
  then have "T \<le> ?r - ?w"
    using wr by (auto dest: dvd_imp_le)
  with rB wr BT show False by simp
qed

lemma ring_put_uniform:
  assumes "ring_put buf r w m = Some (buf', w')" and "T dvd w" and "msg_space m = T"
  shows "T dvd w'"
  using assms by (auto simp: ring_put_def Let_def split: if_splits)

lemma uniform_push_accept:
  assumes "uniform_rep q B T s ms" and "uniform_ok B T m" and "spsc_push q p m s = (True, s')"
  shows "uniform_rep q B T s' (ms @ [m])"
proof -
  have rep: "queue_rep s ms" and att: "attached q s" and adm: "admissible s m"
    using assms(1,2) by (auto simp: uniform_rep_def uniform_ok_def admissible_def)
  have ring: "ring_rep s ms" using rep by (simp add: queue_rep_def)
  have pay: "payload_is [p \<mapsto> m] (Message_borrows p (word_of_nat (length m))) m"
    using admissible_small [OF ring adm] by (rule payload_borrows)
  obtain buf w where put: "ring_put (st_buffer s) (unat (st_read_ix s)) (unat (st_write_ix s)) m = Some (buf, w)"
    and s': "st_write_ix s' = word_of_nat w"
    using assms(3) enqueue_ring_put [OF ring att pay adm]
    by (auto simp: spsc_push_def spsc_send_def put_result_def split: option.splits)
  have "w < 2 ^ 64"
    using ring_put_bounds [OF ring_rep_ok [OF ring adm] put] ring_rep_small [OF ring] by simp
  then have "T dvd unat (st_write_ix s')"
    using ring_put_uniform [OF put] assms(1,2) s'
    by (simp add: uniform_rep_def uniform_ok_def unat_word_of_nat_u64)
  then show ?thesis
    using spsc_push_step [OF rep att adm uniform_not_overtaking [OF assms(1,2)] assms(3)] assms(1,2)
    by (auto simp: uniform_rep_def uniform_ok_def)
qed

lemma uniform_pop_first:
  assumes "uniform_rep q B T s (m # ms)"
  shows "uniform_rep q B T (dequeue_commit (head_view q s m) (skip_sentinel s)) ms"
proof -
  have rep: "queue_rep s (m # ms)" and ring: "ring_rep s (m # ms)"
    using assms by (simp_all add: uniform_rep_def queue_rep_def)
  have "T dvd unat (st_read_ix (skip_sentinel s))"
    using assms by (simp add: uniform_rep_def skip_sentinel_def)
  then have "T dvd unat (st_read_ix (dequeue_commit (head_view q s m) (skip_sentinel s)))"
    using assms by (simp add: dequeue_commit_read_ix [OF ring] uniform_rep_def)
  moreover have "st_write_ix (dequeue_commit v t) = st_write_ix t"
    "st_buffer (dequeue_commit v t) = st_buffer t" for v t
    by (simp_all add: dequeue_commit_def Let_def)
  ultimately show ?thesis
    using assms dequeue_commit_queue [OF rep] by (simp add: uniform_rep_def)
qed

lemma uniform_push_refuse:
  assumes "uniform_rep q B T s ms" and "uniform_ok B T m" and "spsc_push q p m s = (False, s')"
  shows "uniform_rep q B T s' ms"
proof -
  have "queue_rep s ms" "attached q s" "admissible s m"
    using assms(1,2) by (auto simp: uniform_rep_def uniform_ok_def admissible_def)
  from spsc_push_step [OF this uniform_not_overtaking [OF assms(1,2)] assms(3)]
  show ?thesis using assms(1) by simp
qed

interpretation uniform_spsc: fifo_channel
  "uniform_rep q B T" "uniform_ok B T" "spsc_push q p" "spsc_pop q" for q B T p
proof
  show "\<exists>s'. spsc_pop q s = (None, s') \<and> uniform_rep q B T s' []" if "uniform_rep q B T s []" for s
    using that spsc_pop_empty by (simp add: uniform_rep_def)
  show "\<exists>s'. spsc_pop q s = (Some m, s') \<and> uniform_rep q B T s' ms"
    if "uniform_rep q B T s (m # ms)" for s m ms
    using uniform_pop_first [OF that] spsc_pop_first that by (auto simp: uniform_rep_def)
qed (auto intro: uniform_push_accept uniform_push_refuse)

end
