(* ===== verification/Pub_Sub_Ends.thy ===== *)
theory Pub_Sub_Ends
  imports Pub_Sub_Config Shared_Memory SPSC_Client
begin

text \<open>
  \<^verbatim>\<open>queues/pubsub/Publisher.hpp\<close> and \<^verbatim>\<open>queues/pubsub/Subscriber.hpp\<close>: the two ends of a queue in
  shared memory. The storage object is read from and written to the bytes of the mapping, so two
  ends that map the same object see each other's messages. A null \<^verbatim>\<open>std::unique_ptr\<close> is \<open>None\<close>. An
  access beyond the size of the shared object counts as out of bounds. The public fields
  \<^verbatim>\<open>last_drop_time\<close> and \<^verbatim>\<open>drop_count\<close> are left out: the library never reads or changes them.
\<close>

section \<open>Queues in shared memory\<close>

definition queue_region ::
    "'w posix_os \<Rightarrow> SPSCQueue option \<Rightarrow> 'w \<Rightarrow> (SPSCQueue \<times> byte list) exec" where
  "queue_region os qo w =
     (case qo of
        None \<Rightarrow> Inl NullPointer
      | Some q \<Rightarrow>
          (case sys_region os (q_storage q) w of
             None \<Rightarrow> Inl OutOfBounds
           | Some mem \<Rightarrow>
               if length mem < unat sizeof_SPSCStorage then Inl OutOfBounds else Inr (q, mem)))"

definition shm_destroy_opt :: "'w posix_os \<Rightarrow> SharedMemory option \<Rightarrow> 'w \<Rightarrow> 'w" where
  "shm_destroy_opt os mo w = (case mo of None \<Rightarrow> w | Some m \<Rightarrow> SharedMemory_destroy os m w)"

section \<open>Publisher\<close>

record Publisher =
  pub_config :: PubSubConfig
  pub_shm :: "SharedMemory option"
  pub_queue :: "SPSCQueue option"

definition Publisher_new ::
    "PubSubConfig \<Rightarrow> SharedMemory option \<Rightarrow> SPSCQueue option \<Rightarrow> Publisher" where
  "Publisher_new config shm queue = \<lparr>pub_config = config, pub_shm = shm, pub_queue = queue\<rparr>"

text \<open>
  The queue object over the mapping: a recreated object gets a fresh header by placement new, an
  existing one is reinterpreted; the queue's constructor then reads the stored size.
\<close>

definition publisher_queue ::
    "'w posix_os \<Rightarrow> bool \<Rightarrow> SharedMemory \<Rightarrow> 'w \<Rightarrow> (SPSCQueue \<times> 'w) exec" where
  "publisher_queue os recreate shm w =
     (case sys_region os (shm_ptr shm) w of
        None \<Rightarrow> Inl OutOfBounds
      | Some mem \<Rightarrow>
          if recreate then
            (case placement_new mem (shm_size shm) of
               None \<Rightarrow> Inl OutOfBounds
             | Some mem' \<Rightarrow>
                 Inr (SPSCQueue_new (shm_ptr shm) (SPSCStorage_at mem'),
                      sys_store os (shm_ptr shm) mem' w))
          else if length mem < off_storage_size + 8 then Inl OutOfBounds
          else Inr (SPSCQueue_new (shm_ptr shm) (SPSCStorage_at mem), w))"

text \<open>
  Opening an existing object, with the flag that says whether its size is wrong, and recreating.
  \<^verbatim>\<open>std::make_unique\<close> moves the object out of the \<^verbatim>\<open>std::expected\<close>, whose emptied object is
  destroyed at the end of its scope, after a previous object of the \<^verbatim>\<open>std::unique_ptr\<close>.
\<close>

definition publisher_open ::
    "'w posix_os \<Rightarrow> source_location \<Rightarrow> PubSubConfig \<Rightarrow> 'w \<Rightarrow>
       (PosixIpcError + bool \<times> SharedMemory option) \<times> 'w" where
  "publisher_open os loc config w =
     (let (ex, w0) = shm_exists os (cfg_shm_name config) w in
      if ex then
        (case shm_open_existing os loc (cfg_shm_name config) w0 of
           (Inl e, w1) \<Rightarrow> (Inl e, w1)
         | (Inr res, w1) \<Rightarrow>
             (let (shm, husk) = SharedMemory_move res;
                  recreate = (cfg_storage_size_bytes config \<noteq> shm_size shm) in
              (Inr (recreate, Some shm), SharedMemory_destroy os husk w1)))
      else (Inr (True, None), w0))"

definition publisher_recreate ::
    "'w posix_os \<Rightarrow> source_location \<Rightarrow> PubSubConfig \<Rightarrow> SharedMemory option \<Rightarrow> 'w \<Rightarrow>
       (PosixIpcError + SharedMemory) \<times> 'w" where
  "publisher_recreate os loc config old w =
     (case open_or_create os loc (cfg_shm_name config) (cfg_storage_size_bytes config) True w of
        (Inl e, w1) \<Rightarrow> (Inl e, shm_destroy_opt os old w1)
      | (Inr res, w1) \<Rightarrow>
          (let (shm, husk) = SharedMemory_move res in
           (Inr shm, SharedMemory_destroy os husk (shm_destroy_opt os old w1))))"

definition publisher_finish ::
    "'w posix_os \<Rightarrow> PubSubConfig \<Rightarrow> bool \<Rightarrow> SharedMemory \<Rightarrow> 'w \<Rightarrow>
       ((PosixIpcError + Publisher) \<times> 'w) exec" where
  "publisher_finish os config recreate shm w =
     (case publisher_queue os recreate shm w of
        Inl f \<Rightarrow> Inl f
      | Inr (queue, w') \<Rightarrow> Inr (Inr (Publisher_new config (Some shm) (Some queue)), w'))"

definition Publisher_from_config ::
    "'w posix_os \<Rightarrow> source_location \<Rightarrow> PubSubConfig \<Rightarrow> 'w \<Rightarrow>
       ((PosixIpcError + Publisher) \<times> 'w) exec" where
  "Publisher_from_config os loc config w =
     (case publisher_open os loc config w of
        (Inl e, w1) \<Rightarrow> Inr (Inl e, w1)
      | (Inr (True, old), w1) \<Rightarrow>
          (case publisher_recreate os loc config old w1 of
             (Inl e, w2) \<Rightarrow> Inr (Inl e, w2)
           | (Inr shm, w2) \<Rightarrow> publisher_finish os config True shm w2)
      | (Inr (False, None), w1) \<Rightarrow> Inl NullPointer
      | (Inr (False, Some shm), w1) \<Rightarrow> publisher_finish os config False shm w1)"

text \<open>
  Moves copy the configuration; a move assignment releases the target's shared memory and does
  nothing on the object itself (\<open>same\<close>).
\<close>

definition Publisher_move :: "Publisher \<Rightarrow> Publisher \<times> Publisher" where
  "Publisher_move other =
     (Publisher_new (pub_config other) (pub_shm other) (pub_queue other),
      other\<lparr>pub_shm := None, pub_queue := None\<rparr>)"

definition Publisher_move_assign ::
    "'w posix_os \<Rightarrow> bool \<Rightarrow> Publisher \<Rightarrow> Publisher \<Rightarrow> 'w \<Rightarrow> Publisher \<times> Publisher \<times> 'w" where
  "Publisher_move_assign os same self other w =
     (if same then (self, other, w)
      else (self\<lparr>pub_shm := pub_shm other, pub_queue := pub_queue other,
                 pub_config := pub_config other\<rparr>,
            other\<lparr>pub_shm := None, pub_queue := None\<rparr>,
            shm_destroy_opt os (pub_shm self) w))"

definition Publisher_destroy :: "'w posix_os \<Rightarrow> Publisher \<Rightarrow> 'w \<Rightarrow> 'w" where
  "Publisher_destroy os p w = shm_destroy_opt os (pub_shm p) w"

definition publisher_is_empty :: "'w posix_os \<Rightarrow> Publisher \<Rightarrow> 'w \<Rightarrow> bool exec" where
  "publisher_is_empty os p w =
     (case queue_region os (pub_queue p) w of
        Inl f \<Rightarrow> Inl f
      | Inr (q, mem) \<Rightarrow> Inr (is_empty (SPSCStorage_at mem)))"

definition publisher_publish ::
    "'w posix_os \<Rightarrow> heap \<Rightarrow> Publisher \<Rightarrow> Message \<Rightarrow> 'w \<Rightarrow> (bool \<times> 'w) exec" where
  "publisher_publish os h p val w =
     (case queue_region os (pub_queue p) w of
        Inl f \<Rightarrow> Inl f
      | Inr (q, mem) \<Rightarrow>
          (case enqueue q h val (SPSCStorage_at mem) of
             Inl f \<Rightarrow> Inl f
           | Inr (b, s') \<Rightarrow> Inr (b, sys_store os (q_storage q) (SPSCStorage_put mem s') w)))"

section \<open>Subscriber\<close>

record Subscriber =
  sub_config :: PubSubConfig
  sub_shm :: "SharedMemory option"
  sub_queue :: "SPSCQueue option"

definition Subscriber_new ::
    "PubSubConfig \<Rightarrow> SharedMemory option \<Rightarrow> SPSCQueue option \<Rightarrow> Subscriber" where
  "Subscriber_new config shm queue = \<lparr>sub_config = config, sub_shm = shm, sub_queue = queue\<rparr>"

text \<open>
  The defaulted moves work member by member; the moved-from configuration is whatever the library's
  string move leaves (\<open>left\<close>).
\<close>

definition Subscriber_move :: "PubSubConfig \<Rightarrow> Subscriber \<Rightarrow> Subscriber \<times> Subscriber" where
  "Subscriber_move left other =
     (Subscriber_new (sub_config other) (sub_shm other) (sub_queue other),
      Subscriber_new left None None)"

definition Subscriber_move_assign ::
    "'w posix_os \<Rightarrow> PubSubConfig \<Rightarrow> Subscriber \<Rightarrow> Subscriber \<Rightarrow> 'w \<Rightarrow>
       Subscriber \<times> Subscriber \<times> 'w" where
  "Subscriber_move_assign os left self other w =
     (self\<lparr>sub_config := sub_config other, sub_shm := sub_shm other, sub_queue := sub_queue other\<rparr>,
      Subscriber_new left None None,
      shm_destroy_opt os (sub_shm self) w)"

definition Subscriber_destroy :: "'w posix_os \<Rightarrow> Subscriber \<Rightarrow> 'w \<Rightarrow> 'w" where
  "Subscriber_destroy os sb w = shm_destroy_opt os (sub_shm sb) w"

definition subscriber_dequeue_commit ::
    "'w posix_os \<Rightarrow> Subscriber \<Rightarrow> MessageView \<Rightarrow> 'w \<Rightarrow> 'w exec" where
  "subscriber_dequeue_commit os sb v w =
     (case queue_region os (sub_queue sb) w of
        Inl f \<Rightarrow> Inl f
      | Inr (q, mem) \<Rightarrow>
          Inr (sys_store os (q_storage q)
                 (SPSCStorage_put mem (dequeue_commit v (SPSCStorage_at mem))) w))"

definition subscriber_dequeue_begin ::
    "'w posix_os \<Rightarrow> Subscriber \<Rightarrow> 'w \<Rightarrow> (MessageView \<times> 'w) exec option" where
  "subscriber_dequeue_begin os sb w =
     (case queue_region os (sub_queue sb) w of
        Inl f \<Rightarrow> Some (Inl f)
      | Inr (q, mem) \<Rightarrow>
          (case dequeue_begin q (SPSCStorage_at mem) of
             None \<Rightarrow> None
           | Some (Inl f) \<Rightarrow> Some (Inl f)
           | Some (Inr (v, s')) \<Rightarrow>
               Some (Inr (v, sys_store os (q_storage q) (SPSCStorage_put mem s') w))))"

definition subscriber_is_empty :: "'w posix_os \<Rightarrow> Subscriber \<Rightarrow> 'w \<Rightarrow> bool exec" where
  "subscriber_is_empty os sb w =
     (case queue_region os (sub_queue sb) w of
        Inl f \<Rightarrow> Inl f
      | Inr (q, mem) \<Rightarrow> Inr (is_empty (SPSCStorage_at mem)))"

definition subscriber_can_dequeue :: "'w posix_os \<Rightarrow> Subscriber \<Rightarrow> 'w \<Rightarrow> bool exec" where
  "subscriber_can_dequeue os sb w =
     (case queue_region os (sub_queue sb) w of
        Inl f \<Rightarrow> Inl f
      | Inr (q, mem) \<Rightarrow> Inr (can_dequeue (SPSCStorage_at mem)))"

definition subscriber_size :: "'w posix_os \<Rightarrow> Subscriber \<Rightarrow> 'w \<Rightarrow> u64 exec" where
  "subscriber_size os sb w =
     (case queue_region os (sub_queue sb) w of
        Inl f \<Rightarrow> Inl f
      | Inr (q, mem) \<Rightarrow> Inr (queue_size (SPSCStorage_at mem)))"

text \<open>
  On every path out of the function after the open, the locals are destroyed in reverse order: the
  shared memory, unless it went into the subscriber, and the emptied result of the open.
\<close>

definition subscriber_check ::
    "'w posix_os \<Rightarrow> source_location \<Rightarrow> PubSubConfig \<Rightarrow> SharedMemory \<Rightarrow> 'w \<Rightarrow>
       (PosixIpcError + SPSCQueue) exec" where
  "subscriber_check os loc config shm w =
     (if cfg_storage_size_bytes config \<noteq> shm_size shm
      then Inr (Inl (PosixIpcError_new pubsub_shm_size_mismatch
             (''Shared memory ['' @ cfg_shm_name config @ ''] size mismatch, expected '' @
              fmt_nat (unat (cfg_storage_size_bytes config)) @ '', got '' @
              fmt_nat (unat (shm_size shm)) @ ''.'') loc))
      else case sys_region os (shm_ptr shm) w of
        None \<Rightarrow> Inl OutOfBounds
      | Some mem \<Rightarrow>
          (case SPSCStorage_map loc (shm_ptr shm) (shm_size shm) mem of
             Inl e \<Rightarrow> Inr (Inl e)
           | Inr p \<Rightarrow> Inr (Inr (SPSCQueue_new p (SPSCStorage_at mem)))))"

definition Subscriber_from_config ::
    "'w posix_os \<Rightarrow> source_location \<Rightarrow> PubSubConfig \<Rightarrow> 'w \<Rightarrow>
       ((PosixIpcError + Subscriber) \<times> 'w) exec" where
  "Subscriber_from_config os loc config w =
     (let (ex, w0) = shm_exists os (cfg_shm_name config) w in
      if \<not> ex
      then Inr (Inl (PosixIpcError_new shm_open_failed
             (''Cannot create PubSub subscriber, shared memory ['' @ cfg_shm_name config @
              ''] does not exist.'') loc), w0)
      else case shm_open_existing os loc (cfg_shm_name config) w0 of
        (Inl e, w1) \<Rightarrow> Inr (Inl e, w1)
      | (Inr res, w1) \<Rightarrow>
          (let (shm, husk) = SharedMemory_move res in
           case subscriber_check os loc config shm w1 of
             Inl f \<Rightarrow> Inl f
           | Inr (Inl e) \<Rightarrow>
               Inr (Inl e, SharedMemory_destroy os husk (SharedMemory_destroy os shm w1))
           | Inr (Inr queue) \<Rightarrow>
               Inr (Inr (Subscriber_new config (Some shm) (Some queue)),
                    SharedMemory_destroy os husk w1)))"

section \<open>The two ends as one channel\<close>

text \<open>The loop bodies of the example server and client, as in \<open>SPSC_Client\<close>.\<close>

definition publisher_push :: "'w posix_os \<Rightarrow> addr \<Rightarrow> Publisher \<Rightarrow> byte list \<Rightarrow> 'w \<Rightarrow> bool \<times> 'w" where
  "publisher_push os a p m w =
     (case publisher_publish os [a \<mapsto> m] p (Message_borrows a (word_of_nat (length m))) w of
        Inl _ \<Rightarrow> (False, w)
      | Inr r \<Rightarrow> r)"

definition subscriber_view :: "'w posix_os \<Rightarrow> Subscriber \<Rightarrow> MessageView \<Rightarrow> 'w \<Rightarrow> byte list option" where
  "subscriber_view os sb v w =
     (case queue_region os (sub_queue sb) w of
        Inl _ \<Rightarrow> None
      | Inr (q, mem) \<Rightarrow> view_bytes q (SPSCStorage_at mem) v)"

definition subscriber_pop :: "'w posix_os \<Rightarrow> Subscriber \<Rightarrow> 'w \<Rightarrow> byte list option \<times> 'w" where
  "subscriber_pop os sb w =
     (case subscriber_dequeue_begin os sb w of
        Some (Inr (v, w1)) \<Rightarrow>
          if view_empty v then (None, w1)
          else (subscriber_view os sb v w1,
                case subscriber_dequeue_commit os sb v w1 of Inl _ \<Rightarrow> w1 | Inr w2 \<Rightarrow> w2)
      | _ \<Rightarrow> (None, w))"

text \<open>The ends map one object, which holds a queue that both were built for.\<close>

definition pubsub_rep ::
    "'w posix_os \<Rightarrow> ('w \<Rightarrow> addr \<Rightarrow> 'o option) \<Rightarrow> Publisher \<Rightarrow> Subscriber \<Rightarrow> nat \<Rightarrow> nat \<Rightarrow>
       'w \<Rightarrow> byte list list \<Rightarrow> bool" where
  "pubsub_rep os obj p sb B T w ms \<longleftrightarrow>
     (\<exists>qp qs mem. pub_queue p = Some qp \<and> sub_queue sb = Some qs \<and>
        obj w (q_storage qp) = obj w (q_storage qs) \<and>
        sys_region os (q_storage qp) w = Some mem \<and> 256 \<le> length mem \<and>
        uniform_rep qp B T (SPSCStorage_at mem) ms \<and> attached qs (SPSCStorage_at mem))"

lemma shm_destroy_None [simp]: "shm_destroy_opt os None w = w"
  by (simp add: shm_destroy_opt_def)

text \<open>Moves of the ends release their shared memory once, whatever the order of destruction.\<close>

lemma publisher_moves_release_once:
  "Publisher_move p = (a, b) \<Longrightarrow>
     Publisher_destroy os a (Publisher_destroy os b w) = Publisher_destroy os p w \<and>
     Publisher_destroy os b (Publisher_destroy os a w) = Publisher_destroy os p w"
  "Publisher_move_assign os False p q w = (a, b, w') \<Longrightarrow>
     Publisher_destroy os a (Publisher_destroy os b w') =
       Publisher_destroy os q (Publisher_destroy os p w)"
  by (auto simp: Publisher_move_def Publisher_move_assign_def Publisher_destroy_def
      Publisher_new_def)

lemma subscriber_moves_release_once:
  "Subscriber_move left p = (c, d) \<Longrightarrow>
     Subscriber_destroy os c (Subscriber_destroy os d w) = Subscriber_destroy os p w \<and>
     Subscriber_destroy os d (Subscriber_destroy os c w) = Subscriber_destroy os p w"
  "Subscriber_move_assign os left p q w = (c, d, w') \<Longrightarrow>
     Subscriber_destroy os c (Subscriber_destroy os d w') =
       Subscriber_destroy os q (Subscriber_destroy os p w)"
  by (auto simp: Subscriber_move_def Subscriber_move_assign_def Subscriber_destroy_def
      Subscriber_new_def)

lemma queue_region_Some:
  "qo = Some q \<Longrightarrow> sys_region os (q_storage q) w = Some mem \<Longrightarrow> 256 \<le> length mem \<Longrightarrow>
     queue_region os qo w = Inr (q, mem)"
  by (simp add: queue_region_def)

lemma buffer_at: "st_buffer (SPSCStorage_at mem) = drop 256 mem"
  by (simp add: SPSCStorage_at_def)

lemma length_buffer_at [simp]: "length (st_buffer (SPSCStorage_at mem)) = length mem - 256"
  by (simp add: SPSCStorage_at_def)

lemma put_at:
  assumes "256 \<le> length mem" and "length (st_buffer s) = length (st_buffer (SPSCStorage_at mem))"
  shows "SPSCStorage_at (SPSCStorage_put mem s) = s" "length (SPSCStorage_put mem s) = length mem"
  using assms by (simp_all add: SPSCStorage_at_put length_SPSCStorage_put)

lemma uniform_buffer: "uniform_rep q B T s ms \<Longrightarrow> length (st_buffer s) = B"
  by (simp add: uniform_rep_def)

lemma uniform_swap: "uniform_rep q B T s ms \<Longrightarrow> attached q' s \<Longrightarrow> uniform_rep q' B T s ms"
  by (simp add: uniform_rep_def)

lemma attached_swap: "attached q s \<Longrightarrow> attached q' s \<Longrightarrow> attached q t \<Longrightarrow> attached q' t"
  by (simp add: attached_def)

context posix_memory
begin

lemma store_both:
  assumes "sys_region os p w = Some mem" and "length mem' = length mem" and "obj w p = obj w p'"
  shows "sys_region os p' (sys_store os p mem' w) = Some mem'"
  using store_here [OF assms(1,2)] shared [of "sys_store os p mem' w" p p'] assms(3)
  by (simp add: store_maps)

text \<open>Storing a new storage object through either end keeps the two ends connected.\<close>

lemma pubsub_rep_store:
  assumes qs: "pub_queue p = Some qp" "sub_queue sb = Some qs"
    and obj: "obj w (q_storage qp) = obj w (q_storage qs)"
    and mem: "sys_region os (q_storage qp) w = Some mem" "256 \<le> length mem"
    and old: "length (st_buffer (SPSCStorage_at mem)) = B"
    and new: "uniform_rep qp B T s ms" "attached qs s"
    and at: "a = q_storage qp \<or> a = q_storage qs"
  shows "pubsub_rep os obj p sb B T (sys_store os a (SPSCStorage_put mem s) w) ms"
proof -
  let ?w = "sys_store os a (SPSCStorage_put mem s) w"
  have a: "sys_region os a w = Some mem" "obj w a = obj w (q_storage qp)"
    using at mem(1) obj shared [OF obj] by (elim disjE; simp)+
  have put: "SPSCStorage_at (SPSCStorage_put mem s) = s" "length (SPSCStorage_put mem s) = length mem"
    using put_at [OF mem(2), of s] old uniform_buffer [OF new(1)] by simp_all
  have "sys_region os (q_storage qp) ?w = Some (SPSCStorage_put mem s)"
    using store_both [OF a(1) put(2) a(2)] .
  then show ?thesis
    unfolding pubsub_rep_def using qs obj new mem(2) put by (auto simp: store_maps)
qed

lemma pubsub_repE:
  assumes "pubsub_rep os obj p sb B T w ms"
  obtains qp qs mem where "pub_queue p = Some qp" "sub_queue sb = Some qs"
    "obj w (q_storage qp) = obj w (q_storage qs)"
    "sys_region os (q_storage qp) w = Some mem" "sys_region os (q_storage qs) w = Some mem"
    "256 \<le> length mem" "uniform_rep qp B T (SPSCStorage_at mem) ms"
    "attached qs (SPSCStorage_at mem)" "length (st_buffer (SPSCStorage_at mem)) = B"
proof -
  from assms obtain qp qs mem where "pub_queue p = Some qp" "sub_queue sb = Some qs"
    and obj: "obj w (q_storage qp) = obj w (q_storage qs)"
    and mem: "sys_region os (q_storage qp) w = Some mem" and "256 \<le> length mem"
    and rep: "uniform_rep qp B T (SPSCStorage_at mem) ms" and "attached qs (SPSCStorage_at mem)"
    unfolding pubsub_rep_def by blast
  then show thesis
    using that [of qp qs mem] shared [OF obj] uniform_buffer [OF rep] by simp
qed

lemma pubsub_push:
  assumes "pubsub_rep os obj p sb B T w ms" and ok: "uniform_ok B T m"
    and push: "publisher_push os a p m w = (b, w')"
  shows "pubsub_rep os obj p sb B T w' (if b then ms @ [m] else ms)"
  using assms(1)
proof (rule pubsub_repE)
  fix qp qs mem
  let ?s = "SPSCStorage_at mem"
  assume qs: "pub_queue p = Some qp" "sub_queue sb = Some qs"
    and obj: "obj w (q_storage qp) = obj w (q_storage qs)"
    and mem: "sys_region os (q_storage qp) w = Some mem" "256 \<le> length mem"
    and rep: "uniform_rep qp B T ?s ms" and att: "attached qs ?s" and B: "length (st_buffer ?s) = B"
  show ?thesis
  proof (cases "spsc_send qp a m ?s")
    case (Inl f)
    then have "b = False" "w' = w"
      using push queue_region_Some [OF qs(1) mem]
      by (simp_all add: publisher_push_def publisher_publish_def spsc_send_def)
    then show ?thesis using assms(1) by simp
  next
    case (Inr r)
    then obtain b' s' where send: "spsc_send qp a m ?s = Inr (b', s')" by (cases r) auto
    then have step: "spsc_push qp a m ?s = (b', s')" by (simp add: spsc_push_def)
    have new: "uniform_rep qp B T s' (if b' then ms @ [m] else ms)"
      using uniform_push_accept [OF rep ok] uniform_push_refuse [OF rep ok] step
      by (cases b') simp_all
    then have "attached qs s'"
      using attached_swap [of qp ?s qs s'] rep att by (simp add: uniform_rep_def)
    moreover have "b = b'" "w' = sys_store os (q_storage qp) (SPSCStorage_put mem s') w"
      using push send queue_region_Some [OF qs(1) mem]
      by (simp_all add: publisher_push_def publisher_publish_def spsc_send_def)
    ultimately show ?thesis
      using pubsub_rep_store [OF qs obj mem B new] by simp
  qed
qed

lemma pubsub_pop_empty:
  assumes "pubsub_rep os obj p sb B T w []"
  shows "\<exists>w'. subscriber_pop os sb w = (None, w') \<and> pubsub_rep os obj p sb B T w' []"
  using assms
proof (rule pubsub_repE)
  fix qp qs mem
  let ?s = "SPSCStorage_at mem"
  assume qs: "pub_queue p = Some qp" "sub_queue sb = Some qs"
    and obj: "obj w (q_storage qp) = obj w (q_storage qs)"
    and mem: "sys_region os (q_storage qp) w = Some mem" "256 \<le> length mem"
    and mem': "sys_region os (q_storage qs) w = Some mem"
    and rep: "uniform_rep qp B T ?s []" and att: "attached qs ?s" and B: "length (st_buffer ?s) = B"
  have "dequeue_begin qs ?s = Some (Inr (MessageView_default, ?s))"
    using rep by (intro dequeue_begin_empty) (simp add: uniform_rep_def queue_rep_def)
  then have "subscriber_pop os sb w = (None, sys_store os (q_storage qs) (SPSCStorage_put mem ?s) w)"
    using queue_region_Some [OF qs(2) mem' mem(2)]
    by (simp add: subscriber_pop_def subscriber_dequeue_begin_def view_empty_def MessageView_default_def)
  then show ?thesis
    using pubsub_rep_store [OF qs obj mem B rep att] by simp
qed

lemma pubsub_pop_first:
  assumes "pubsub_rep os obj p sb B T w (m # ms)"
  shows "\<exists>w'. subscriber_pop os sb w = (Some m, w') \<and> pubsub_rep os obj p sb B T w' ms"
  using assms
proof (rule pubsub_repE)
  fix qp qs mem
  let ?s = "SPSCStorage_at mem"
  assume qs: "pub_queue p = Some qp" "sub_queue sb = Some qs"
    and obj: "obj w (q_storage qp) = obj w (q_storage qs)"
    and mem: "sys_region os (q_storage qp) w = Some mem" "256 \<le> length mem"
    and mem': "sys_region os (q_storage qs) w = Some mem"
    and rep: "uniform_rep qp B T ?s (m # ms)" and att: "attached qs ?s"
    and B: "length (st_buffer ?s) = B"
  let ?v = "head_view qs ?s m" and ?s1 = "skip_sentinel ?s"
  let ?mem1 = "SPSCStorage_put mem ?s1"
  let ?w1 = "sys_store os (q_storage qs) ?mem1 w"
  have ring: "ring_rep ?s (m # ms)" using rep by (simp add: uniform_rep_def queue_rep_def)
  have put: "SPSCStorage_at ?mem1 = ?s1" "length ?mem1 = length mem"
    using put_at [OF mem(2), of ?s1] by (simp_all add: B)
  have mem1: "sys_region os (q_storage qs) ?w1 = Some ?mem1" "sys_region os (q_storage qp) ?w1 = Some ?mem1"
    using store_both [OF mem' put(2)] obj by metis+
  have "subscriber_dequeue_begin os sb w = Some (Inr (?v, ?w1))"
    using dequeue_begin_head [OF ring] queue_region_Some [OF qs(2) mem' mem(2)]
    by (simp add: subscriber_dequeue_begin_def)
  moreover have "subscriber_view os sb ?v ?w1 = Some m"
    using head_view_bytes [OF ring] queue_region_Some [OF qs(2) mem1(1)] mem(2) put
    by (simp add: subscriber_view_def)
  moreover have "subscriber_dequeue_commit os sb ?v ?w1 =
      Inr (sys_store os (q_storage qs) (SPSCStorage_put ?mem1 (dequeue_commit ?v ?s1)) ?w1)"
    using queue_region_Some [OF qs(2) mem1(1)] mem(2) put by (simp add: subscriber_dequeue_commit_def)
  ultimately have "subscriber_pop os sb w =
      (Some m, sys_store os (q_storage qs) (SPSCStorage_put ?mem1 (dequeue_commit ?v ?s1)) ?w1)"
    using head_view_nonempty [OF ring] by (simp add: subscriber_pop_def)
  moreover have "uniform_rep qs B T (dequeue_commit ?v ?s1) ms"
    using uniform_pop_first [OF uniform_swap [OF rep att]] .
  then have "uniform_rep qp B T (dequeue_commit ?v ?s1) ms" "attached qs (dequeue_commit ?v ?s1)"
    using rep att by (auto simp: uniform_rep_def)
  then have "pubsub_rep os obj p sb B T
      (sys_store os (q_storage qs) (SPSCStorage_put ?mem1 (dequeue_commit ?v ?s1)) ?w1) ms"
    using pubsub_rep_store [OF qs _ mem1(2) _ _ _ _ disjI2 [OF refl]] obj mem(2) put B
    by (simp add: store_maps)
  ultimately show ?thesis by blast
qed

end

sublocale posix_memory \<subseteq> pubsub: fifo_channel
  "pubsub_rep os obj p sb B T" "uniform_ok B T" "publisher_push os a p" "subscriber_pop os sb"
  for p sb B T a
  by unfold_locales (auto dest: pubsub_push intro: pubsub_pop_empty pubsub_pop_first split: if_splits)

context posix_memory
begin

lemma pubsub_fifo:
  assumes "pubsub_rep os obj p sb B T w []" and "\<forall>m \<in> pushed ops. uniform_ok B T m"
    and "run_ops (publisher_push os a p) (subscriber_pop os sb) ops w = (acc, rcv, w')"
  shows "\<exists>rest w''. acc = rcv @ rest \<and>
    run_ops (publisher_push os a p) (subscriber_pop os sb) (replicate (length rest) Pop) w' =
      ([], rest, w'')"
proof -
  obtain rest where "pubsub_rep os obj p sb B T w' rest" "acc = rcv @ rest"
    using pubsub.run_fifo [OF assms] by auto
  then show ?thesis using pubsub.drain [of p sb B T w' rest a] by blast
qed

end

section \<open>Connecting the ends\<close>

context posix_shm
begin

lemma destroy_emptied:
  "shm_ptr m = nullptr \<Longrightarrow> \<not> shm_created m \<Longrightarrow> keeps os obj nm w (SharedMemory_destroy os m w)"
  using keeps_trans [OF munmap_null close_nothing] by (simp add: SharedMemory_destroy_def)

lemma open_step_object:
  assumes "shm_open_step os loc name sz create w = (Inr fd, w')"
  shows "nm w' name \<noteq> None \<and> fdo w' fd = nm w' name" and "\<not> create \<Longrightarrow> keeps os obj nm w w'"
proof -
  have step: "sys_shm_open os name fl md v = (fd, v') \<Longrightarrow> fd \<noteq> -1 \<Longrightarrow>
      o_creat fl \<or> \<not> o_trunc fl \<Longrightarrow> nm v' name \<noteq> None \<and> fdo v' fd = nm v' name" for fl md v v'
    using shm_open_creat shm_open_plain by (cases "o_creat fl") (fastforce simp: keeps_def)+
  show "nm w' name \<noteq> None \<and> fdo w' fd = nm w' name"
    using assms
    by (auto simp: shm_open_step_def create_flags_def rdwr_flags_def Let_def
        split: prod.splits if_splits dest: step)
  show "keeps os obj nm w w'" if "\<not> create"
  proof -
    have plain: "sys_shm_open os name fl md v = (fd, v') \<Longrightarrow> fd \<noteq> -1 \<Longrightarrow>
        \<not> o_creat fl \<Longrightarrow> \<not> o_trunc fl \<Longrightarrow> keeps os obj nm v v'" for fl md v v'
      using shm_open_plain by blast
    show ?thesis
      using assms that
      by (auto simp: shm_open_step_def rdwr_flags_def Let_def split: prod.splits if_splits
          dest: plain intro: keeps_trans [OF shm_open_fail])
  qed
qed

lemma map_step_object:
  assumes "shm_map_step os loc name sz fd w = (Inr m, w')"
  shows "shm_ptr m \<noteq> nullptr \<and> keeps os obj nm w w' \<and> shm_size m = sz \<and>
    (fdo w fd \<noteq> None \<longrightarrow> obj w' (shm_ptr m) = fdo w fd)"
  using assms
proof (cases rule: shm_map_step_cases)
  case (ok p w1)
  let ?husk = "SharedMemory_new [] sz (-1) nullptr False"
  have "p \<noteq> nullptr \<and> keeps os obj nm w w1 \<and> obj w1 p = fdo w fd"
    using mmap_object [OF ok(1,2)] .
  moreover have "keeps os obj nm w1 w'"
    using destroy_emptied [of ?husk w1] ok(4) by (simp add: SharedMemory_new_def)
  ultimately show ?thesis
    using keeps_trans keeps_region [of os obj nm w1 w' p] ok(3) by (auto simp: SharedMemory_new_def)
qed simp

lemma open_or_create_object:
  assumes "open_or_create os loc name sz create w = (Inr m, w')"
  shows "shm_ptr m \<noteq> nullptr \<and> nm w' name \<noteq> None \<and> obj w' (shm_ptr m) = nm w' name"
proof -
  obtain fd w1 sz' w2 where open_ok: "shm_open_step os loc name sz create w = (Inr fd, w1)"
    and size_ok: "shm_size_step os loc name sz create fd w1 = (Inr sz', w2)"
    and map_ok: "shm_map_step os loc name sz' fd w2 = (Inr m, w')"
    using assms by (auto simp: open_or_create_def split: prod.splits sum.splits)
  have "nm w2 = nm w1 \<and> fdo w2 = fdo w1"
    using size_ok ftruncate_names fstat_size
    by (fastforce simp: shm_size_step_def Let_def keeps_def split: prod.splits if_splits)
  moreover have "nm w' = nm w2" using map_step_object [OF map_ok] by (simp add: keeps_def)
  ultimately show ?thesis
    using open_step_object(1) [OF open_ok] map_step_object [OF map_ok] by simp
qed

lemma open_existing_keeps:
  assumes "shm_open_existing os loc name w = (Inr m, w')"
  shows "keeps os obj nm w w'"
    and "p \<noteq> nullptr \<Longrightarrow> obj w p = nm w name \<Longrightarrow> nm w name \<noteq> None \<Longrightarrow> sys_region os p w = Some mem \<Longrightarrow>
      unat (shm_size m) = length mem"
proof -
  obtain fd w1 sz' w2 where open_ok: "shm_open_step os loc name 0 False w = (Inr fd, w1)"
    and size_ok: "shm_size_step os loc name 0 False fd w1 = (Inr sz', w2)"
    and map_ok: "shm_map_step os loc name sz' fd w2 = (Inr m, w')"
    using assms by (auto simp: open_or_create_def shm_open_existing_def split: prod.splits sum.splits)
  from size_ok obtain rc where stat: "sys_fstat os fd w1 = (rc, sz', w2)" "rc \<noteq> -1"
    by (auto simp: shm_size_step_def Let_def split: prod.splits if_splits)
  note k1 = open_step_object(2) [OF open_ok, simplified]
  note k2 = fstat_size [OF stat]
  show "keeps os obj nm w w'"
    using keeps_trans [OF keeps_trans [OF k1]] k2 map_step_object [OF map_ok] by blast
  assume p: "p \<noteq> nullptr" "obj w p = nm w name" "nm w name \<noteq> None" "sys_region os p w = Some mem"
  have "obj w1 p = fdo w1 fd" "sys_region os p w1 = Some mem"
    using keeps_region [OF k1, of p] p open_step_object(1) [OF open_ok] k1 by (simp_all add: keeps_def)
  then show "unat (shm_size m) = length mem"
    using k2 map_step_object [OF map_ok] by auto
qed

lemma finish_fresh:
  assumes "publisher_finish os config True shm w = Inr (Inr p, w')"
  shows "\<exists>mem. p = Publisher_new config (Some shm) (Some (SPSCQueue_new (shm_ptr shm) (SPSCStorage_at mem))) \<and>
    sys_region os (shm_ptr shm) w' = Some mem \<and> 256 \<le> length mem \<and>
    SPSCStorage_at mem = SPSCStorage_new (shm_size shm) (drop 256 mem) \<and> obj w' = obj w \<and> nm w' = nm w"
proof -
  obtain mem0 mem where old: "sys_region os (shm_ptr shm) w = Some mem0"
    and new: "placement_new mem0 (shm_size shm) = Some mem"
    and p: "p = Publisher_new config (Some shm) (Some (SPSCQueue_new (shm_ptr shm) (SPSCStorage_at mem)))"
    and w': "w' = sys_store os (shm_ptr shm) mem w"
    using assms
    by (auto simp: publisher_finish_def publisher_queue_def split: option.splits sum.splits prod.splits)
  note at = placement_new_Some [OF new]
  then have "sys_region os (shm_ptr shm) w' = Some mem"
    using store_here [OF old] w' by simp
  moreover have "drop 256 mem = drop 256 mem0"
    using at by (metis SPSCStorage_new_simps(7) buffer_at)
  ultimately show ?thesis
    using p at w' by (simp add: store_maps store_names)
qed

lemma publisher_fresh:
  assumes "Publisher_from_config os loc config w = Inr (Inr p, w')"
    and "\<not> fst (shm_exists os (cfg_shm_name config) w)"
  shows "\<exists>shm q mem. pub_config p = config \<and> pub_shm p = Some shm \<and> pub_queue p = Some q \<and>
    q = SPSCQueue_new (shm_ptr shm) (SPSCStorage_at mem) \<and> shm_ptr shm \<noteq> nullptr \<and>
    sys_region os (shm_ptr shm) w' = Some mem \<and> 256 \<le> length mem \<and>
    SPSCStorage_at mem = SPSCStorage_new (cfg_storage_size_bytes config) (drop 256 mem) \<and>
    nm w' (cfg_shm_name config) \<noteq> None \<and> obj w' (shm_ptr shm) = nm w' (cfg_shm_name config)"
proof -
  obtain w0 where "publisher_open os loc config w = (Inr (True, None), w0)"
    using assms(2) by (cases "shm_exists os (cfg_shm_name config) w") (auto simp: publisher_open_def)
  with assms(1) obtain shm w2 where rec: "publisher_recreate os loc config None w0 = (Inr shm, w2)"
    and fin: "publisher_finish os config True shm w2 = Inr (Inr p, w')"
    by (auto simp: Publisher_from_config_def split: prod.splits sum.splits)
  from rec obtain res husk w1 where new: "open_or_create os loc (cfg_shm_name config)
        (cfg_storage_size_bytes config) True w0 = (Inr res, w1)"
    and mv: "SharedMemory_move res = (shm, husk)" and w2: "w2 = SharedMemory_destroy os husk w1"
    by (auto simp: publisher_recreate_def shm_destroy_opt_def Let_def split: prod.splits sum.splits)
  note res = open_or_create_Inr [OF new] open_or_create_object [OF new]
  have shm: "shm_ptr shm = shm_ptr res" "shm_size shm = cfg_storage_size_bytes config"
    using mv res by (auto simp: SharedMemory_move_def SharedMemory_new_def)
  have "keeps os obj nm w1 w2"
    using destroy_emptied [of husk w1] mv res w2 by (auto simp: SharedMemory_move_def)
  then have "nm w2 = nm w1" "obj w2 (shm_ptr shm) = obj w1 (shm_ptr shm)"
    using res shm(1) by (auto simp: keeps_def)
  then show ?thesis
    using finish_fresh [OF fin] shm res by (auto simp: Publisher_new_def)
qed

lemma probe_existing:
  assumes "nm w name \<noteq> None" and "shm_exists os name w = (b, w')"
  shows "keeps os obj nm w w'"
proof -
  let ?w0 = "sys_set_errno os 0 w"
  have "nm ?w0 name \<noteq> None" using assms(1) errno_nothing [of w 0] by (simp add: keeps_def)
  then have "fst (sys_shm_open os name exists_flags shm_mode ?w0) = -1"
    by (intro shm_open_excl) (simp_all add: exists_flags_def)
  then obtain w1 where fail: "sys_shm_open os name exists_flags shm_mode ?w0 = (-1, w1)"
    by (metis prod.collapse)
  then have "w' = w1" using assms(2) by (auto simp: shm_exists_def Let_def split: if_splits)
  then show ?thesis using keeps_trans [OF errno_nothing shm_open_fail [OF fail]] by simp
qed

lemma subscriber_attached:
  assumes "Subscriber_from_config os loc config w = Inr (Inr sb, w')"
    and known: "nm w (cfg_shm_name config) \<noteq> None"
    and a: "a \<noteq> nullptr" "obj w a = nm w (cfg_shm_name config)" "sys_region os a w = Some mem"
  shows "\<exists>shm. sub_config sb = config \<and> sub_shm sb = Some shm \<and>
    sub_queue sb = Some (SPSCQueue_new (shm_ptr shm) (SPSCStorage_at mem)) \<and>
    obj w' (shm_ptr shm) = obj w' a \<and> obj w' a = obj w a \<and> sys_region os a w' = Some mem \<and>
    st_storage_size (SPSCStorage_at mem) = cfg_storage_size_bytes config \<and>
    unat (cfg_storage_size_bytes config) = length mem"
proof -
  obtain w0 res shm husk w1 q where probe: "shm_exists os (cfg_shm_name config) w = (True, w0)"
    and opn: "shm_open_existing os loc (cfg_shm_name config) w0 = (Inr res, w1)"
    and mv: "SharedMemory_move res = (shm, husk)"
    and chk: "subscriber_check os loc config shm w1 = Inr (Inr q)"
    and sb: "sb = Subscriber_new config (Some shm) (Some q)" "w' = SharedMemory_destroy os husk w1"
    using assms(1)
    by (auto simp: Subscriber_from_config_def Let_def split: prod.splits sum.splits if_splits)
  have shm: "shm_ptr shm = shm_ptr res" "shm_size shm = shm_size res"
    using mv by (auto simp: SharedMemory_move_def SharedMemory_new_def)
  note opn' = opn [unfolded shm_open_existing_def]
  note obj1 = open_or_create_object [OF opn']
  have a_ne: "obj w a \<noteq> None" using a(2) known by simp
  have k0: "keeps os obj nm w w0" using probe_existing [OF known probe] .
  have a0: "obj w0 a = nm w0 (cfg_shm_name config)" "nm w0 (cfg_shm_name config) \<noteq> None"
    "sys_region os a w0 = Some mem"
    using keeps_region [OF k0 a(1) a_ne] k0 a known by (simp_all add: keeps_def)
  have len: "unat (shm_size res) = length mem" and k1: "keeps os obj nm w0 w1"
    using open_existing_keeps [OF opn] a(1) a0 by blast+
  have "\<not> shm_created husk"
    using open_or_create_Inr [OF opn'] mv by (auto simp: SharedMemory_move_def)
  then have k2: "keeps os obj nm w1 w'"
    using destroy_emptied [of husk w1] mv sb(2) by (auto simp: SharedMemory_move_def)
  have a1: "obj w1 a = obj w0 a" "sys_region os a w1 = Some mem"
    using keeps_region [OF k1 a(1)] a0 by simp_all
  have same1: "obj w1 (shm_ptr res) = obj w1 a"
    using obj1 a0 a1 k1 by (simp add: keeps_def)
  then have mem1: "sys_region os (shm_ptr res) w1 = Some mem"
    using shared [OF same1] a1 by simp
  have "q = SPSCQueue_new (shm_ptr res) (SPSCStorage_at mem)"
    and size: "cfg_storage_size_bytes config = shm_size res"
    and stored: "st_storage_size (SPSCStorage_at mem) = shm_size res"
    using chk mem1 shm
    by (auto simp: subscriber_check_def SPSCStorage_map_Inr_iff split: if_splits sum.splits)
  moreover have "obj w' a = obj w1 a" "sys_region os a w' = Some mem"
    "obj w' (shm_ptr res) = obj w1 (shm_ptr res)"
    using keeps_region [OF k2 a(1)] keeps_region [OF k2, of "shm_ptr res"] a0 a1 obj1 by simp_all
  moreover have "obj w0 a = obj w a" using keeps_region [OF k0 a(1) a_ne] by simp
  ultimately show ?thesis
    using sb(1) shm len a1 same1 by (simp add: Subscriber_new_def)
qed

text \<open>A publisher that created its object and a subscriber of the same name share an empty queue.\<close>

lemma connect:
  assumes pub: "Publisher_from_config os loc config w = Inr (Inr p, w1)"
    and fresh: "\<not> fst (shm_exists os (cfg_shm_name config) w)"
    and sub: "Subscriber_from_config os loc' config' w1 = Inr (Inr sb, w2)"
    and name: "cfg_shm_name config' = cfg_shm_name config"
    and size: "8 dvd unat (cfg_storage_size_bytes config)" "272 \<le> unat (cfg_storage_size_bytes config)"
      "unat (cfg_storage_size_bytes config) < 2 ^ 63"
  shows "cfg_storage_size_bytes config' = cfg_storage_size_bytes config \<and>
    pubsub_rep os obj p sb (unat (cfg_storage_size_bytes config) - 256) T w2 []"
proof -
  let ?sz = "cfg_storage_size_bytes config"
  obtain shm :: SharedMemory and q mem where p: "pub_queue p = Some q" "q = SPSCQueue_new (shm_ptr shm) (SPSCStorage_at mem)"
    and ptr: "shm_ptr shm \<noteq> nullptr" "sys_region os (shm_ptr shm) w1 = Some mem" "256 \<le> length mem"
    and at: "SPSCStorage_at mem = SPSCStorage_new ?sz (drop 256 mem)"
    and obj: "nm w1 (cfg_shm_name config) \<noteq> None" "obj w1 (shm_ptr shm) = nm w1 (cfg_shm_name config)"
    using publisher_fresh [OF pub fresh] by blast
  obtain shm2 :: SharedMemory where s: "sub_queue sb = Some (SPSCQueue_new (shm_ptr shm2) (SPSCStorage_at mem))"
    and obj2: "obj w2 (shm_ptr shm2) = obj w2 (shm_ptr shm)"
    and mem2: "sys_region os (shm_ptr shm) w2 = Some mem"
    and size2: "st_storage_size (SPSCStorage_at mem) = cfg_storage_size_bytes config'"
      "unat (cfg_storage_size_bytes config') = length mem"
    using subscriber_attached [OF sub] name obj ptr by metis
  have eq: "cfg_storage_size_bytes config' = ?sz" using size2(1) at by simp
  have wf: "wf_storage (SPSCStorage_at mem)"
    using size size2(2) eq at by (simp add: wf_storage_def dvd_diff_nat)
  then have "queue_rep (SPSCStorage_at mem) []" using fresh_ring at by metis
  then have "uniform_rep q (unat ?sz - 256) T (SPSCStorage_at mem) []"
    using p size2(2) eq at
    by (simp add: uniform_rep_def attached_def SPSCQueue_new_def)
  then show ?thesis
    unfolding pubsub_rep_def using p s obj2 mem2 ptr(3) eq
    by (auto simp: SPSCQueue_new_def attached_def)
qed

end

section \<open>Resources of the two ends\<close>

context posix_resources
begin

lemma husk_destroy:
  assumes "SharedMemory_move res = (shm, husk)"
  shows "shm_fd shm = shm_fd res" "shm_ptr shm = shm_ptr res" "shm_size shm = shm_size res"
    "fds (SharedMemory_destroy os husk w) = fds w" "maps (SharedMemory_destroy os husk w) = maps w"
  using assms moved_from_destroy [OF assms] by (auto simp: SharedMemory_move_def SharedMemory_new_def)

lemma subscriber_ok:
  assumes "0 \<in> fds w" and "Subscriber_from_config os loc config w = Inr (Inr sb, w')"
  shows "\<exists>shm v mem. sub_shm sb = Some shm \<and> shm_size shm = cfg_storage_size_bytes config \<and>
    sys_region os (shm_ptr shm) v = Some mem \<and>
    SPSCStorage_map loc (shm_ptr shm) (shm_size shm) mem = Inr (shm_ptr shm) \<and>
    sub_queue sb = Some (SPSCQueue_new (shm_ptr shm) (SPSCStorage_at mem)) \<and>
    fds w' = insert (shm_fd shm) (fds w) \<and> shm_fd shm \<notin> fds w \<and>
    maps w' = insert (shm_ptr shm) (maps w) \<and> shm_ptr shm \<notin> maps w"
proof -
  obtain w0 res shm husk w1 q where probe: "shm_exists os (cfg_shm_name config) w = (True, w0)"
    and opn: "open_or_create os loc (cfg_shm_name config) 0 False w0 = (Inr res, w1)"
    and mv: "SharedMemory_move res = (shm, husk)"
    and chk: "subscriber_check os loc config shm w1 = Inr (Inr q)"
    and sb: "sb = Subscriber_new config (Some shm) (Some q)" "w' = SharedMemory_destroy os husk w1"
    using assms(2)
    by (auto simp: Subscriber_from_config_def shm_open_existing_def Let_def
        split: prod.splits sum.splits if_splits)
  from chk obtain mem where "cfg_storage_size_bytes config = shm_size shm"
    "sys_region os (shm_ptr shm) w1 = Some mem"
    "SPSCStorage_map loc (shm_ptr shm) (shm_size shm) mem = Inr (shm_ptr shm)"
    "q = SPSCQueue_new (shm_ptr shm) (SPSCStorage_at mem)"
    by (auto simp: subscriber_check_def SPSCStorage_map_Inr_iff split: if_splits sum.splits option.splits)
  then show ?thesis
    using exists_keeps [OF assms(1) probe] open_or_create_ok [OF opn] husk_destroy [OF mv] sb
    by (auto simp: Subscriber_new_def)
qed

lemma subscriber_failed:
  assumes "0 \<in> fds w" and "Subscriber_from_config os loc config w = Inr (Inl e, w')"
  shows "fds w' = fds w \<and> maps w' = maps w"
proof -
  obtain b w0 where probe: "shm_exists os (cfg_shm_name config) w = (b, w0)"
    by (cases "shm_exists os (cfg_shm_name config) w")
  note k = exists_keeps [OF assms(1) probe]
  show ?thesis
  proof (cases b)
    case False
    then show ?thesis using assms(2) probe k by (simp add: Subscriber_from_config_def)
  next
    case True
    obtain r w1 where opn: "open_or_create os loc (cfg_shm_name config) 0 False w0 = (r, w1)"
      by (cases "open_or_create os loc (cfg_shm_name config) 0 False w0")
    show ?thesis
    proof (cases r)
      case (Inl e')
      then have "w' = w1"
        using assms(2) probe True opn by (simp add: Subscriber_from_config_def shm_open_existing_def)
      then show ?thesis using open_or_create_failed [of loc _ 0 False w0] opn Inl k by auto
    next
      case (Inr res)
      obtain shm husk where mv: "SharedMemory_move res = (shm, husk)"
        by (cases "SharedMemory_move res")
      then have "w' = SharedMemory_destroy os husk (SharedMemory_destroy os shm w1)"
        using assms(2) probe True opn Inr
        by (auto simp: Subscriber_from_config_def shm_open_existing_def split: sum.splits)
      then show ?thesis
        using open_or_create_ok [OF opn [unfolded Inr]] husk_destroy [OF mv] k
        by (auto simp: destroy_effect)
    qed
  qed
qed

text \<open>The descriptors and mappings held for the object of a \<^verbatim>\<open>std::unique_ptr\<close>.\<close>

lemma publisher_open_holds:
  assumes "0 \<in> fds w" and "publisher_open os loc config w = (r, w')"
  shows "case r of
      Inr (b, Some shm) \<Rightarrow> shm_fd shm \<notin> fds w \<and> fds w' = insert (shm_fd shm) (fds w) \<and>
        shm_ptr shm \<notin> maps w \<and> maps w' = insert (shm_ptr shm) (maps w) \<and>
        (b \<longleftrightarrow> cfg_storage_size_bytes config \<noteq> shm_size shm)
    | Inr (b, None) \<Rightarrow> b \<and> fds w' = fds w \<and> maps w' = maps w
    | Inl e \<Rightarrow> fds w' = fds w \<and> maps w' = maps w"
proof -
  obtain b w0 where probe: "shm_exists os (cfg_shm_name config) w = (b, w0)"
    by (cases "shm_exists os (cfg_shm_name config) w")
  note k = exists_keeps [OF assms(1) probe]
  obtain r1 w1 where opn: "open_or_create os loc (cfg_shm_name config) 0 False w0 = (r1, w1)"
    by (cases "open_or_create os loc (cfg_shm_name config) 0 False w0")
  show ?thesis
  proof (cases "b", cases r1)
    case (Inl e)
    with opn open_or_create_failed [of loc "cfg_shm_name config" 0 False w0 e w1]
    show "b \<Longrightarrow> ?thesis"
      using assms(2) probe k by (auto simp: publisher_open_def shm_open_existing_def)
  next
    case (Inr res)
    obtain shm husk where mv: "SharedMemory_move res = (shm, husk)" by (cases "SharedMemory_move res")
    show "b \<Longrightarrow> ?thesis"
      using assms(2) probe k opn Inr mv open_or_create_ok [OF opn [unfolded Inr]] husk_destroy [OF mv]
      by (auto simp: publisher_open_def shm_open_existing_def)
  qed (use assms(2) probe k in \<open>auto simp: publisher_open_def\<close>)
qed

lemma publisher_recreate_ok:
  assumes "publisher_recreate os loc config old w1 = (Inr shm, w2)"
    and "case old of None \<Rightarrow> fds w1 = fds w \<and> maps w1 = maps w
      | Some m \<Rightarrow> shm_fd m \<notin> fds w \<and> fds w1 = insert (shm_fd m) (fds w) \<and>
          shm_ptr m \<notin> maps w \<and> maps w1 = insert (shm_ptr m) (maps w)"
  shows "shm_fd shm \<notin> fds w \<and> fds w2 = insert (shm_fd shm) (fds w) \<and> shm_ptr shm \<notin> maps w \<and>
    maps w2 = insert (shm_ptr shm) (maps w) \<and> shm_size shm = cfg_storage_size_bytes config"
proof -
  from assms(1) obtain res husk v where new: "open_or_create os loc (cfg_shm_name config)
        (cfg_storage_size_bytes config) True w1 = (Inr res, v)"
    and mv: "SharedMemory_move res = (shm, husk)"
    and w2: "w2 = SharedMemory_destroy os husk (shm_destroy_opt os old v)"
    by (auto simp: publisher_recreate_def Let_def split: prod.splits sum.splits)
  have "fds w2 = fds (shm_destroy_opt os old v)" "maps w2 = maps (shm_destroy_opt os old v)"
    using w2 husk_destroy(4,5) [OF mv] by simp_all
  then show ?thesis
    using open_or_create_ok [OF new] open_or_create_Inr [OF new] husk_destroy(1-3) [OF mv] assms(2)
    by (cases old) (auto simp: shm_destroy_opt_def destroy_effect)
qed

lemma publisher_recreate_failed:
  assumes "publisher_recreate os loc config old w1 = (Inl e, w2)"
    and "cfg_storage_size_bytes config \<noteq> 0"
    and "case old of None \<Rightarrow> fds w1 = fds w \<and> maps w1 = maps w
      | Some m \<Rightarrow> shm_fd m \<notin> fds w \<and> fds w1 = insert (shm_fd m) (fds w) \<and>
          shm_ptr m \<notin> maps w \<and> maps w1 = insert (shm_ptr m) (maps w)"
  shows "fds w2 = fds w \<and> maps w2 = maps w"
proof -
  from assms(1) obtain v where new: "open_or_create os loc (cfg_shm_name config)
        (cfg_storage_size_bytes config) True w1 = (Inl e, v)" and w2: "w2 = shm_destroy_opt os old v"
    by (auto simp: publisher_recreate_def Let_def split: prod.splits sum.splits)
  show ?thesis
    using open_or_create_failed [OF new] assms(2,3) w2
    by (cases old) (auto simp: shm_destroy_opt_def destroy_effect)
qed

lemma publisher_finish_holds:
  assumes "publisher_finish os config b shm w = Inr (r, w')"
  shows "fds w' = fds w \<and> maps w' = maps w \<and>
    (\<exists>q. r = Inr (Publisher_new config (Some shm) (Some q)) \<and> q_storage q = shm_ptr shm)"
  using assms
  by (auto simp: publisher_finish_def publisher_queue_def store_keeps SPSCQueue_new_def
      split: option.splits sum.splits prod.splits if_splits)

lemma publisher_resources:
  assumes "0 \<in> fds w" and "Publisher_from_config os loc config w = Inr (r, w')"
  shows "case r of
      Inr p \<Rightarrow> (\<exists>shm q. pub_config p = config \<and> pub_shm p = Some shm \<and> pub_queue p = Some q \<and>
        q_storage q = shm_ptr shm \<and> shm_size shm = cfg_storage_size_bytes config \<and>
        shm_fd shm \<notin> fds w \<and> fds w' = insert (shm_fd shm) (fds w) \<and>
        shm_ptr shm \<notin> maps w \<and> maps w' = insert (shm_ptr shm) (maps w))
    | Inl e \<Rightarrow> cfg_storage_size_bytes config \<noteq> 0 \<longrightarrow> fds w' = fds w \<and> maps w' = maps w"
proof -
  obtain ro w1 where opn: "publisher_open os loc config w = (ro, w1)"
    by (cases "publisher_open os loc config w")
  note held = publisher_open_holds [OF assms(1) opn]
  show ?thesis
  proof (cases "\<exists>old. ro = Inr (True, old)")
    case True
    then obtain old where ro: "ro = Inr (True, old)" by blast
    have old: "case old of None \<Rightarrow> fds w1 = fds w \<and> maps w1 = maps w
      | Some m \<Rightarrow> shm_fd m \<notin> fds w \<and> fds w1 = insert (shm_fd m) (fds w) \<and>
          shm_ptr m \<notin> maps w \<and> maps w1 = insert (shm_ptr m) (maps w)"
      using held ro by (auto split: option.splits)
    obtain rr w2 where rec: "publisher_recreate os loc config old w1 = (rr, w2)"
      by (cases "publisher_recreate os loc config old w1")
    show ?thesis
    proof (cases rr)
      case (Inl e)
      then show ?thesis
        using assms(2) opn ro rec publisher_recreate_failed [OF _ _ old]
        by (auto simp: Publisher_from_config_def)
    next
      case (Inr shm)
      then have "publisher_finish os config True shm w2 = Inr (r, w')"
        using assms(2) opn ro rec by (simp add: Publisher_from_config_def)
      from publisher_finish_holds [OF this] show ?thesis
        using publisher_recreate_ok [OF _ old] rec Inr by (auto simp: Publisher_new_def)
    qed
  next
    case False
    show ?thesis
    proof (cases ro)
      case (Inl e)
      then show ?thesis using assms(2) opn held by (auto simp: Publisher_from_config_def)
    next
      case (Inr x)
      then obtain shm where ro: "ro = Inr (False, Some shm)"
        using False held by (cases x) (auto split: option.splits)
      then have "publisher_finish os config False shm w1 = Inr (r, w')"
        using assms(2) opn by (simp add: Publisher_from_config_def)
      from publisher_finish_holds [OF this] show ?thesis
        using held ro by (auto simp: Publisher_new_def)
    qed
  qed
qed

end

section \<open>Properties\<close>

text \<open>A publisher and a subscriber of the same name, created one after the other.\<close>

definition pair_up :: "u64 \<Rightarrow> (Publisher \<times> Subscriber \<times> kern \<times> kern) option" where
  "pair_up sz =
     (case Publisher_from_config kernel_os loc0 (PubSubConfig_new ''/q'' sz) (boot 3) of
        Inr (Inr p, w1) \<Rightarrow>
          (case Subscriber_from_config kernel_os loc0 (PubSubConfig_new ''/q'' sz) w1 of
             Inr (Inr sb, w2) \<Rightarrow> Some (p, sb, w1, w2)
           | _ \<Rightarrow> None)
      | _ \<Rightarrow> None)"

lemma pair_up_Some:
  "pair_up sz = Some (p, sb, w1, w2) \<longleftrightarrow>
     Publisher_from_config kernel_os loc0 (PubSubConfig_new ''/q'' sz) (boot 3) = Inr (Inr p, w1) \<and>
     Subscriber_from_config kernel_os loc0 (PubSubConfig_new ''/q'' sz) w1 = Inr (Inr sb, w2)"
  by (auto simp: pair_up_def split: sum.splits prod.splits)

lemma pair_up_320: "\<exists>p sb w1 w2. pair_up 320 = Some (p, sb, w1, w2)"
proof -
  have "pair_up 320 \<noteq> None" by code_simp
  then show ?thesis by auto
qed

lemma created_Inr:
  "(case x of Inr (Inr p, w) \<Rightarrow> P p w | _ \<Rightarrow> False) \<Longrightarrow> \<exists>p w. x = Inr (Inr p, w) \<and> P p w"
  by (cases x) (auto split: prod.splits sum.splits elim!: sum.exhaust)

lemma boot_no_object: "\<not> fst (shm_exists kernel_os name (boot 3))"
  by (simp add: shm_exists_def kernel_os_def kern_defs boot_def exists_flags_def EEXIST_def Let_def)








end
