(* ===== verification/SPSC_Correct.thy ===== *)
theory SPSC_Correct
  imports SPSC_Client
begin

text \<open>
  What the queue guarantees: memory safety of every call on a well-formed ring, the first-in
  first-out behaviour and the case in which it fails, when a message is refused, the observers, and
  termination of the consumer's retry loop.
\<close>

section \<open>Construction\<close>

lemma create_wf:
  assumes "SPSCQueue_create loc p s = Inr q"
    and "unat (st_storage_size s) = 256 + length (st_buffer s)" and "unat (st_storage_size s) < 2 ^ 63"
  shows "wf_storage s \<and> attached q s \<and> q = SPSCQueue_new p s"
proof -
  have B: "unat (buffer_size s) = length (st_buffer s)"
    using assms(2) by (simp add: unat_buffer_size)
  have "unat (next_index 0 (8 + 8)) = 16"
    by (subst unat_next_index) (simp_all add: align8_def)
  then have "8 dvd length (st_buffer s)" and "16 \<le> length (st_buffer s)" and "q = SPSCQueue_new p s"
    using assms(1) B
    by (auto simp: SPSCQueue_create_def Let_def word_less_nat_alt u64_eq_iff unat_mod_u64 mod_eq_0_iff_dvd
        split: if_splits)
  then show ?thesis
    using assms(2,3) by (simp add: wf_storage_def attached_def SPSCQueue_new_def)
qed

section \<open>Overtaking in general\<close>

text \<open>
  Even when a message overtakes unread ones, the ring stays well formed: what follows the first run
  is one message of the new length.
\<close>

lemma put_overtaking_shape:
  assumes ok: "ring_ok buf r w m" and runs: "runs buf r w ms" and over: "overtakes buf r w m"
  shows "\<exists>ms1 ms2 m'. ms = ms1 @ ms2 \<and> ms2 \<noteq> [] \<and> length m' = length m \<and>
    (msg_space m \<le> w \<longrightarrow> m' = m) \<and>
    runs (mem_splice (place 0 m buf) w (replicate 8 0)) r (msg_space m) (ms1 @ [m'])"
proof (cases "msg_space m \<le> w")
  case True
  then show ?thesis
    using put_overtaking [OF ok runs over] by blast
next
  case False
  let ?buf = "mem_splice (place 0 m buf) w (replicate 8 0)"
  have fits: "0 + 8 + length m \<le> length buf" and "0 + 8 + length m \<le> r" and "w < r" "w + 8 \<le> r"
    and room: "msg_space m < r"
    using over msg_space_bounds [of m] m_fits [OF ok] by (auto simp: overtakes_def)
  have len: "length ?buf = length buf"
    using sentinel_fits [OF ok] fits by (simp add: length_mem_splice)
  from runs show ?thesis
  proof (cases rule: runs_cases)
    case (wrapped ms1 ms2 e)
    let ?m = "mem_slice ?buf 8 (length m)"
    have "8 \<le> w"
      using wrapped seg_le [of buf 0 ms2 w] by (cases ms2) auto
    have "r \<le> e" using wrapped seg_le' by blast
    have "seg ?buf r ms1 e"
      using wrapped \<open>0 + 8 + length m \<le> r\<close> fits sentinel_fits [OF ok] \<open>w + 8 \<le> r\<close>
      by (intro seg_sentinel seg_place_other) auto
    moreover have "header_at ?buf 0 = length m"
      using seg_placed [OF ok, of 0] fits sentinel_fits [OF ok] \<open>8 \<le> w\<close>
      by (subst header_splice) auto
    then have "seg ?buf 0 [?m] (msg_space m)"
      using fits len m_ne [OF ok] length_mem_slice [of 8 "length m" ?buf]
      by (auto simp: msg_space_def)
    moreover have "header_at ?buf e = 0"
      using wrapped \<open>0 + 8 + length m \<le> r\<close> fits sentinel_fits [OF ok] \<open>w + 8 \<le> r\<close> \<open>r \<le> e\<close>
      by (subst header_splice) (auto simp: header_place_other)
    ultimately have "runs ?buf r (msg_space m) (ms1 @ [?m])"
      using wrapped room len by (intro runs_wrappedI) auto
    moreover have "length ?m = length m"
      using fits len by (simp add: length_mem_slice)
    ultimately show ?thesis
      using wrapped False by blast
  qed (use \<open>w < r\<close> in simp)
qed

lemma overtakes_put:
  "overtakes buf r w m \<Longrightarrow>
     ring_put buf r w m = Some (mem_splice (place 0 m buf) w (replicate 8 0), msg_space m)"
  by (auto simp: overtakes_def ring_put_def Let_def)

lemma enqueue_overtaking:
  assumes rep: "ring_rep s ms" and att: "attached q s" and pay: "payload_is h msg m"
    and adm: "admissible s m" and over: "overtaking s m"
  shows "\<exists>s' ms1 ms2 m'. enqueue q h msg s = Inr (True, s') \<and> ms = ms1 @ ms2 \<and> ms2 \<noteq> [] \<and>
    length m' = length m \<and> (msg_space m \<le> unat (st_write_ix s) \<longrightarrow> m' = m) \<and>
    ring_rep s' (ms1 @ [m']) \<and> st_msg_count s' = st_msg_count s + 1"
proof -
  let ?r = "unat (st_read_ix s)" and ?w = "unat (st_write_ix s)"
  let ?buf = "mem_splice (place 0 m (st_buffer s)) ?w (replicate 8 0)"
  have ov: "overtakes (st_buffer s) ?r ?w m" using over by (simp add: overtaking_def)
  have put: "ring_put (st_buffer s) ?r ?w m = Some (?buf, msg_space m)"
    using ov by (rule overtakes_put)
  have "runs (st_buffer s) ?r ?w ms" using rep by (simp add: ring_rep_def)
  from put_overtaking_shape [OF ring_rep_ok [OF rep adm] this ov]
  obtain ms1 ms2 m' where ms: "ms = ms1 @ ms2" "ms2 \<noteq> []" "length m' = length m"
      "msg_space m \<le> ?w \<longrightarrow> m' = m" and "runs ?buf ?r (msg_space m) (ms1 @ [m'])"
    by blast
  from put_result_ring [OF rep adm put this(5)]
  have "ring_rep (snd (put_result s (Some (?buf, msg_space m)))) (ms1 @ [m'])" .
  then show ?thesis
    using ms enqueue_ring_put [OF rep att pay adm] put by (auto simp: put_result_def)
qed

section \<open>Properties\<close>

text \<open>
  C6: memory safety of \<^verbatim>\<open>enqueue\<close>. On any well-formed ring a call either stops at one of the two
  assertions, exactly when the payload is empty or larger than half the buffer less the header, or
  returns; it never writes outside the buffer, and the ring it leaves is well formed again.
\<close>

theorem enqueue_memory_safe:
  assumes "ring_rep s ms" and "attached q s" and "payload_is h msg m"
  shows "(m = [] \<longrightarrow> enqueue q h msg s =
            Inl (AssertFailed ''Message payload size must be greater than 0 bytes'')) \<and>
         (m \<noteq> [] \<and> length (st_buffer s) div 2 < length m + 8 \<longrightarrow>
            enqueue q h msg s = Inl (AssertFailed ''Message payload too large'')) \<and>
         (m \<noteq> [] \<and> length m + 8 \<le> length (st_buffer s) div 2 \<longrightarrow>
            (\<exists>b s' ms'. enqueue q h msg s = Inr (b, s') \<and> attached q s' \<and> ring_rep s' ms' \<and>
               length (st_buffer s') = length (st_buffer s)))"
proof (intro conjI impI)
  have wf: "wf_storage s" using assms(1) by (simp add: ring_rep_def)
  show "enqueue q h msg s = Inl (AssertFailed ''Message payload size must be greater than 0 bytes'')"
    if "m = []"
    using that enqueue_asserts [OF wf assms(2,3)] by simp
  show "enqueue q h msg s = Inl (AssertFailed ''Message payload too large'')"
    if "m \<noteq> [] \<and> length (st_buffer s) div 2 < length m + 8"
    using that enqueue_asserts [OF wf assms(2,3)] by (simp add: admissible_def)
  assume "m \<noteq> [] \<and> length m + 8 \<le> length (st_buffer s) div 2"
  then have adm: "admissible s m" by (simp add: admissible_def)
  show "\<exists>b s' ms'. enqueue q h msg s = Inr (b, s') \<and> attached q s' \<and> ring_rep s' ms' \<and>
          length (st_buffer s') = length (st_buffer s)"
  proof (cases "overtaking s m")
    case True
    from enqueue_overtaking [OF assms adm True]
    obtain s' ms' where enq: "enqueue q h msg s = Inr (True, s')" and "ring_rep s' ms'" by blast
    moreover have "attached q s' \<and> length (st_buffer s') = length (st_buffer s)"
      using enq assms(2) enqueue_ring_put [OF assms adm]
        ring_put_bounds [OF ring_rep_ok [OF assms(1) adm]]
      by (auto simp: put_result_def attached_def buffer_size_def calc_max_message_size_def
          split: option.splits)
    ultimately show ?thesis by blast
  next
    case False
    then show ?thesis
      using enqueue_ring [OF assms adm False] assms(1) by (metis (full_types))
  qed
qed

definition demo_storage :: SPSCStorage where
  "demo_storage = SPSCStorage_new 320 (replicate 64 0)"

definition demo_queue :: SPSCQueue where
  "demo_queue = SPSCQueue_new 4096 demo_storage"

lemma demo_wf: "wf_storage demo_storage" and demo_attached: "attached demo_queue demo_storage"
  by (simp_all add: wf_storage_def attached_def demo_storage_def demo_queue_def SPSCQueue_new_def)

lemma demo_rep: "queue_rep demo_storage []"
  using fresh_ring demo_wf by (simp add: demo_storage_def)

lemma demo_ring: "ring_rep demo_storage []"
  using demo_rep by (simp add: queue_rep_def)

lemma demo_buffer: "length (st_buffer demo_storage) = 64"
  by (simp add: demo_storage_def)

lemma demo_create: "SPSCQueue_create loc0 4096 (SPSCStorage_new 320 (replicate 64 0)) = Inr demo_queue"
  by (simp add: SPSCQueue_create_def demo_queue_def demo_storage_def buffer_size_def next_index_def
      layout_defs)

theorem enqueue_memory_safe_witness:
  "\<exists>b s'. enqueue demo_queue [8192 \<mapsto> [1, 2, 3]] (Message_borrows 8192 3) demo_storage = Inr (b, s')"
proof -
  have "payload_is [8192 \<mapsto> [1, 2, 3]] (Message_borrows 8192 3) [1, 2, 3]"
    using payload_borrows [of "[1, 2, 3]" 8192] by simp
  from enqueue_memory_safe [OF demo_ring demo_attached this]
  show ?thesis by (auto simp: demo_buffer)
qed

text \<open>
  C3: one call of \<^verbatim>\<open>enqueue\<close> is one step of a bounded first-in first-out queue: an accepted
  message is appended, a refused one leaves the storage untouched, as long as the message does not
  overtake. The message counter keeps counting the contents.
\<close>

theorem enqueue_refines_append:
  assumes "queue_rep s ms" and "attached q s" and "payload_is h msg m"
    and "admissible s m" and "\<not> overtaking s m"
  shows "\<exists>b s'. enqueue q h msg s = Inr (b, s') \<and>
    (if b then queue_rep s' (ms @ [m]) \<and> unat (queue_size s') = length ms + 1 else s' = s)"
proof -
  from enqueue_queue [OF assms] obtain b s' where enq: "enqueue q h msg s = Inr (b, s')"
    and res: "if b then queue_rep s' (ms @ [m]) else s' = s" by blast
  have "unat (queue_size s') = length ms + 1" if "queue_rep s' (ms @ [m])"
    using queue_rep_count [OF that] by simp
  with enq res show ?thesis by (intro exI [of _ b] exI [of _ s']) (cases b; simp)
qed

theorem enqueue_refines_append_witness:
  "\<exists>s'. enqueue demo_queue [8192 \<mapsto> [1, 2, 3]] (Message_borrows 8192 3) demo_storage = Inr (True, s') \<and>
     queue_rep s' [[1, 2, 3]]"
proof -
  have pay: "payload_is [8192 \<mapsto> [1, 2, 3]] (Message_borrows 8192 3) [1, 2, 3]"
    using payload_borrows [of "[1, 2, 3]" 8192] by simp
  have "admissible demo_storage [1, 2, 3]" and "\<not> overtaking demo_storage [1, 2, 3]"
    by (simp_all add: admissible_def overtaking_def overtakes_def demo_storage_def)
  from enqueue_refines_append [OF demo_rep demo_attached pay this]
  obtain b s' where enq: "enqueue demo_queue [8192 \<mapsto> [1, 2, 3]] (Message_borrows 8192 3) demo_storage = Inr (b, s')"
    and res: "if b then queue_rep s' ([] @ [[1, 2, 3]]) else s' = demo_storage"
    by (auto split: if_splits)
  moreover have "b"
    using enq enqueue_ring_put [OF demo_ring demo_attached pay \<open>admissible demo_storage [1, 2, 3]\<close>]
    by (simp add: ring_put_def put_result_def Let_def msg_space_def align8_def demo_storage_def)
  ultimately show ?thesis by auto
qed

text \<open>
  C4: the consumer gets the oldest message. On a queue with contents \<open>m # ms\<close>,
  \<^verbatim>\<open>dequeue_begin\<close> returns (after skipping a sentinel if there is one) a non-empty view whose bytes
  are \<open>m\<close>, leaving the contents as they are, so that a second call returns the same view;
  \<^verbatim>\<open>dequeue_commit\<close> of that view removes exactly \<open>m\<close>. On an empty queue the view is empty and
  nothing changes.
\<close>

theorem dequeue_returns_oldest:
  "(queue_rep s (m # ms) \<longrightarrow>
     (\<exists>v s'. dequeue_begin q s = Some (Inr (v, s')) \<and> \<not> view_empty v \<and>
        view_bytes q s' v = Some m \<and> queue_rep s' (m # ms) \<and>
        dequeue_begin q s' = Some (Inr (v, s')) \<and> queue_rep (dequeue_commit v s') ms)) \<and>
   (queue_rep s [] \<longrightarrow> dequeue_begin q s = Some (Inr (MessageView_default, s)) \<and>
      view_empty MessageView_default)"
proof (intro conjI impI)
  assume rep: "queue_rep s (m # ms)"
  then have ring: "ring_rep s (m # ms)" by (simp add: queue_rep_def)
  have ne: "\<not> view_empty (head_view q s m)"
    using ring by (rule head_view_nonempty)
  have again: "skip_sentinel (skip_sentinel s) = skip_sentinel s"
    using ring by (rule skip_sentinel_idem)
  then have "dequeue_begin q (skip_sentinel s) = Some (Inr (head_view q s m, skip_sentinel s))"
    using dequeue_begin_head [OF ring_rep_skip [OF ring], where q = q] by (simp add: head_view_def)
  then show "\<exists>v s'. dequeue_begin q s = Some (Inr (v, s')) \<and> \<not> view_empty v \<and>
      view_bytes q s' v = Some m \<and> queue_rep s' (m # ms) \<and>
      dequeue_begin q s' = Some (Inr (v, s')) \<and> queue_rep (dequeue_commit v s') ms"
    using dequeue_begin_head [OF ring] ne head_view_bytes [OF ring] queue_rep_skip [OF rep]
      dequeue_commit_queue [OF rep] by blast
next
  assume "queue_rep s []"
  then show "dequeue_begin q s = Some (Inr (MessageView_default, s))"
    by (simp add: queue_rep_def dequeue_begin_empty)
  show "view_empty MessageView_default"
    by (simp add: view_empty_def MessageView_default_def)
qed

theorem dequeue_returns_oldest_witness:
  "dequeue_begin demo_queue demo_storage = Some (Inr (MessageView_default, demo_storage))"
  using dequeue_returns_oldest [of demo_storage "[]" "[]" demo_queue] demo_rep by blast

text \<open>
  C1: end to end, for clients whose messages take equal space. On a queue created over fresh
  storage, any sequence of sends and receives delivers the accepted messages in order, without
  loss, duplication or corruption: what was accepted is what was received followed by what is still
  in the queue, and receiving as often as there are messages left delivers exactly those.
\<close>

theorem spsc_uniform_fifo:
  assumes create: "SPSCQueue_create loc p (SPSCStorage_new sz buf) = Inr q"
    and size: "unat sz = 256 + length buf" "unat sz < 2 ^ 63"
    and msgs: "\<forall>m \<in> pushed ops. m \<noteq> [] \<and> length m + 8 \<le> length buf div 2 \<and> msg_space m = T"
    and run: "run_ops (spsc_push q a) (spsc_pop q) ops (SPSCStorage_new sz buf) = (acc, rcv, t)"
  shows "\<exists>rest t'. acc = rcv @ rest \<and> queue_rep t rest \<and>
    run_ops (spsc_push q a) (spsc_pop q) (replicate (length rest) Pop) t = ([], rest, t')"
proof -
  have "wf_storage (SPSCStorage_new sz buf)" and att: "attached q (SPSCStorage_new sz buf)"
    using create_wf [OF create] size by auto
  then have init: "uniform_rep q (length buf) T (SPSCStorage_new sz buf) []"
    using fresh_ring by (simp add: uniform_rep_def)
  have "\<forall>m \<in> pushed ops. uniform_ok (length buf) T m"
    using msgs by (simp add: uniform_ok_def)
  from uniform_spsc.run_fifo [OF init this run]
  obtain rest where rest: "uniform_rep q (length buf) T t rest" "acc = rcv @ rest" by auto
  with uniform_spsc.drain [OF rest(1), where p = a] show ?thesis
    by (auto simp: uniform_rep_def)
qed

theorem spsc_uniform_fifo_witness:
  "\<exists>rest acc rcv t. run_ops (spsc_push demo_queue 8192) (spsc_pop demo_queue)
     [Push [1, 2, 3], Push [4], Pop, Push [5, 6]] demo_storage = (acc, rcv, t) \<and> acc = rcv @ rest"
proof -
  obtain acc rcv t where run: "run_ops (spsc_push demo_queue 8192) (spsc_pop demo_queue)
     [Push [1, 2, 3], Push [4], Pop, Push [5, 6]] (SPSCStorage_new 320 (replicate 64 0)) = (acc, rcv, t)"
    by (cases "run_ops (spsc_push demo_queue 8192) (spsc_pop demo_queue)
     [Push [1, 2, 3], Push [4], Pop, Push [5, 6]] (SPSCStorage_new 320 (replicate 64 0))") auto
  from spsc_uniform_fifo [OF demo_create _ _ _ run, of 16]
  show ?thesis
    using run by (simp add: msg_space_def align8_def demo_storage_def) blast
qed

text \<open>
  C14: when a message is refused. The call returns \<open>false\<close> exactly when the space the message
  takes (header, payload and padding to a multiple of 8) neither ends strictly before the end of
  the buffer without reaching the reader, nor, wrapping around, ends strictly before the reader
  with room for the sentinel.
\<close>

theorem enqueue_refused_iff:
  assumes "ring_rep s ms" and "attached q s" and "payload_is h msg m" and "admissible s m"
  defines "r \<equiv> unat (st_read_ix s)" and "w \<equiv> unat (st_write_ix s)" and "T \<equiv> msg_space m"
  shows "enqueue q h msg s = Inr (False, s) \<longleftrightarrow>
    (if w + T < length (st_buffer s) then w < r \<and> r \<le> w + T
     else r \<le> T \<or> w < r \<and> r \<le> w + 8)"
  unfolding r_def w_def T_def enqueue_ring_put [OF assms(1-4)]
  by (auto simp: put_result_def ring_put_def Let_def)

theorem enqueue_refused_iff_witness:
  "\<exists>b s'. enqueue demo_queue [8192 \<mapsto> [1, 2, 3]] (Message_borrows 8192 3) demo_storage = Inr (b, s') \<and>
     enqueue demo_queue [8192 \<mapsto> [1, 2, 3]] (Message_borrows 8192 3) demo_storage \<noteq> Inr (False, demo_storage)"
proof -
  have pay: "payload_is [8192 \<mapsto> [1, 2, 3]] (Message_borrows 8192 3) [1, 2, 3]"
    using payload_borrows [of "[1, 2, 3]" 8192] by simp
  have adm: "admissible demo_storage [1, 2, 3]"
    by (simp add: admissible_def demo_storage_def)
  have "enqueue demo_queue [8192 \<mapsto> [1, 2, 3]] (Message_borrows 8192 3) demo_storage \<noteq> Inr (False, demo_storage)"
    using enqueue_refused_iff [OF demo_ring demo_attached pay adm]
    by (simp add: demo_storage_def msg_space_def align8_def)
  then show ?thesis
    using enqueue_ring_put [OF demo_ring demo_attached pay adm] by (metis surj_pair)
qed

lemma enqueue_empty:
  assumes "queue_rep s []" and "attached q s" and "payload_is h msg m" and "m \<noteq> []"
    and "2 * msg_space m < length (st_buffer s)"
  shows "\<exists>s'. enqueue q h msg s = Inr (True, s') \<and> queue_rep s' [m]"
proof -
  have ring: "ring_rep s []" using assms(1) by (simp add: queue_rep_def)
  then have rw: "st_read_ix s = st_write_ix s"
    using runs_empty_iff by (fastforce simp: ring_rep_def u64_eq_iff)
  have adm: "admissible s m"
    using assms(4,5) msg_space_bounds [of m] by (simp add: admissible_def)
  have "\<not> overtaking s m" using rw by (simp add: overtaking_def overtakes_def)
  from enqueue_queue [OF assms(1-3) adm this]
  obtain b s' where enq: "enqueue q h msg s = Inr (b, s')"
    and res: "if b then queue_rep s' ([] @ [m]) else s' = s" by blast
  moreover have "b"
    using enq assms(5) rw enqueue_ring_put [OF ring assms(2,3) adm]
    by (auto simp: put_result_def ring_put_def Let_def split: if_splits)
  ultimately show ?thesis by simp
qed

text \<open>
  C21: progress. An empty queue, wherever its indices stand, accepts every message that takes
  strictly less than half the buffer.
\<close>

theorem empty_queue_accepts:
  assumes "queue_rep s []" and "attached q s" and "payload_is h msg m" and "m \<noteq> []"
    and "2 * msg_space m < length (st_buffer s)"
  shows "\<exists>s'. enqueue q h msg s = Inr (True, s') \<and> queue_rep s' [m]"
  using assms by (rule enqueue_empty)

theorem empty_queue_accepts_witness:
  "\<exists>s'. enqueue demo_queue [8192 \<mapsto> [7, 7]] (Message_borrows 8192 2) demo_storage = Inr (True, s')"
proof -
  have "payload_is [8192 \<mapsto> [7, 7]] (Message_borrows 8192 2) [7, 7]"
    using payload_borrows [of "[7, 7]" 8192] by simp
  from empty_queue_accepts [OF demo_rep demo_attached this]
  show ?thesis by (auto simp: msg_space_def align8_def demo_storage_def)
qed

text \<open>
  A message of exactly the maximum size can be refused for ever. When the queue is empty with
  both indices at half the buffer, a message that takes half the buffer passes the assertions but
  is refused, and neither that call nor a receive changes the storage.
\<close>

theorem max_size_message_stuck:
  assumes "queue_rep s []" and "attached q s" and "admissible s m"
    and "unat (st_write_ix s) = msg_space m" and "2 * msg_space m = length (st_buffer s)"
  shows "run_ops (spsc_push q a) (spsc_pop q) (concat (replicate n [Push m, Pop])) s = ([], [], s)"
proof -
  have ring: "ring_rep s []" using assms(1) by (simp add: queue_rep_def)
  then have rw: "st_read_ix s = st_write_ix s"
    using runs_empty_iff by (fastforce simp: ring_rep_def u64_eq_iff)
  have pay: "payload_is [a \<mapsto> m] (Message_borrows a (word_of_nat (length m))) m"
    using admissible_small [OF ring assms(3)] by (rule payload_borrows)
  have "spsc_push q a m s = (False, s)"
    using enqueue_ring_put [OF ring assms(2) pay assms(3)] rw assms(4,5)
    by (simp add: spsc_push_def spsc_send_def put_result_def ring_put_def Let_def)
  moreover have "spsc_pop q s = (None, s)" using assms(1) by (rule spsc_pop_empty)
  ultimately show ?thesis by (induction n) simp_all
qed

text \<open>The storage after sending and receiving one message of 24 bytes, the maximum for 64.\<close>

definition half_storage :: SPSCStorage where
  "half_storage = snd (snd (run_ops (spsc_push demo_queue 8192) (spsc_pop demo_queue)
     [Push (replicate 24 1), Pop] demo_storage))"

lemma demo_uniform: "uniform_rep demo_queue 64 32 demo_storage []"
  using demo_rep demo_attached by (simp add: uniform_rep_def demo_storage_def)

lemma half_storage_rep: "uniform_rep demo_queue 64 32 half_storage []"
proof -
  obtain s' where "spsc_push demo_queue 8192 (replicate 24 1) demo_storage = (True, s')"
    by (rule that [of "snd (spsc_push demo_queue 8192 (replicate 24 1) demo_storage)"]) code_simp
  moreover have "uniform_ok 64 32 (replicate 24 1)"
    by (simp add: uniform_ok_def msg_space_def align8_def)
  ultimately have "uniform_rep demo_queue 64 32 s' [replicate 24 1]"
    using uniform_push_accept [OF demo_uniform] by fastforce
  from uniform_spsc.pop_first [OF this] show ?thesis
    using \<open>spsc_push demo_queue 8192 (replicate 24 1) demo_storage = (True, s')\<close>
    by (auto simp: half_storage_def)
qed

theorem max_size_message_stuck_witness:
  "run_ops (spsc_push demo_queue 8192) (spsc_pop demo_queue)
     (concat (replicate 100 [Push (replicate 24 1), Pop])) half_storage = ([], [], half_storage)"
proof -
  have "queue_rep half_storage []" and "attached demo_queue half_storage"
    and len: "length (st_buffer half_storage) = 64"
    using half_storage_rep by (simp_all add: uniform_rep_def)
  moreover have "st_write_ix half_storage = 32" by code_simp
  ultimately show ?thesis
    by (intro max_size_message_stuck) (simp_all add: admissible_def msg_space_def align8_def)
qed

text \<open>
  What overtaking does. When the unread messages wrap around the end of the buffer and a new
  message does not fit behind the write index, \<^verbatim>\<open>enqueue\<close> does not test that the start of the
  buffer is still unread: it succeeds, and every message of the wrapped part is replaced by the new
  one, while the counter goes up. The messages before the wrap survive.
\<close>

theorem enqueue_overtaking_loses:
  assumes "queue_rep s ms" and "attached q s" and "payload_is h msg m"
    and "admissible s m" and "overtaking s m" and "msg_space m \<le> unat (st_write_ix s)"
  shows "\<exists>s' ms1 ms2. enqueue q h msg s = Inr (True, s') \<and> ms = ms1 @ ms2 \<and> ms2 \<noteq> [] \<and>
    ring_rep s' (ms1 @ [m]) \<and> unat (queue_size s') = length ms + 1"
proof -
  have ring: "ring_rep s ms" and cnt: "st_msg_count s = word_of_nat (length ms)"
    using assms(1) by (simp_all add: queue_rep_def)
  obtain s' ms1 ms2 m' where res: "enqueue q h msg s = Inr (True, s')" "ms = ms1 @ ms2" "ms2 \<noteq> []"
      "ring_rep s' (ms1 @ [m'])" "st_msg_count s' = st_msg_count s + 1" and "m' = m"
    using enqueue_overtaking [OF ring assms(2-5)] assms(6) by blast
  have "length ms \<le> 2 * length (st_buffer s)"
    using ring runs_length by (auto simp: ring_rep_def)
  then have "length ms + 1 < 2 ^ 64"
    using ring_rep_small [OF ring] by simp
  then have "unat (queue_size s') = length ms + 1"
    using res(5) cnt unat_word_of_nat_u64 [of "length ms + 1"] by (simp add: queue_size_def add.commute)
  with res \<open>m' = m\<close> show ?thesis by blast
qed

text \<open>A reachable state with two messages of 8 bytes behind the wrap, in a buffer of 64 bytes.\<close>

definition wrap_ops :: "byte list chan_op list" where
  "wrap_ops = [Push (replicate 16 1), Push (replicate 16 2), Pop, Pop,
     Push (replicate 8 3), Push (replicate 8 4)]"

definition wrap_storage :: SPSCStorage where
  "wrap_storage = snd (snd (run_ops (spsc_push demo_queue 8192) (spsc_pop demo_queue) wrap_ops demo_storage))"

lemma wrap_storage_shape:
  "st_read_ix wrap_storage = 48" "st_write_ix wrap_storage = 32" "st_msg_count wrap_storage = 2"
  "st_storage_size wrap_storage = 320" "length (st_buffer wrap_storage) = 64"
  "seg (st_buffer wrap_storage) 0 [replicate 8 3, replicate 8 4] 32"
  "header_at (st_buffer wrap_storage) 48 = 0"
  by code_simp+

lemma wrap_storage_rep:
  "queue_rep wrap_storage [replicate 8 3, replicate 8 4]" "attached demo_queue wrap_storage"
proof -
  have "runs (st_buffer wrap_storage) 48 32 ([] @ [replicate 8 3, replicate 8 4])"
    by (rule runs_wrappedI [where e = 48]) (simp_all only: wrap_storage_shape, simp_all)
  then show "queue_rep wrap_storage [replicate 8 3, replicate 8 4]"
    by (simp add: queue_rep_def ring_rep_def wf_storage_def wrap_storage_shape)
  show "attached demo_queue wrap_storage"
    by (simp add: attached_def buffer_size_def calc_max_message_size_def wrap_storage_shape
        demo_queue_def demo_storage_def SPSCQueue_new_def)
qed

theorem enqueue_overtaking_loses_witness:
  "\<exists>s'. enqueue demo_queue [8192 \<mapsto> replicate 24 5] (Message_borrows 8192 24) wrap_storage = Inr (True, s') \<and>
     (ring_rep s' [replicate 24 5] \<or> ring_rep s' [replicate 8 3, replicate 24 5]) \<and>
     unat (queue_size s') = 3"
proof -
  have pay: "payload_is [8192 \<mapsto> replicate 24 5] (Message_borrows 8192 24) (replicate 24 5)"
    using payload_borrows [of "replicate 24 5" 8192] by simp
  have "admissible wrap_storage (replicate 24 5)" and "overtaking wrap_storage (replicate 24 5)"
    and "msg_space (replicate 24 5) \<le> unat (st_write_ix wrap_storage)"
    by (simp_all add: admissible_def overtaking_def overtakes_def wrap_storage_shape msg_space_def
        align8_def)
  from enqueue_overtaking_loses [OF wrap_storage_rep pay this]
  show ?thesis by (auto simp: append_eq_Cons_conv Cons_eq_append_conv)
qed


text \<open>
  The observers agree with the contents when no call is in progress: the counter is the number
  of unread messages, the queue is empty exactly when there is none, and then nothing can be
  dequeued.
\<close>

theorem observers_agree:
  assumes "queue_rep s ms"
  shows "unat (queue_size s) = length ms \<and> (is_empty s \<longleftrightarrow> ms = []) \<and> (can_dequeue s \<longleftrightarrow> ms \<noteq> [])"
  using assms queue_rep_count [OF assms] runs_empty_iff
  by (fastforce simp: queue_rep_def ring_rep_def is_empty_def can_dequeue_def u64_eq_iff)

theorem observers_agree_witness:
  "unat (queue_size wrap_storage) = 2 \<and> \<not> is_empty wrap_storage \<and> can_dequeue wrap_storage"
  using observers_agree [OF wrap_storage_rep(1)] by simp

text \<open>
  \<^verbatim>\<open>next_index\<close> rounds up. Where the sum does not overflow it is the least multiple of 8 that
  is at least the sum; where the sum plus 7 passes 2 to the 64 it wraps, to 0 at the very top.
\<close>

theorem next_index_rounds_up:
  "(unat i + unat sz + 7 < 2 ^ 64 \<longrightarrow>
      8 dvd unat (next_index i sz) \<and> unat i + unat sz \<le> unat (next_index i sz) \<and>
      unat (next_index i sz) < unat i + unat sz + 8 \<and>
      (\<forall>k. 8 dvd k \<and> unat i + unat sz \<le> k \<longrightarrow> unat (next_index i sz) \<le> k)) \<and>
   next_index (- 1) 0 = 0"
  by (auto simp: unat_next_index align8_ge align8_less align8_least) (simp add: next_index_def)

theorem next_index_rounds_up_witness: "unat (next_index 8 9) = 24"
proof -
  have "8 dvd unat (next_index 8 9)" and "17 \<le> unat (next_index 8 9)" and "unat (next_index 8 9) < 25"
    using next_index_rounds_up [of 8 9] by auto
  then show ?thesis by presburger
qed

definition deq_stuck :: "SPSCStorage \<Rightarrow> bool" where
  "deq_stuck s \<longleftrightarrow>
     st_read_ix s \<noteq> st_write_ix s \<and> unat (st_read_ix s) + 8 \<le> length (st_buffer s) \<and>
     header_at (st_buffer s) (unat (st_read_ix s)) = 0 \<and> st_write_ix s \<noteq> 0 \<and>
     header_at (st_buffer s) 0 = 0"

lemma deq_stuck_recheck:
  "deq_stuck s \<Longrightarrow> dequeue_pass q s = DeqRecheck (s\<lparr>st_read_ix := 0\<rparr>) \<and> deq_stuck (s\<lparr>st_read_ix := 0\<rparr>)"
  using dequeue_pass_sentinel [of s q] by (auto simp: deq_stuck_def)

lemma dequeue_begin_not_stuck:
  assumes "dequeue_begin q s = Some x"
  shows "\<not> deq_stuck s"
proof (rule dequeue_begin.raw_induct [where P = "\<lambda>q s x. \<not> deq_stuck s", OF _ assms])
  fix deq q s x
  assume IH: "\<And>q s x. deq q s = Some x \<Longrightarrow> \<not> deq_stuck s"
    and eq: "(case dequeue_pass q s of
        DeqView v \<Rightarrow> Some (Inr (v, s)) | DeqRecheck s' \<Rightarrow> deq q s' | DeqFault f \<Rightarrow> Some (Inl f)) = Some x"
  show "\<not> deq_stuck s"
  proof
    assume "deq_stuck s"
    from deq_stuck_recheck [OF this, of q] eq IH show False by fastforce
  qed
qed

lemma dequeue_begin_returns:
  assumes "\<not> deq_stuck s"
  shows "\<exists>x. dequeue_begin q s = Some x"
proof (cases "dequeue_pass q s")
  case (DeqRecheck s')
  then have s': "s' = s\<lparr>st_read_ix := 0\<rparr>" and ne: "st_read_ix s \<noteq> st_write_ix s"
    and room: "unat (st_read_ix s) + 8 \<le> length (st_buffer s)"
    and zero: "header_at (st_buffer s) (unat (st_read_ix s)) = 0"
    by (auto simp: dequeue_pass_def Let_def mem_read_def header_at_def split: if_splits)
  then have "st_write_ix s = 0 \<or> header_at (st_buffer s) 0 \<noteq> 0"
    using assms by (auto simp: deq_stuck_def)
  then have "\<exists>v. dequeue_pass q s' = DeqView v"
    using room by (auto simp: s' dequeue_pass_def Let_def mem_read_def header_at_def)
  then show ?thesis
    using DeqRecheck by (auto simp: dequeue_begin.simps [of q s] dequeue_begin.simps [of q s'])
qed (simp_all add: dequeue_begin.simps [of q s])

text \<open>
  C15: the retry loop of \<^verbatim>\<open>dequeue_begin\<close> returns on every storage but those whose read index and
  whose buffer start both hold a zero header while the write index is neither the read index nor 0.
  A well-formed ring is never one of those.
\<close>

theorem dequeue_begin_returns_iff:
  "((\<exists>x. dequeue_begin q s = Some x) \<longleftrightarrow> \<not> deq_stuck s) \<and> (ring_rep s ms \<longrightarrow> \<not> deq_stuck s)"
proof (intro conjI impI)
  show "(\<exists>x. dequeue_begin q s = Some x) \<longleftrightarrow> \<not> deq_stuck s"
    using dequeue_begin_not_stuck dequeue_begin_returns by blast
  assume "ring_rep s ms"
  then have "\<exists>x. dequeue_begin q s = Some x"
    using dequeue_begin_head dequeue_begin_empty by (cases ms) blast+
  then show "\<not> deq_stuck s" using dequeue_begin_not_stuck by blast
qed

theorem dequeue_begin_returns_iff_witness:
  "dequeue_begin demo_queue (demo_storage\<lparr>st_write_ix := 16\<rparr>) = None \<and> \<not> deq_stuck wrap_storage"
proof -
  have "deq_stuck (demo_storage\<lparr>st_write_ix := 16\<rparr>)" by code_simp
  then have "dequeue_begin demo_queue (demo_storage\<lparr>st_write_ix := 16\<rparr>) = None"
    using dequeue_begin_returns_iff [of demo_queue "demo_storage\<lparr>st_write_ix := 16\<rparr>"]
    by (metis not_Some_eq)
  moreover have "ring_rep wrap_storage [replicate 8 3, replicate 8 4]"
    using wrap_storage_rep(1) by (simp add: queue_rep_def)
  ultimately show ?thesis
    using dequeue_begin_returns_iff by blast
qed



end
