(* ===== verification/Spin_Lock.thy ===== *)
theory Spin_Lock
  imports Ipc_Prelude
begin

text \<open>
  \<^verbatim>\<open>include/posix_ipc/synchronization.hpp\<close>: the spin lock and its guard, and the three locks that
  \<^verbatim>\<open>bench/bm_thread_sync.cpp\<close> measures. A lock is one shared word with an atomic acquisition attempt
  and an atomic release; threads interleave at these operations.
\<close>

section \<open>The locks\<close>

record SpinLock =
  locked :: bool

definition SpinLock_new :: SpinLock where
  "SpinLock_new = \<lparr>locked = False\<rparr>"

text \<open>
  \<^verbatim>\<open>std::atomic_flag::test_and_set\<close> returns the old value. One evaluation of the loop condition is
  an attempt, successful when the flag was clear.
\<close>

definition test_and_set :: "SpinLock \<Rightarrow> bool \<times> SpinLock" where
  "test_and_set l = (locked l, l\<lparr>locked := True\<rparr>)"

definition spin_attempt :: "SpinLock \<Rightarrow> bool \<times> SpinLock" where
  "spin_attempt l = (let (old, l') = test_and_set l in (\<not> old, l'))"

definition spin_unlock :: "SpinLock \<Rightarrow> SpinLock" where
  "spin_unlock l = l\<lparr>locked := False\<rparr>"

text \<open>\<^verbatim>\<open>lock()\<close> run alone: it loops for ever on a lock that is held.\<close>

partial_function (option) spin_lock :: "SpinLock \<Rightarrow> SpinLock option" where
  [code]: "spin_lock l =
     (case test_and_set l of (old, l') \<Rightarrow> if old then spin_lock l' else Some l')"

text \<open>\<^verbatim>\<open>SpinLockGuard\<close>: the constructor locks and the destructor unlocks.\<close>

definition SpinLockGuard_new :: "SpinLock \<Rightarrow> SpinLock option" where
  "SpinLockGuard_new l = spin_lock l"

definition SpinLockGuard_destroy :: "SpinLock \<Rightarrow> SpinLock" where
  "SpinLockGuard_destroy l = spin_unlock l"

text \<open>The benchmark's locks: a flag that is only read, a mutex, and a flag that is tested and set.\<close>

record load_store_lock =
  ls_counter :: bool

definition load_store_attempt :: "load_store_lock \<Rightarrow> bool \<times> load_store_lock" where
  "load_store_attempt l = (\<not> (ls_counter l \<noteq> False), l)"

definition load_store_unlock :: "load_store_lock \<Rightarrow> load_store_lock" where
  "load_store_unlock l = l\<lparr>ls_counter := False\<rparr>"

record mutex_lock =
  mtx_owned :: bool

text \<open>\<^verbatim>\<open>std::mutex::lock\<close> waits until the mutex is free and takes it.\<close>

definition mutex_attempt :: "mutex_lock \<Rightarrow> bool \<times> mutex_lock" where
  "mutex_attempt l = (if mtx_owned l then (False, l) else (True, l\<lparr>mtx_owned := True\<rparr>))"

definition mutex_unlock :: "mutex_lock \<Rightarrow> mutex_lock" where
  "mutex_unlock l = l\<lparr>mtx_owned := False\<rparr>"

record atomic_flag_lock =
  af_lock :: bool

definition atomic_flag_attempt :: "atomic_flag_lock \<Rightarrow> bool \<times> atomic_flag_lock" where
  "atomic_flag_attempt l = (\<not> af_lock l, l\<lparr>af_lock := True\<rparr>)"

definition atomic_flag_unlock :: "atomic_flag_lock \<Rightarrow> atomic_flag_lock" where
  "atomic_flag_unlock l = l\<lparr>af_lock := False\<rparr>"

section \<open>Threads sharing a lock\<close>

text \<open>
  Each thread is outside, in the loop of \<^verbatim>\<open>lock()\<close>, or between \<^verbatim>\<open>lock()\<close> and \<^verbatim>\<open>unlock()\<close>. A step
  is one atomic operation of one thread.
\<close>

datatype pc = Outside | Spinning | Critical

inductive lock_step ::
    "('l \<Rightarrow> bool \<times> 'l) \<Rightarrow> ('l \<Rightarrow> 'l) \<Rightarrow> 'l \<times> (nat \<Rightarrow> pc) \<Rightarrow> 'l \<times> (nat \<Rightarrow> pc) \<Rightarrow> bool"
  for attempt :: "'l \<Rightarrow> bool \<times> 'l" and release :: "'l \<Rightarrow> 'l" where
  call: "pcs t = Outside \<Longrightarrow> lock_step attempt release (l, pcs) (l, pcs(t := Spinning))"
| acquire: "pcs t = Spinning \<Longrightarrow> attempt l = (True, l') \<Longrightarrow>
    lock_step attempt release (l, pcs) (l', pcs(t := Critical))"
| retry: "pcs t = Spinning \<Longrightarrow> attempt l = (False, l') \<Longrightarrow>
    lock_step attempt release (l, pcs) (l', pcs)"
| leave: "pcs t = Critical \<Longrightarrow> lock_step attempt release (l, pcs) (release l, pcs(t := Outside))"

inductive_cases lock_stepE: "lock_step attempt release (l, pcs) (l', pcs')"

definition lock_reach :: "('l \<Rightarrow> bool \<times> 'l) \<Rightarrow> ('l \<Rightarrow> 'l) \<Rightarrow> 'l \<Rightarrow> 'l \<Rightarrow> (nat \<Rightarrow> pc) \<Rightarrow> bool" where
  "lock_reach attempt release l0 l pcs \<longleftrightarrow>
     (lock_step attempt release)\<^sup>*\<^sup>* (l0, \<lambda>_. Outside) (l, pcs)"

text \<open>At most one thread is in the critical section, and exactly one when the lock is held.\<close>

definition critical :: "(nat \<Rightarrow> pc) \<Rightarrow> nat set" where
  "critical pcs = {u. pcs u = Critical}"

definition one_holder :: "bool \<Rightarrow> (nat \<Rightarrow> pc) \<Rightarrow> bool" where
  "one_holder h pcs \<longleftrightarrow> (if h then \<exists>t. critical pcs = {t} else critical pcs = {})"

lemma critical_upd [simp]:
  "critical (pcs(t := c)) = (if c = Critical then insert t (critical pcs) else critical pcs - {t})"
  by (auto simp: critical_def)

lemma critical_iff: "pcs t = Critical \<longleftrightarrow> t \<in> critical pcs"
  by (simp add: critical_def)

lemma one_holder_unique: "one_holder h pcs \<Longrightarrow> t \<in> critical pcs \<Longrightarrow> h \<and> critical pcs = {t}"
  by (auto simp: one_holder_def split: if_splits)

text \<open>What a lock promises: an attempt succeeds exactly on a free lock, and leaves it held.\<close>

locale lock_contract =
  fixes attempt :: "'l \<Rightarrow> bool \<times> 'l"
    and release :: "'l \<Rightarrow> 'l"
    and held :: "'l \<Rightarrow> bool"
    and fresh :: 'l
  assumes attempt_iff: "attempt l = (b, l') \<Longrightarrow> (b \<longleftrightarrow> \<not> held l) \<and> held l'"
    and released: "\<not> held (release l)"
    and initially: "\<not> held fresh"
begin

lemma step_one_holder:
  assumes "lock_step attempt release (l, pcs) (l', pcs')" and "one_holder (held l) pcs"
  shows "one_holder (held l') pcs'"
proof (rule lock_stepE [OF assms(1)])
  fix t
  assume "pcs t = Outside" "l' = l" "pcs' = pcs(t := Spinning)"
  moreover from this have "t \<notin> critical pcs" by (simp add: critical_def)
  ultimately show ?thesis using assms(2) by (simp add: one_holder_def)
next
  fix t
  assume "pcs' = pcs(t := Critical)" "attempt l = (True, l')"
  then show ?thesis using assms(2) attempt_iff [of l True l'] by (simp add: one_holder_def)
next
  fix t
  assume "pcs' = pcs" "attempt l = (False, l')"
  then show ?thesis using assms(2) attempt_iff [of l False l'] by simp
next
  fix t
  assume "pcs t = Critical" and eqs: "l' = release l" "pcs' = pcs(t := Outside)"
  then have "critical pcs = {t}" using one_holder_unique [OF assms(2)] by (simp add: critical_iff)
  with eqs show ?thesis by (simp add: one_holder_def released)
qed

lemma holder_invariant:
  assumes "lock_reach attempt release fresh l pcs"
  shows "one_holder (held l) pcs"
  using assms unfolding lock_reach_def
proof (induction "(l, pcs)" arbitrary: l pcs rule: rtranclp_induct)
  case base
  then show ?case by (simp add: initially one_holder_def critical_def)
next
  case (step y)
  then show ?case by (cases y) (use step_one_holder in blast)
qed

lemma mutual_exclusion:
  assumes "lock_reach attempt release fresh l pcs" and "pcs t = Critical" and "pcs u = Critical"
  shows "t = u"
  using holder_invariant [OF assms(1)] assms(2,3) one_holder_unique
  by (metis critical_iff singletonD)

text \<open>A free lock is taken at the next attempt, a held one refuses and stays held.\<close>

lemma no_deadlock:
  assumes "lock_reach attempt release fresh l pcs" and "pcs t = Spinning"
    and "\<forall>u. pcs u \<noteq> Critical"
  shows "\<exists>l'. attempt l = (True, l') \<and> lock_step attempt release (l, pcs) (l', pcs(t := Critical))"
proof -
  have "\<not> held l" using holder_invariant [OF assms(1)] assms(3)
    by (auto simp: one_holder_def critical_def split: if_splits)
  then have "attempt l = (True, snd (attempt l))" using attempt_iff by (metis prod.collapse)
  then show ?thesis using assms(2) acquire by metis
qed

end

interpretation spin: lock_contract spin_attempt spin_unlock locked SpinLock_new
  by unfold_locales
    (auto simp: spin_attempt_def test_and_set_def spin_unlock_def SpinLock_new_def)

interpretation mtx: lock_contract mutex_attempt mutex_unlock mtx_owned "\<lparr>mtx_owned = False\<rparr>"
  by unfold_locales (auto simp: mutex_attempt_def mutex_unlock_def split: if_splits)

interpretation flag: lock_contract atomic_flag_attempt atomic_flag_unlock af_lock "\<lparr>af_lock = False\<rparr>"
  by unfold_locales (auto simp: atomic_flag_attempt_def atomic_flag_unlock_def)

section \<open>Properties\<close>

lemma spin_lock_free [simp]: "\<not> locked l \<Longrightarrow> spin_lock l = Some (l\<lparr>locked := True\<rparr>)"
  by (subst spin_lock.simps) (simp add: test_and_set_def)

lemma spin_lock_Some:
  assumes "spin_lock l = Some l'"
  shows "\<not> locked l"
  by (rule spin_lock.raw_induct [where P = "\<lambda>l l'. \<not> locked l", OF _ assms])
    (fastforce simp: test_and_set_def split: if_splits)

lemma spin_lock_held [simp]: "locked l \<Longrightarrow> spin_lock l = None"
  using spin_lock_Some by (cases "spin_lock l") auto



text \<open>
  The benchmark's \<^verbatim>\<open>load_store_lock\<close> excludes nothing: its \<^verbatim>\<open>lock()\<close> only reads the flag, which
  nothing ever sets, so any two threads can hold it at the same time.
\<close>

theorem load_store_lock_no_exclusion:
  "\<exists>l pcs. lock_reach load_store_attempt load_store_unlock \<lparr>ls_counter = False\<rparr> l pcs \<and>
     pcs t = Critical \<and> pcs u = Critical"
proof -
  let ?l = "\<lparr>ls_counter = False\<rparr>"
  let ?R = "lock_reach load_store_attempt load_store_unlock ?l ?l"
  have att: "load_store_attempt ?l = (True, ?l)" by (simp add: load_store_attempt_def)
  have enter: "?R (pcs(v := Critical))" if "?R pcs" "pcs v = Outside" for pcs v
  proof -
    have "lock_step load_store_attempt load_store_unlock (?l, pcs) (?l, pcs(v := Spinning))"
      using that(2) by (rule lock_step.call)
    moreover have "lock_step load_store_attempt load_store_unlock
        (?l, pcs(v := Spinning)) (?l, (pcs(v := Spinning))(v := Critical))"
      using att by (intro lock_step.acquire) simp_all
    ultimately show ?thesis
      using that(1) unfolding lock_reach_def by (metis fun_upd_upd rtranclp.rtrancl_into_rtrancl)
  qed
  have start: "?R (\<lambda>_. Outside)" by (simp add: lock_reach_def)
  have one: "?R ((\<lambda>_. Outside)(t := Critical))" using enter [OF start] by simp
  show ?thesis
  proof (cases "t = u")
    case True
    then show ?thesis using one by (metis fun_upd_same)
  next
    case False
    then have "?R ((\<lambda>_. Outside)(t := Critical, u := Critical))" using enter [OF one, of u] by simp
    then show ?thesis using False by (metis fun_upd_apply)
  qed
qed

end
