(* ===== verification/Pub_Sub.thy ===== *)
theory Pub_Sub
  imports Pub_Sub_Ends SPSC_Correct Spin_Lock
begin

text \<open>
  \<^verbatim>\<open>queues/pubsub/PubSub.hpp\<close>: the publishers of a process, kept in step with a list of
  configurations, and the broadcast of a message to all of them, under the spin lock. A call that
  finds the lock held by its own thread never returns (\<open>None\<close>).
\<close>

section \<open>State\<close>

record PubSubChange =
  chg_addition :: "Publisher option"
  chg_removal :: "string option"

record PubSub =
  ps_publishers :: "Publisher list"
  ps_change_queue :: "PubSubChange list"
  ps_lock_obj :: SpinLock

definition PubSub_new :: PubSub where
  "PubSub_new = \<lparr>ps_publishers = [], ps_change_queue = [], ps_lock_obj = SpinLock_new\<rparr>"

text \<open>Moves take the vectors and leave the locks; the vectors of an assigned-to object are destroyed.\<close>

definition PubSub_move :: "PubSub \<Rightarrow> PubSub \<times> PubSub" where
  "PubSub_move other =
     (\<lparr>ps_publishers = ps_publishers other, ps_change_queue = ps_change_queue other,
       ps_lock_obj = SpinLock_new\<rparr>,
      other\<lparr>ps_publishers := [], ps_change_queue := []\<rparr>)"

definition destroy_publishers :: "'w posix_os \<Rightarrow> Publisher list \<Rightarrow> 'w \<Rightarrow> 'w" where
  "destroy_publishers os ps w = fold (Publisher_destroy os) ps w"

definition destroy_changes :: "'w posix_os \<Rightarrow> PubSubChange list \<Rightarrow> 'w \<Rightarrow> 'w" where
  "destroy_changes os cs w =
     fold (\<lambda>c w. case chg_addition c of None \<Rightarrow> w | Some p \<Rightarrow> Publisher_destroy os p w) cs w"

definition PubSub_move_assign ::
    "'w posix_os \<Rightarrow> bool \<Rightarrow> PubSub \<Rightarrow> PubSub \<Rightarrow> 'w \<Rightarrow> PubSub \<times> PubSub \<times> 'w" where
  "PubSub_move_assign os same self other w =
     (if same then (self, other, w)
      else (self\<lparr>ps_publishers := ps_publishers other, ps_change_queue := ps_change_queue other\<rparr>,
            other\<lparr>ps_publishers := [], ps_change_queue := []\<rparr>,
            destroy_changes os (ps_change_queue self) (destroy_publishers os (ps_publishers self) w)))"

section \<open>Applying changes\<close>

definition pub_name :: "Publisher \<Rightarrow> string" where
  "pub_name p = cfg_shm_name (pub_config p)"

text \<open>
  \<^verbatim>\<open>std::vector::erase\<close> moves every later element down by one and destroys the last.
\<close>

fun shift_down :: "'w posix_os \<Rightarrow> Publisher list \<Rightarrow> 'w \<Rightarrow> Publisher list \<times> 'w" where
  "shift_down os [] w = ([], w)"
| "shift_down os [p] w = ([], Publisher_destroy os p w)"
| "shift_down os (p # q # rest) w =
     (let (p', q', w1) = Publisher_move_assign os False p q w;
          (rest', w2) = shift_down os (q' # rest) w1 in
      (p' # rest', w2))"

fun find_if :: "('a \<Rightarrow> bool) \<Rightarrow> 'a list \<Rightarrow> nat" where
  "find_if P [] = 0"
| "find_if P (x # xs) = (if P x then 0 else Suc (find_if P xs))"

definition apply_change ::
    "'w posix_os \<Rightarrow> PubSubChange \<Rightarrow> Publisher list \<times> 'w \<Rightarrow> Publisher list \<times> 'w" where
  "apply_change os change st =
     (case st of (publishers, w) \<Rightarrow>
        (case chg_addition change of
           Some p \<Rightarrow> (publishers @ [fst (Publisher_move p)], w)
         | None \<Rightarrow>
             (case chg_removal change of
                None \<Rightarrow> (publishers, w)
              | Some name \<Rightarrow>
                  (let it = find_if (\<lambda>sub. pub_name sub = name) publishers in
                   if it \<noteq> length publishers
                   then (let (tail, w') = shift_down os (drop it publishers) w in
                         (take it publishers @ tail, w'))
                   else (publishers, w)))))"

text \<open>Clearing the queue destroys changes whose publishers have been moved out.\<close>

definition apply_changes ::
    "'w posix_os \<Rightarrow> PubSubChange list \<Rightarrow> Publisher list \<Rightarrow> 'w \<Rightarrow> Publisher list \<times> 'w" where
  "apply_changes os changes publishers w = fold (apply_change os) changes (publishers, w)"

section \<open>Synchronising with the configurations\<close>

definition removal :: "string \<Rightarrow> PubSubChange" where
  "removal name = \<lparr>chg_addition = None, chg_removal = Some name\<rparr>"

definition addition :: "Publisher \<Rightarrow> PubSubChange" where
  "addition p = \<lparr>chg_addition = Some p, chg_removal = None\<rparr>"

fun queue_removals :: "PubSubConfig list \<Rightarrow> Publisher list \<Rightarrow> PubSubChange list \<Rightarrow> PubSubChange list" where
  "queue_removals configs [] changes = changes"
| "queue_removals configs (sub # subs) changes =
     (let found = list_ex (\<lambda>cfg. pub_name sub = cfg_shm_name cfg) configs in
      queue_removals configs subs
        (if \<not> found then changes @ [removal (pub_name sub)] else changes))"

fun queue_additions ::
    "'w posix_os \<Rightarrow> source_location \<Rightarrow> Publisher list \<Rightarrow> PubSubConfig list \<Rightarrow> PubSubChange list \<Rightarrow>
       'w \<Rightarrow> (PosixIpcError option \<times> PubSubChange list \<times> 'w) exec" where
  "queue_additions os loc publishers [] changes w = Inr (None, changes, w)"
| "queue_additions os loc publishers (cfg # cfgs) changes w =
     (let exists = list_ex (\<lambda>sub. pub_name sub = cfg_shm_name cfg) publishers in
      if \<not> exists then
        (case Publisher_from_config os loc cfg w of
           Inl f \<Rightarrow> Inl f
         | Inr (Inl e, w1) \<Rightarrow> Inr (Some e, changes, w1)
         | Inr (Inr p, w1) \<Rightarrow>
             queue_additions os loc publishers cfgs (changes @ [addition (fst (Publisher_move p))]) w1)
      else queue_additions os loc publishers cfgs changes w)"

definition sync_configs ::
    "'w posix_os \<Rightarrow> source_location \<Rightarrow> PubSubConfig list \<Rightarrow> PubSub \<Rightarrow> 'w \<Rightarrow>
       ((PosixIpcError + unit) \<times> PubSub \<times> 'w) exec option" where
  "sync_configs os loc configs ps w =
     (case SpinLockGuard_new (ps_lock_obj ps) of
        None \<Rightarrow> None
      | Some l \<Rightarrow>
          (let publishers = ps_publishers ps;
               changes = queue_removals configs publishers (ps_change_queue ps) in
           case queue_additions os loc publishers configs changes w of
             Inl f \<Rightarrow> Some (Inl f)
           | Inr (Some e, changes', w1) \<Rightarrow>
               Some (Inr (Inl e, ps\<lparr>ps_change_queue := changes',
                                    ps_lock_obj := SpinLockGuard_destroy l\<rparr>, w1))
           | Inr (None, changes', w1) \<Rightarrow>
               (let (publishers', w2) = apply_changes os changes' publishers w1 in
                Some (Inr (Inr (), ps\<lparr>ps_publishers := publishers', ps_change_queue := [],
                                      ps_lock_obj := SpinLockGuard_destroy l\<rparr>, w2)))))"

section \<open>Publishing\<close>

fun publish_all ::
    "'w posix_os \<Rightarrow> heap \<Rightarrow> Message \<Rightarrow> Publisher list \<Rightarrow> bool \<Rightarrow> 'w \<Rightarrow> (bool \<times> 'w) exec" where
  "publish_all os h val [] published w = Inr (published, w)"
| "publish_all os h val (publisher # publishers) published w =
     (case publisher_publish os h publisher val w of
        Inl f \<Rightarrow> Inl f
      | Inr (b, w') \<Rightarrow> publish_all os h val publishers (published \<and> b) w')"

definition publish ::
    "'w posix_os \<Rightarrow> heap \<Rightarrow> Message \<Rightarrow> PubSub \<Rightarrow> 'w \<Rightarrow> (bool \<times> PubSub \<times> 'w) exec option" where
  "publish os h val ps w =
     (case SpinLockGuard_new (ps_lock_obj ps) of
        None \<Rightarrow> None
      | Some l \<Rightarrow>
          (case publish_all os h val (ps_publishers ps) True w of
             Inl f \<Rightarrow> Some (Inl f)
           | Inr (b, w') \<Rightarrow> Some (Inr (b, ps\<lparr>ps_lock_obj := SpinLockGuard_destroy l\<rparr>, w'))))"

section \<open>Changes on names\<close>

text \<open>Erasing releases the erased publisher's shared memory and keeps all the others.\<close>

lemma shift_down_Cons: "shift_down os (p # rest) w = (rest, Publisher_destroy os p w)"
proof (induction rest arbitrary: p w)
  case (Cons q rest)
  have "Publisher_destroy os (q\<lparr>pub_shm := None, pub_queue := None\<rparr>) v = v" for v
    by (simp add: Publisher_destroy_def shm_destroy_opt_def)
  then show ?case
    using Cons.IH by (simp add: Publisher_move_assign_def Publisher_destroy_def)
qed simp

lemma find_if_length: "find_if P xs \<noteq> length xs \<longleftrightarrow> (\<exists>x \<in> set xs. P x)"
  by (induction xs) auto

lemma Publisher_move_fst [simp]: "fst (Publisher_move p) = p"
  by (simp add: Publisher_move_def Publisher_new_def)

lemma apply_addition [simp]:
  "apply_change os (addition p) (publishers, w) = (publishers @ [p], w)"
  by (simp add: apply_change_def addition_def)

lemma apply_removal_absent:
  "name \<notin> set (map pub_name publishers) \<Longrightarrow>
     apply_change os (removal name) (publishers, w) = (publishers, w)"
  using find_if_length [of "\<lambda>sub. pub_name sub = name" publishers]
  by (auto simp: apply_change_def removal_def)

lemma apply_removal_present:
  assumes "pub_name p = name" and "name \<notin> set (map pub_name ps1)"
  shows "apply_change os (removal name) (ps1 @ p # ps2, w) = (ps1 @ ps2, Publisher_destroy os p w)"
proof -
  have "find_if (\<lambda>sub. pub_name sub = name) (ps1 @ p # ps2) = length ps1"
    using assms by (induction ps1) auto
  then show ?thesis by (simp add: apply_change_def removal_def shift_down_Cons)
qed

lemma apply_removals:
  assumes "pub_name ` set pre \<subseteq> C"
  shows "fold (apply_change os) (map removal (filter (\<lambda>n. n \<notin> C) (map pub_name pubs))) (pre @ pubs, w) =
    (pre @ filter (\<lambda>p. pub_name p \<in> C) pubs, destroy_publishers os (filter (\<lambda>p. pub_name p \<notin> C) pubs) w)"
  using assms
proof (induction pubs arbitrary: pre w)
  case (Cons p pubs)
  show ?case
  proof (cases "pub_name p \<in> C")
    case True
    then show ?thesis using Cons.IH [of "pre @ [p]"] Cons.prems by simp
  next
    case False
    then have "pub_name p \<notin> set (map pub_name pre)" using Cons.prems by auto
    then show ?thesis
      using False Cons.IH [OF Cons.prems] apply_removal_present [of p "pub_name p" pre os pubs w]
      by (simp add: destroy_publishers_def)
  qed
qed (simp add: destroy_publishers_def)

lemma apply_additions:
  "fold (apply_change os) (map addition new) (pubs, w) = (pubs @ new, w)"
  by (induction new arbitrary: pubs) simp_all

lemma queue_removals_eq:
  "queue_removals configs pubs changes =
     changes @ map removal (filter (\<lambda>n. n \<notin> cfg_shm_name ` set configs) (map pub_name pubs))"
  by (induction pubs arbitrary: changes) (auto simp: list_ex_iff Let_def)

lemma from_config_config:
  "Publisher_from_config os loc config w = Inr (Inr p, w') \<Longrightarrow> pub_config p = config"
  by (auto simp: Publisher_from_config_def publisher_finish_def Publisher_new_def
      split: prod.splits sum.splits bool.splits option.splits)

lemma queue_additions_done:
  assumes "queue_additions os loc pubs configs changes w = Inr (eo, changes', w')"
  shows "\<exists>new rest. changes' = changes @ map addition new \<and>
    filter (\<lambda>c. cfg_shm_name c \<notin> pub_name ` set pubs) configs = map pub_config new @ rest \<and>
    (eo = None \<longleftrightarrow> rest = [])"
  using assms
proof (induction configs arbitrary: changes w)
  case (Cons cfg configs)
  show ?case
  proof (cases "cfg_shm_name cfg \<in> pub_name ` set pubs")
    case True
    then have "list_ex (\<lambda>sub. pub_name sub = cfg_shm_name cfg) pubs" by (auto simp: list_ex_iff)
    then show ?thesis using Cons.IH [of changes w] Cons.prems True by simp
  next
    case False
    then have new: "\<not> list_ex (\<lambda>sub. pub_name sub = cfg_shm_name cfg) pubs"
      unfolding list_ex_iff by (metis imageI)
    show ?thesis
    proof (cases "\<exists>p w1. Publisher_from_config os loc cfg w = Inr (Inr p, w1)")
      case True
      then obtain p w1 where p: "Publisher_from_config os loc cfg w = Inr (Inr p, w1)" by blast
      from Cons.IH [of "changes @ [addition p]" w1] Cons.prems p new
      obtain ps rest where "changes' = (changes @ [addition p]) @ map addition ps"
        "filter (\<lambda>c. cfg_shm_name c \<notin> pub_name ` set pubs) configs = map pub_config ps @ rest"
        "eo = None \<longleftrightarrow> rest = []" by auto
      then show ?thesis
        using False from_config_config [OF p] by (intro exI [of _ "p # ps"] exI [of _ rest]) simp
    next
      case failed: False
      then have "changes' = changes" "eo \<noteq> None"
        using Cons.prems new by (auto split: sum.splits prod.splits)
      then show ?thesis
        using False by (intro exI [of _ "[]"] exI [of _ "filter (\<lambda>c. cfg_shm_name c \<notin> pub_name ` set pubs) (cfg # configs)"])
          simp
    qed
  qed
qed simp

lemma guard_simps [simp]:
  "\<not> locked l \<Longrightarrow> SpinLockGuard_new l = Some (l\<lparr>locked := True\<rparr>)"
  "locked (SpinLockGuard_destroy l) = False"
  by (simp_all add: SpinLockGuard_new_def SpinLockGuard_destroy_def spin_unlock_def)

lemma guard_restores: "\<not> locked l \<Longrightarrow> SpinLockGuard_destroy (l\<lparr>locked := True\<rparr>) = l"
  by (simp add: SpinLockGuard_destroy_def spin_unlock_def)

section \<open>Broadcast\<close>

text \<open>What a publisher's queue holds, and that it can take the message \<open>m\<close> without overtaking.\<close>

definition pub_holds :: "'w posix_os \<Rightarrow> 'w \<Rightarrow> Publisher \<Rightarrow> byte list list \<Rightarrow> bool" where
  "pub_holds os w p ms \<longleftrightarrow>
     (\<exists>q mem. pub_queue p = Some q \<and> sys_region os (q_storage q) w = Some mem \<and> 256 \<le> length mem \<and>
        attached q (SPSCStorage_at mem) \<and> queue_rep (SPSCStorage_at mem) ms)"

definition pub_fits :: "'w posix_os \<Rightarrow> 'w \<Rightarrow> Publisher \<Rightarrow> byte list \<Rightarrow> bool" where
  "pub_fits os w p m \<longleftrightarrow>
     (\<forall>q mem. pub_queue p = Some q \<and> sys_region os (q_storage q) w = Some mem \<longrightarrow>
        admissible (SPSCStorage_at mem) m \<and> \<not> overtaking (SPSCStorage_at mem) m)"

definition pub_accepts :: "'w posix_os \<Rightarrow> heap \<Rightarrow> Message \<Rightarrow> 'w \<Rightarrow> Publisher \<Rightarrow> bool" where
  "pub_accepts os h val w p \<longleftrightarrow>
     (case publisher_publish os h p val w of Inr (b, w') \<Rightarrow> b | Inl f \<Rightarrow> False)"

definition pub_addr :: "Publisher \<Rightarrow> addr" where
  "pub_addr p = (case pub_queue p of None \<Rightarrow> nullptr | Some q \<Rightarrow> q_storage q)"

context posix_memory
begin

lemma publish_one:
  assumes "pub_holds os w p ms" and "pub_fits os w p m" and "payload_is h val m"
  shows "\<exists>w'. publisher_publish os h p val w = Inr (pub_accepts os h val w p, w') \<and>
    pub_holds os w' p (if pub_accepts os h val w p then ms @ [m] else ms) \<and> obj w' = obj w \<and>
    (\<forall>a. obj w a \<noteq> obj w (pub_addr p) \<longrightarrow> sys_region os a w' = sys_region os a w)"
proof -
  obtain q mem where q: "pub_queue p = Some q" and mem: "sys_region os (q_storage q) w = Some mem"
    "256 \<le> length mem" and att: "attached q (SPSCStorage_at mem)" and rep: "queue_rep (SPSCStorage_at mem) ms"
    using assms(1) unfolding pub_holds_def by blast
  have "admissible (SPSCStorage_at mem) m" "\<not> overtaking (SPSCStorage_at mem) m"
    using assms(2) q mem unfolding pub_fits_def by blast+
  from enqueue_queue [OF rep att assms(3) this] obtain b s'
    where enq: "enqueue q h val (SPSCStorage_at mem) = Inr (b, s')" and "attached q s'"
      and len: "length (st_buffer s') = length (st_buffer (SPSCStorage_at mem))"
      and new: "if b then queue_rep s' (ms @ [m]) else s' = SPSCStorage_at mem" by blast
  let ?w' = "sys_store os (q_storage q) (SPSCStorage_put mem s') w"
  have run: "publisher_publish os h p val w = Inr (b, ?w')"
    using queue_region_Some [OF q mem] enq by (simp add: publisher_publish_def)
  then have b: "pub_accepts os h val w p = b" by (simp add: pub_accepts_def)
  note put = put_at [OF mem(2) len]
  have "sys_region os (q_storage q) ?w' = Some (SPSCStorage_put mem s')"
    using store_here [OF mem(1) put(2)] .
  then have "pub_holds os ?w' p (if b then ms @ [m] else ms)"
    unfolding pub_holds_def using q put mem(2) \<open>attached q s'\<close> new rep
    by (intro exI [of _ q] exI [of _ "SPSCStorage_put mem s'"]) (auto split: if_splits)
  then show ?thesis using run b q by (auto simp: store_maps store_other pub_addr_def)
qed

lemma holds_other:
  assumes "\<forall>a. obj w a \<noteq> o1 \<longrightarrow> sys_region os a w' = sys_region os a w" and "obj w (pub_addr p) \<noteq> o1"
  shows "pub_holds os w' p ms = pub_holds os w p ms" "pub_fits os w' p m = pub_fits os w p m"
    "pub_accepts os h val w' p = pub_accepts os h val w p"
proof -
  have same: "sys_region os (q_storage q) w' = sys_region os (q_storage q) w" if "pub_queue p = Some q" for q
    using assms that by (simp add: pub_addr_def)
  then show "pub_holds os w' p ms = pub_holds os w p ms" "pub_fits os w' p m = pub_fits os w p m"
    unfolding pub_holds_def pub_fits_def by (cases "pub_queue p"; simp)+
  show "pub_accepts os h val w' p = pub_accepts os h val w p"
    using same
    by (cases "pub_queue p")
      (auto simp: pub_accepts_def publisher_publish_def queue_region_def split: sum.splits option.splits)
qed

lemma publish_all_reaches:
  assumes "\<forall>p \<in> set pubs. pub_holds os w p (ms p) \<and> pub_fits os w p m" and "payload_is h val m"
    and "distinct (map (\<lambda>p. obj w (pub_addr p)) pubs)"
  shows "\<exists>w'. publish_all os h val pubs b w = Inr (b \<and> (\<forall>p \<in> set pubs. pub_accepts os h val w p), w') \<and>
    (\<forall>p \<in> set pubs. pub_holds os w' p (if pub_accepts os h val w p then ms p @ [m] else ms p)) \<and>
    obj w' = obj w \<and>
    (\<forall>a. obj w a \<notin> (\<lambda>p. obj w (pub_addr p)) ` set pubs \<longrightarrow> sys_region os a w' = sys_region os a w)"
  using assms
proof (induction pubs arbitrary: b w)
  case (Cons p pubs)
  let ?acc = "pub_accepts os h val w"
  have "pub_holds os w p (ms p)" "pub_fits os w p m" using Cons.prems(1) by simp_all
  from publish_one [OF this Cons.prems(2)]
  obtain w1 where one: "publisher_publish os h p val w = Inr (?acc p, w1)"
    "pub_holds os w1 p (if ?acc p then ms p @ [m] else ms p)" "obj w1 = obj w"
    and frame: "\<forall>a. obj w a \<noteq> obj w (pub_addr p) \<longrightarrow> sys_region os a w1 = sys_region os a w"
    by blast
  have other: "obj w (pub_addr p') \<noteq> obj w (pub_addr p)" if "p' \<in> set pubs" for p'
  proof
    assume "obj w (pub_addr p') = obj w (pub_addr p)"
    then have "obj w (pub_addr p) \<in> (\<lambda>p. obj w (pub_addr p)) ` set pubs"
      using that by (intro image_eqI [of _ _ p']) simp_all
    then show False using Cons.prems(3) by simp
  qed
  note holds = holds_other [OF frame other]
  have same: "pub_accepts os h val w1 p' = ?acc p'" if "p' \<in> set pubs" for p'
    using holds(3) [OF that] .
  have "\<forall>p \<in> set pubs. pub_holds os w1 p (ms p) \<and> pub_fits os w1 p m"
    using Cons.prems(1) holds by simp
  from Cons.IH [OF this Cons.prems(2), of "b \<and> ?acc p"] obtain w'
    where rest: "publish_all os h val pubs (b \<and> ?acc p) w1 =
        Inr ((b \<and> ?acc p) \<and> (\<forall>p \<in> set pubs. ?acc p), w')"
      "\<forall>p \<in> set pubs. pub_holds os w' p (if ?acc p then ms p @ [m] else ms p)"
      "obj w' = obj w"
      "\<forall>a. obj w a \<notin> (\<lambda>p. obj w (pub_addr p)) ` set pubs \<longrightarrow> sys_region os a w' = sys_region os a w1"
    using Cons.prems(3) one(3) same by auto
  have "obj w (pub_addr p) \<notin> (\<lambda>p. obj w (pub_addr p)) ` set pubs" using Cons.prems(3) by simp
  with rest(4) have "sys_region os (pub_addr p) w' = sys_region os (pub_addr p) w1" by blast
  then have "pub_holds os w' p (if ?acc p then ms p @ [m] else ms p)"
    using one(2) unfolding pub_holds_def pub_addr_def by (cases "pub_queue p"; simp)
  moreover have "publish_all os h val (p # pubs) b w = Inr (b \<and> (\<forall>p \<in> set (p # pubs). ?acc p), w')"
    using one(1) rest(1) by auto
  ultimately show ?case using rest frame by (intro exI [of _ w']) auto
qed simp

end

section \<open>Properties\<close>



text \<open>
  C8: publishing reaches every publisher. When the publishers write to different objects and the
  message overtakes in none of them, every queue is tried whatever the others answered, a queue
  gets the message exactly when it accepts it, the result tells whether all did, and the lock is
  free again.
\<close>

theorem publish_reaches_all:
  assumes sys: "posix_memory os obj" and free: "\<not> locked (ps_lock_obj ps)"
    and ready: "\<forall>p \<in> set (ps_publishers ps). pub_holds os w p (ms p) \<and> pub_fits os w p m"
    and pay: "payload_is h val m"
    and diff: "distinct (map (\<lambda>p. obj w (pub_addr p)) (ps_publishers ps))"
  shows "\<exists>w'. publish os h val ps w =
      Some (Inr (\<forall>p \<in> set (ps_publishers ps). pub_accepts os h val w p, ps, w')) \<and>
    (\<forall>p \<in> set (ps_publishers ps).
       pub_holds os w' p (if pub_accepts os h val w p then ms p @ [m] else ms p))"
proof -
  from posix_memory.publish_all_reaches [OF sys ready pay diff, of True] obtain w'
    where "publish_all os h val (ps_publishers ps) True w =
        Inr (\<forall>p \<in> set (ps_publishers ps). pub_accepts os h val w p, w')"
      and "\<forall>p \<in> set (ps_publishers ps).
        pub_holds os w' p (if pub_accepts os h val w p then ms p @ [m] else ms p)" by auto
  then show ?thesis using free by (simp add: publish_def guard_restores)
qed

text \<open>Two publishers over objects that hold empty queues of 64 bytes.\<close>

definition demo_publisher :: "string \<Rightarrow> addr \<Rightarrow> Publisher" where
  "demo_publisher name a =
     Publisher_new (PubSubConfig_new name 320) None (Some (SPSCQueue_new a demo_storage))"

definition demo_kern :: kern where
  "demo_kern = (boot 3)\<lparr>k_maps := [4096 \<mapsto> 0, 12288 \<mapsto> 1],
     k_data := (\<lambda>_. SPSCStorage_put (replicate 320 0) demo_storage)\<rparr>"

lemma demo_region:
  assumes "a = 4096 \<or> a = 12288"
  shows "sys_region kernel_os a demo_kern = Some (SPSCStorage_put (replicate 320 0) demo_storage)"
    and "SPSCStorage_at (SPSCStorage_put (replicate 320 0) demo_storage) = demo_storage"
    and "length (SPSCStorage_put (replicate 320 0) demo_storage) = 320"
  using assms
  by (auto simp: demo_kern_def kernel_os_def kern_region_def SPSCStorage_at_put
      length_SPSCStorage_put demo_buffer)

lemma demo_publisher_ready:
  assumes "a = 4096 \<or> a = 12288"
  shows "pub_holds kernel_os demo_kern (demo_publisher name a) [] \<and>
    pub_fits kernel_os demo_kern (demo_publisher name a) [1, 2, 3]"
  using demo_region [OF assms] demo_rep
  by (simp add: pub_holds_def pub_fits_def demo_publisher_def Publisher_new_def SPSCQueue_new_def
      attached_def admissible_def demo_buffer overtaking_def overtakes_def demo_storage_def)

theorem publish_reaches_all_witness:
  "\<exists>b w'. publish kernel_os [8192 \<mapsto> [1, 2, 3]] (Message_borrows 8192 3)
       (PubSub_new\<lparr>ps_publishers := [demo_publisher ''/a'' 4096, demo_publisher ''/b'' 12288]\<rparr>) demo_kern
     = Some (Inr (b, PubSub_new\<lparr>ps_publishers := [demo_publisher ''/a'' 4096, demo_publisher ''/b'' 12288]\<rparr>, w'))"
proof -
  let ?ps = "PubSub_new\<lparr>ps_publishers := [demo_publisher ''/a'' 4096, demo_publisher ''/b'' 12288]\<rparr>"
  have "\<not> locked (ps_lock_obj ?ps)" by (simp add: PubSub_new_def SpinLock_new_def)
  moreover have "\<forall>p \<in> set (ps_publishers ?ps). pub_holds kernel_os demo_kern p [] \<and>
      pub_fits kernel_os demo_kern p [1, 2, 3]"
    using demo_publisher_ready by simp
  moreover have "payload_is [8192 \<mapsto> [1, 2, 3]] (Message_borrows 8192 3) [1, 2, 3]"
    using payload_borrows [of "[1, 2, 3]" 8192] by simp
  moreover have "distinct (map (\<lambda>p. k_maps demo_kern (pub_addr p)) (ps_publishers ?ps))"
    by (simp add: pub_addr_def demo_publisher_def Publisher_new_def SPSCQueue_new_def demo_kern_def)
  ultimately show ?thesis
    using publish_reaches_all [OF kernel_mem.posix_memory_axioms, of ?ps demo_kern "\<lambda>_. []"] by blast
qed

text \<open>
  A failed synchronisation leaves its pending removal behind. When a synchronisation that no
  longer lists a publisher fails on another configuration, the publisher stays, but the next
  successful synchronisation removes it although its configuration is listed again.
\<close>

theorem sync_failure_drops_publisher:
  assumes "\<not> locked (ps_lock_obj ps)" and "ps_change_queue ps = []" and "ps_publishers ps = [p]"
    and "cfg_shm_name good = pub_name p" and "cfg_shm_name bad \<noteq> pub_name p"
    and "Publisher_from_config os loc bad w = Inr (Inl e, w1)"
  shows "\<exists>ps1 ps2 w2. sync_configs os loc [bad] ps w = Some (Inr (Inl e, ps1, w1)) \<and>
    ps_publishers ps1 = [p] \<and>
    sync_configs os loc [good] ps1 w1 = Some (Inr (Inr (), ps2, w2)) \<and> ps_publishers ps2 = []"
proof -
  let ?ps1 = "ps\<lparr>ps_change_queue := [removal (pub_name p)]\<rparr>"
  have "sync_configs os loc [bad] ps w = Some (Inr (Inl e, ?ps1, w1))"
    using assms by (simp add: sync_configs_def guard_restores)
  moreover have "apply_change os (removal (pub_name p)) ([p], w1) = ([], Publisher_destroy os p w1)"
    using apply_removal_present [of p "pub_name p" "[]" os "[]" w1] by simp
  then have "\<exists>ps2 w2. sync_configs os loc [good] ?ps1 w1 = Some (Inr (Inr (), ps2, w2)) \<and>
      ps_publishers ps2 = []"
    using assms by (simp add: sync_configs_def apply_changes_def)
  ultimately show ?thesis using assms(3) by auto
qed

theorem sync_failure_drops_publisher_witness:
  "\<exists>ps1 ps2 e w1 w2. sync_configs kernel_os loc0 [PubSubConfig_new ''/bad'' 0]
       (PubSub_new\<lparr>ps_publishers := [demo_publisher ''/a'' 4096]\<rparr>) demo_kern = Some (Inr (Inl e, ps1, w1)) \<and>
     sync_configs kernel_os loc0 [PubSubConfig_new ''/a'' 320] ps1 w1 = Some (Inr (Inr (), ps2, w2)) \<and>
     ps_publishers ps2 = []"
proof -
  let ?ps = "PubSub_new\<lparr>ps_publishers := [demo_publisher ''/a'' 4096]\<rparr>"
  obtain e w1 where "Publisher_from_config kernel_os loc0 (PubSubConfig_new ''/bad'' 0) demo_kern =
      Inr (Inl e, w1)"
    by (simp add: Publisher_from_config_def publisher_open_def publisher_recreate_def shm_exists_def
        kernel_os_def kern_defs demo_kern_def boot_def exists_flags_def EEXIST_def PubSubConfig_new_def
        open_or_create_def shm_step_defs create_flags_def)
  then show ?thesis
    using sync_failure_drops_publisher [of ?ps "demo_publisher ''/a'' 4096" "PubSubConfig_new ''/a'' 320"
        "PubSubConfig_new ''/bad'' 0" kernel_os loc0 demo_kern e w1]
    by (auto simp: PubSub_new_def SpinLock_new_def demo_publisher_def Publisher_new_def pub_name_def
        PubSubConfig_new_def)
qed

text \<open>
  A failed synchronisation also leaves its pending additions behind. When a configuration is
  opened before a later one fails, the next successful synchronisation opens it a second time, and
  from then on there are two publishers for it.
\<close>

theorem sync_failure_duplicates_publisher:
  assumes "\<not> locked (ps_lock_obj ps)" and "ps_change_queue ps = []" and "ps_publishers ps = []"
    and "Publisher_from_config os loc good w = Inr (Inr p, w1)"
    and "Publisher_from_config os loc bad w1 = Inr (Inl e, w2)"
    and "Publisher_from_config os loc good w2 = Inr (Inr p', w3)"
  shows "\<exists>ps1 ps2. sync_configs os loc [good, bad] ps w = Some (Inr (Inl e, ps1, w2)) \<and>
    ps_publishers ps1 = [] \<and>
    sync_configs os loc [good] ps1 w2 = Some (Inr (Inr (), ps2, w3)) \<and> ps_publishers ps2 = [p, p'] \<and>
    pub_config p = good \<and> pub_config p' = good"
proof -
  let ?ps1 = "ps\<lparr>ps_change_queue := [addition p]\<rparr>"
  have "sync_configs os loc [good, bad] ps w = Some (Inr (Inl e, ?ps1, w2))"
    using assms by (simp add: sync_configs_def guard_restores)
  moreover have "\<exists>ps2. sync_configs os loc [good] ?ps1 w2 = Some (Inr (Inr (), ps2, w3)) \<and>
      ps_publishers ps2 = [p, p']"
    using assms by (simp add: sync_configs_def apply_changes_def)
  ultimately show ?thesis
    using assms(3) from_config_config [OF assms(4)] from_config_config [OF assms(6)] by auto
qed

definition twice_run :: "(kern \<times> kern \<times> kern) option" where
  "twice_run =
     (case Publisher_from_config kernel_os loc0 (PubSubConfig_new ''/q'' 320) (boot 3) of
        Inr (Inr p, w1) \<Rightarrow>
          (case Publisher_from_config kernel_os loc0 (PubSubConfig_new ''/bad'' 0) w1 of
             Inr (Inl e, w2) \<Rightarrow>
               (case Publisher_from_config kernel_os loc0 (PubSubConfig_new ''/q'' 320) w2 of
                  Inr (Inr p', w3) \<Rightarrow> Some (w1, w2, w3)
                | _ \<Rightarrow> None)
           | _ \<Rightarrow> None)
      | _ \<Rightarrow> None)"

theorem sync_failure_duplicates_publisher_witness:
  "\<exists>ps1 ps2 e w1 w2. sync_configs kernel_os loc0 [PubSubConfig_new ''/q'' 320, PubSubConfig_new ''/bad'' 0]
       PubSub_new (boot 3) = Some (Inr (Inl e, ps1, w1)) \<and>
     sync_configs kernel_os loc0 [PubSubConfig_new ''/q'' 320] ps1 w1 = Some (Inr (Inr (), ps2, w2)) \<and>
     length (ps_publishers ps2) = 2"
proof -
  have "twice_run \<noteq> None" by code_simp
  then obtain p w1 e w2 p' w3
    where runs: "Publisher_from_config kernel_os loc0 (PubSubConfig_new ''/q'' 320) (boot 3) = Inr (Inr p, w1)"
      "Publisher_from_config kernel_os loc0 (PubSubConfig_new ''/bad'' 0) w1 = Inr (Inl e, w2)"
      "Publisher_from_config kernel_os loc0 (PubSubConfig_new ''/q'' 320) w2 = Inr (Inr p', w3)"
    by (auto simp: twice_run_def split: sum.splits prod.splits)
  have "\<not> locked (ps_lock_obj PubSub_new)" "ps_change_queue PubSub_new = []" "ps_publishers PubSub_new = []"
    by (simp_all add: PubSub_new_def SpinLock_new_def)
  from sync_failure_duplicates_publisher [OF this runs] show ?thesis by fastforce
qed

end
