(* ===== verification/Threads.thy ===== *)
theory Threads
  imports Ipc_Errors
begin

text \<open>
  \<^verbatim>\<open>include/posix_ipc/threads.hpp\<close>: pinning a thread to a processor and naming it, over any
  implementation of the two non-portable pthread calls. A \<^verbatim>\<open>std::string_view\<close> is a length and the
  characters that start at its pointer; \<^verbatim>\<open>data()\<close> forgets the length.
\<close>

section \<open>The calls\<close>

type_synonym pthread = nat

text \<open>\<^verbatim>\<open>cpu_set_t\<close>: \<^verbatim>\<open>CPU_SET\<close> ignores a processor number the set has no bit for.\<close>

definition CPU_SETSIZE :: int where "CPU_SETSIZE = 1024"

definition CPU_SET :: "int \<Rightarrow> int set \<Rightarrow> int set" where
  "CPU_SET cpu s = (if 0 \<le> cpu \<and> cpu < CPU_SETSIZE then insert cpu s else s)"

record 'w pthread_os =
  pt_setaffinity :: "pthread \<Rightarrow> int set \<Rightarrow> 'w \<Rightarrow> int \<times> 'w"
  pt_setname :: "pthread \<Rightarrow> string \<Rightarrow> 'w \<Rightarrow> int \<times> 'w"
  pt_self :: "'w \<Rightarrow> pthread"
  pt_errno :: "'w \<Rightarrow> int"
  pt_strerror :: "int \<Rightarrow> string"

record string_view =
  sv_mem :: string
  sv_size :: nat

definition NUL :: char where "NUL = CHR 0x00"

definition sv_chars :: "string_view \<Rightarrow> string" where
  "sv_chars v = take (sv_size v) (sv_mem v)"

text \<open>The characters a callee that expects a C string sees behind \<^verbatim>\<open>data()\<close>.\<close>

definition c_str :: "string_view \<Rightarrow> string" where
  "c_str v = takeWhile (\<lambda>c. c \<noteq> NUL) (sv_mem v)"

text \<open>The implicit conversion of \<^verbatim>\<open>const char*\<close> to a view measures the C string.\<close>

definition view_of_data :: "string_view \<Rightarrow> string_view" where
  "view_of_data v = \<lparr>sv_mem = sv_mem v, sv_size = length (c_str v)\<rparr>"

section \<open>Pinning\<close>

definition pin ::
    "'w pthread_os \<Rightarrow> source_location \<Rightarrow> pthread \<Rightarrow> int \<Rightarrow> 'w \<Rightarrow> (PosixIpcError + unit) \<times> 'w" where
  "pin os loc thread cpu w =
     (if cpu < 0 then (Inr (), w)
      else
        (let cpuset = CPU_SET cpu {};
             (rc, w1) = pt_setaffinity os thread cpuset w in
         if rc = -1
         then (Inl (PosixIpcError_new thread_set_affinity_failed
                 (''cpu='' @ fmt_int cpu @ '', strerror='' @ pt_strerror os (pt_errno os w1) @
                  '', errno='' @ fmt_int (pt_errno os w1)) loc), w1)
         else (Inr (), w1)))"

definition pin_jthread ::
    "'w pthread_os \<Rightarrow> source_location \<Rightarrow> pthread \<Rightarrow> int \<Rightarrow> 'w \<Rightarrow> (PosixIpcError + unit) \<times> 'w" where
  "pin_jthread os loc native_handle cpu w = pin os loc native_handle cpu w"

definition pin_thread ::
    "'w pthread_os \<Rightarrow> source_location \<Rightarrow> pthread \<Rightarrow> int \<Rightarrow> 'w \<Rightarrow> (PosixIpcError + unit) \<times> 'w" where
  "pin_thread os loc native_handle cpu w = pin os loc native_handle cpu w"

definition pin_self ::
    "'w pthread_os \<Rightarrow> source_location \<Rightarrow> int \<Rightarrow> 'w \<Rightarrow> (PosixIpcError + unit) \<times> 'w" where
  "pin_self os loc cpu w = pin os loc (pt_self os w) cpu w"

section \<open>Naming\<close>

definition THREAD_NAME_MAX :: nat where "THREAD_NAME_MAX = 15"

definition set_name ::
    "'w pthread_os \<Rightarrow> source_location \<Rightarrow> pthread \<Rightarrow> string_view \<Rightarrow> 'w \<Rightarrow>
       (PosixIpcError + unit) \<times> 'w" where
  "set_name os loc thread name w =
     (if sv_size name > THREAD_NAME_MAX
      then (Inl (PosixIpcError_new thread_set_name_failed
              (''Thread name too long, max. '' @ fmt_nat THREAD_NAME_MAX @ '' chars allowed, got '' @
               sv_chars name @ ''.'') loc), w)
      else
        (let (rc, w1) = pt_setname os thread (c_str name) w in
         if rc = -1
         then (Inl (PosixIpcError_new thread_set_name_failed
                 (''Failed to set thread name='' @ sv_chars name @ '', strerror='' @
                  pt_strerror os (pt_errno os w1) @ '', errno='' @ fmt_int (pt_errno os w1)) loc), w1)
         else (Inr (), w1)))"

definition set_name_jthread ::
    "'w pthread_os \<Rightarrow> source_location \<Rightarrow> pthread \<Rightarrow> string_view \<Rightarrow> 'w \<Rightarrow>
       (PosixIpcError + unit) \<times> 'w" where
  "set_name_jthread os loc native_handle name w =
     set_name os loc native_handle (view_of_data name) w"

definition set_name_thread ::
    "'w pthread_os \<Rightarrow> source_location \<Rightarrow> pthread \<Rightarrow> string_view \<Rightarrow> 'w \<Rightarrow>
       (PosixIpcError + unit) \<times> 'w" where
  "set_name_thread os loc native_handle name w =
     set_name os loc native_handle (view_of_data name) w"

definition set_name_self ::
    "'w pthread_os \<Rightarrow> source_location \<Rightarrow> string_view \<Rightarrow> 'w \<Rightarrow> (PosixIpcError + unit) \<times> 'w" where
  "set_name_self os loc name w = set_name os loc (pt_self os w) (view_of_data name) w"

section \<open>Properties\<close>

text \<open>
  The documented return values: 0, or a positive error number. Neither call returns -1 or sets
  \<^verbatim>\<open>errno\<close>.
\<close>

definition returns_error_numbers :: "'w pthread_os \<Rightarrow> bool" where
  "returns_error_numbers os \<longleftrightarrow>
     (\<forall>t s w. 0 \<le> fst (pt_setaffinity os t s w)) \<and> (\<forall>t n w. 0 \<le> fst (pt_setname os t n w))"

text \<open>A system on which every call fails: the affinity call with \<^verbatim>\<open>EINVAL\<close>, naming with \<^verbatim>\<open>ERANGE\<close>.\<close>

definition failing_threads :: "unit pthread_os" where
  "failing_threads =
     \<lparr>pt_setaffinity = (\<lambda>t s w. (22, w)), pt_setname = (\<lambda>t n w. (34, w)), pt_self = (\<lambda>w. 1),
      pt_errno = (\<lambda>w. 0), pt_strerror = (\<lambda>e. ''error'')\<rparr>"

lemma pin_ok:
  assumes "returns_error_numbers os"
  shows "pin os loc t cpu w =
    (Inr (), if cpu < 0 then w else snd (pt_setaffinity os t (CPU_SET cpu {}) w))"
proof -
  have "fst (pt_setaffinity os t (CPU_SET cpu {}) w) \<noteq> -1"
    using assms unfolding returns_error_numbers_def by (metis neg_0_le_iff_le not_one_le_zero)
  then show ?thesis by (auto simp: pin_def Let_def split: prod.split)
qed

lemma set_name_ok:
  assumes "returns_error_numbers os" and "sv_size name \<le> 15"
  shows "set_name os loc t name w = (Inr (), snd (pt_setname os t (c_str name) w))"
proof -
  have "fst (pt_setname os t (c_str name) w) \<noteq> -1"
    using assms(1) unfolding returns_error_numbers_def by (metis neg_0_le_iff_le not_one_le_zero)
  then show ?thesis using assms(2)
    by (auto simp: set_name_def THREAD_NAME_MAX_def Let_def split: prod.split)
qed

text \<open>
  C40: failures of the pthread calls are never reported. With the documented return values every
  call of \<^verbatim>\<open>pin\<close> succeeds, whatever error number \<^verbatim>\<open>pthread_setaffinity_np\<close> returned, and
  \<^verbatim>\<open>set_name\<close> succeeds for every name of at most 15 characters, whatever \<^verbatim>\<open>pthread_setname_np\<close>
  returned; a longer name is refused without a call.
\<close>

theorem thread_failures_unreported:
  assumes "returns_error_numbers os"
  shows "fst (pin os loc t cpu w) = Inr () \<and>
    (sv_size name \<le> 15 \<longrightarrow> fst (set_name os loc t name w) = Inr ()) \<and>
    (15 < sv_size name \<longrightarrow> (\<exists>e. set_name os loc t name w = (Inl e, w) \<and>
       err_code e = thread_set_name_failed))"
  using pin_ok [OF assms] set_name_ok [OF assms]
  by (simp add: set_name_def THREAD_NAME_MAX_def PosixIpcError_new_def)

theorem thread_failures_unreported_witness:
  "pt_setaffinity failing_threads 7 {2000} () = (22, ()) \<and>
   fst (pin failing_threads loc0 7 2000 ()) = Inr () \<and>
   fst (set_name failing_threads loc0 7 \<lparr>sv_mem = ''io'' @ [NUL], sv_size = 2\<rparr> ()) = Inr ()"
proof -
  have "returns_error_numbers failing_threads"
    by (simp add: returns_error_numbers_def failing_threads_def)
  then show ?thesis
    using thread_failures_unreported [of failing_threads loc0 7 2000 "()" "\<lparr>sv_mem = ''io'' @ [NUL], sv_size = 2\<rparr>"]
    by (simp add: failing_threads_def)
qed

text \<open>
  A view's length is lost on the way to the kernel. For a null-terminated view the four
  naming functions agree and pass exactly its characters; for a view of a part of a longer string
  \<^verbatim>\<open>set_name\<close> checks the length of the part but passes the whole string, and the overloads that
  rebuild the view check and pass the whole string.
\<close>

theorem thread_name_passed:
  assumes "sv_mem name = sv_chars name @ rest" and "sv_size name = length (sv_chars name)"
    and "NUL \<notin> set (sv_chars name)"
  shows "c_str name = sv_chars name @ takeWhile (\<lambda>c. c \<noteq> NUL) rest \<and>
    (takeWhile (\<lambda>c. c \<noteq> NUL) rest = [] \<longrightarrow>
       view_of_data name = name \<and>
       set_name_jthread os loc t name w = set_name os loc t name w \<and>
       set_name_thread os loc t name w = set_name os loc t name w \<and>
       set_name_self os loc name w = set_name os loc (pt_self os w) name w) \<and>
    (sv_size name \<le> 15 \<longrightarrow> snd (set_name os loc t name w) =
       snd (pt_setname os t (sv_chars name @ takeWhile (\<lambda>c. c \<noteq> NUL) rest) w))"
proof -
  have c: "c_str name = sv_chars name @ takeWhile (\<lambda>c. c \<noteq> NUL) rest"
    using assms(3) unfolding c_str_def by (subst assms(1)) (rule takeWhile_append2, auto)
  moreover have "takeWhile (\<lambda>c. c \<noteq> NUL) rest = [] \<Longrightarrow> view_of_data name = name"
    using c assms(2) by (cases name) (simp add: view_of_data_def)
  ultimately show ?thesis
    by (auto simp: set_name_jthread_def set_name_thread_def set_name_self_def set_name_def
        THREAD_NAME_MAX_def Let_def split: prod.split)
qed

theorem thread_name_passed_witness:
  "c_str \<lparr>sv_mem = ''io-worker'' @ [NUL], sv_size = 2\<rparr> = ''io-worker'' \<and>
   sv_chars \<lparr>sv_mem = ''io-worker'' @ [NUL], sv_size = 2\<rparr> = ''io''"
proof -
  let ?v = "\<lparr>sv_mem = ''io-worker'' @ [NUL], sv_size = 2\<rparr>"
  have "c_str ?v = sv_chars ?v @ takeWhile (\<lambda>c. c \<noteq> NUL) (''-worker'' @ [NUL])"
    by (rule thread_name_passed [THEN conjunct1]) (simp_all add: sv_chars_def NUL_def)
  then show ?thesis by (simp add: sv_chars_def NUL_def)
qed

end
