(* ===== verification/SPSC_Layout.thy ===== *)
theory SPSC_Layout
  imports SPSC_Correct
begin

text \<open>
  What no call on a queue changes of its storage: the part of the header that \<^verbatim>\<open>SPSCStorage::map\<close> checks, and
  the length of the buffer.
\<close>

section \<open>The type of a storage object\<close>

text \<open>A call on the queue, with any message or view, on a storage in any state.\<close>

inductive spsc_call :: "SPSCQueue \<Rightarrow> SPSCStorage \<Rightarrow> SPSCStorage \<Rightarrow> bool" for q where
  call_enqueue: "enqueue q h msg s = Inr (b, s') \<Longrightarrow> spsc_call q s s'"
| call_dequeue_begin: "dequeue_begin q s = Some (Inr (v, s')) \<Longrightarrow> spsc_call q s s'"
| call_dequeue_commit: "spsc_call q s (dequeue_commit v s)"

definition same_layout :: "SPSCStorage \<Rightarrow> SPSCStorage \<Rightarrow> bool" where
  "same_layout s s' \<longleftrightarrow>
     st_magic s' = st_magic s \<and> st_abi_version s' = st_abi_version s \<and>
     st_storage_size s' = st_storage_size s \<and> length (st_buffer s') = length (st_buffer s)"

lemma enqueue_same_layout: "enqueue q h msg s = Inr (b, s') \<Longrightarrow> same_layout s s'"
  by (auto simp: enqueue_def enqueue_body_def Let_def same_layout_def mem_write_def length_mem_splice
      split: if_splits option.splits Option.bind_splits)

lemma dequeue_begin_same_layout:
  assumes "dequeue_begin q s = Some r"
  shows "r = Inr (v, s') \<longrightarrow> same_layout s s'"
proof (rule dequeue_begin.raw_induct [OF _ assms, where P = "\<lambda>q s r. r = Inr (v, s') \<longrightarrow> same_layout s s'"])
  fix f q s r
  assume "\<And>q s r. f q s = Some r \<Longrightarrow> r = Inr (v, s') \<longrightarrow> same_layout s s'"
    and "(case dequeue_pass q s of DeqView v \<Rightarrow> Some (Inr (v, s)) | DeqRecheck s' \<Rightarrow> f q s' | DeqFault f \<Rightarrow> Some (Inl f)) = Some r"
  then show "r = Inr (v, s') \<longrightarrow> same_layout s s'"
    by (fastforce simp: same_layout_def dequeue_pass_def Let_def split: deq_pass.splits option.splits if_splits)
qed

lemma spsc_calls_same_layout: "(spsc_call q)\<^sup>*\<^sup>* s s' \<Longrightarrow> same_layout s s'"
proof (induction rule: rtranclp_induct)
  case (step s1 s2)
  from step(2) have "same_layout s1 s2"
    by cases (auto dest: enqueue_same_layout dequeue_begin_same_layout simp: same_layout_def dequeue_commit_def Let_def)
  with step(3) show ?case by (simp add: same_layout_def)
qed (simp add: same_layout_def)



end
