(* ===== verification/Queue_Benchmarks.thy ===== *)
theory Queue_Benchmarks
  imports SPSC_Correct
begin

text \<open>
  The loops of \<^verbatim>\<open>bench/bm_spsc_threads.cpp\<close>: a producer sends the numbers below \<^verbatim>\<open>msg_count\<close> through a
  queue, a consumer adds up what it receives, and \<^verbatim>\<open>bm_runner\<close> checks count and sum. The queue is a
  parameter, and what the loops need of it (first in, first out, and room in an empty queue) is an
  interface. Each call of a queue is one step, and the calls of the two threads interleave. Waiting
  instructions (\<^verbatim>\<open>pause\<close>, \<^verbatim>\<open>yield\<close>) do not change the state. The benchmarks themselves are in
  \<open>Thread_Benchmarks\<close>.
\<close>

section \<open>Loops\<close>

datatype bench_pc = Outer | Inner | Item | Popping | Finished

record ('s, 'a) bench =
  b_queue :: 's
  b_produced :: u64
  b_pc :: bench_pc
  b_counter :: u64
  b_acc :: 'a

definition bench_start :: "'a \<Rightarrow> 's \<Rightarrow> ('s, 'a) bench" where
  "bench_start a s = \<lparr>b_queue = s, b_produced = 0, b_pc = Outer, b_counter = 0, b_acc = a\<rparr>"

text \<open>The producer: one attempt to send the current element, the \<open>elem i\<close> for its counter \<open>i\<close>.\<close>

definition bench_producer ::
    "(u64 \<Rightarrow> 'm) \<Rightarrow> ('m \<Rightarrow> 's \<Rightarrow> bool \<times> 's) \<Rightarrow> u64 \<Rightarrow> ('s, 'a) bench \<Rightarrow> ('s, 'a) bench" where
  "bench_producer elem push msg_count b =
     (if b_produced b < msg_count then
        (case push (elem (b_produced b)) (b_queue b) of
           (True, s) \<Rightarrow> b\<lparr>b_queue := s, b_produced := b_produced b + 1\<rparr>
         | (False, s) \<Rightarrow> b\<lparr>b_queue := s\<rparr>)
      else b)"

definition outer_test :: "u64 \<Rightarrow> ('s, 'a) bench \<Rightarrow> ('s, 'a) bench" where
  "outer_test msg_count b = b\<lparr>b_pc := if b_counter b < msg_count then Inner else Finished\<rparr>"

text \<open>Waiting until an attempt to pop succeeds. What is done with an element is the function \<open>use\<close>.\<close>

definition consumer_spin ::
    "('m \<Rightarrow> 'a \<Rightarrow> 'a) \<Rightarrow> ('s \<Rightarrow> 'm option \<times> 's) \<Rightarrow> u64 \<Rightarrow> ('s, 'a) bench \<Rightarrow> ('s, 'a) bench" where
  "consumer_spin use pop msg_count b =
     (case b_pc b of
        Outer \<Rightarrow> outer_test msg_count b
      | Inner \<Rightarrow>
          (case pop (b_queue b) of
             (Some item, s) \<Rightarrow>
               b\<lparr>b_queue := s, b_counter := b_counter b + 1, b_acc := use item (b_acc b), b_pc := Outer\<rparr>
           | (None, s) \<Rightarrow> b\<lparr>b_queue := s\<rparr>)
      | _ \<Rightarrow> b)"

text \<open>Popping as long as there is something.\<close>

definition consumer_drain ::
    "('m \<Rightarrow> 'a \<Rightarrow> 'a) \<Rightarrow> ('s \<Rightarrow> 'm option \<times> 's) \<Rightarrow> u64 \<Rightarrow> ('s, 'a) bench \<Rightarrow> ('s, 'a) bench" where
  "consumer_drain use pop msg_count b =
     (case b_pc b of
        Outer \<Rightarrow> outer_test msg_count b
      | Inner \<Rightarrow>
          (case pop (b_queue b) of
             (Some item, s) \<Rightarrow> b\<lparr>b_queue := s, b_counter := b_counter b + 1, b_acc := use item (b_acc b)\<rparr>
           | (None, s) \<Rightarrow> b\<lparr>b_queue := s, b_pc := Outer\<rparr>)
      | _ \<Rightarrow> b)"

text \<open>Looking at the front until there is an element, reading it, and removing it. \<open>front\<close> looks,
  \<open>item\<close> reads what was seen.\<close>

definition consumer_front ::
    "('m \<Rightarrow> 'a \<Rightarrow> 'a) \<Rightarrow> ('s \<Rightarrow> bool \<times> 's) \<Rightarrow> ('s \<Rightarrow> 'm) \<Rightarrow> ('s \<Rightarrow> 's) \<Rightarrow> u64 \<Rightarrow>
       ('s, 'a) bench \<Rightarrow> ('s, 'a) bench" where
  "consumer_front use front item pop msg_count b =
     (case b_pc b of
        Outer \<Rightarrow> outer_test msg_count b
      | Inner \<Rightarrow>
          (case front (b_queue b) of
             (True, s) \<Rightarrow> b\<lparr>b_queue := s, b_pc := Item\<rparr>
           | (False, s) \<Rightarrow> b\<lparr>b_queue := s\<rparr>)
      | Item \<Rightarrow>
          b\<lparr>b_counter := b_counter b + 1, b_acc := use (item (b_queue b)) (b_acc b), b_pc := Popping\<rparr>
      | Popping \<Rightarrow> b\<lparr>b_queue := pop (b_queue b), b_pc := Outer\<rparr>
      | Finished \<Rightarrow> b)"

text \<open>The sum of a consumer, and the checks of \<^verbatim>\<open>bm_runner\<close> on what it returns.\<close>

definition add_to_sum :: "u64 \<Rightarrow> u64 \<Rightarrow> u64" where
  "add_to_sum item acc = acc + item"

datatype sanity = Sane | Mismatch_Counter u64 | Wrong_Sum u64 u64

definition sanity_checks :: "u64 \<Rightarrow> u64 \<Rightarrow> u64 \<Rightarrow> sanity" where
  "sanity_checks msg_count acc counter =
     (if counter \<noteq> msg_count then Mismatch_Counter counter
      else let expected_sum = (msg_count - 1) * msg_count div 2 in
        if acc \<noteq> expected_sum then Wrong_Sum acc expected_sum else Sane)"

text \<open>
  The two threads interleave. In \<^verbatim>\<open>bm_runner\<close> the next iteration uses the same queue when both have
  finished; other benchmarks are not \<open>repeated\<close>.
\<close>

inductive bench_step ::
    "bool \<Rightarrow> (u64 \<Rightarrow> 'm) \<Rightarrow> 'a \<Rightarrow> ('m \<Rightarrow> 's \<Rightarrow> bool \<times> 's) \<Rightarrow> (u64 \<Rightarrow> ('s, 'a) bench \<Rightarrow> ('s, 'a) bench) \<Rightarrow>
       u64 \<Rightarrow> ('s, 'a) bench \<Rightarrow> ('s, 'a) bench \<Rightarrow> bool"
  for repeated elem a push consumer msg_count where
  produce: "bench_step repeated elem a push consumer msg_count b (bench_producer elem push msg_count b)"
| consume: "bench_step repeated elem a push consumer msg_count b (consumer msg_count b)"
| again: "repeated \<Longrightarrow> b_pc b = Finished \<Longrightarrow> b_produced b = msg_count \<Longrightarrow>
    bench_step repeated elem a push consumer msg_count b (bench_start a (b_queue b))"

section \<open>Interfaces\<close>

locale accepting_channel = fifo_channel rep "\<lambda>_. True" push pop
  for rep :: "'s \<Rightarrow> 'm list \<Rightarrow> bool" and push :: "'m \<Rightarrow> 's \<Rightarrow> bool \<times> 's"
    and pop :: "'s \<Rightarrow> 'm option \<times> 's" +
  assumes push_empty: "rep s [] \<Longrightarrow> \<exists>s'. push m s = (True, s')"

locale front_channel =
  fixes rep :: "'s \<Rightarrow> 'm list \<Rightarrow> bool" and held :: "'s \<Rightarrow> bool"
    and push :: "'m \<Rightarrow> 's \<Rightarrow> bool \<times> 's" and front :: "'s \<Rightarrow> bool \<times> 's"
    and item :: "'s \<Rightarrow> 'm" and pop :: "'s \<Rightarrow> 's"
  assumes push_rep: "rep s ms \<Longrightarrow> push m s = (b, s') \<Longrightarrow> rep s' (if b then ms @ [m] else ms)"
    and push_held: "rep s ms \<Longrightarrow> held s \<Longrightarrow> ms \<noteq> [] \<Longrightarrow> push m s = (b, s') \<Longrightarrow> held s'"
    and push_room: "rep s [] \<Longrightarrow> \<exists>s'. push m s = (True, s')"
    and front_none: "rep s [] \<Longrightarrow> \<exists>s'. front s = (False, s') \<and> rep s' []"
    and front_some: "rep s (m # ms) \<Longrightarrow> \<exists>s'. front s = (True, s') \<and> rep s' (m # ms) \<and> held s'"
    and item_first: "rep s (m # ms) \<Longrightarrow> held s \<Longrightarrow> item s = m"
    and pop_rest: "rep s (m # ms) \<Longrightarrow> held s \<Longrightarrow> rep (pop s) ms"

section \<open>The invariant\<close>

text \<open>The elements sent for the counters from \<open>i\<close> to below \<open>j\<close>.\<close>

definition sent :: "(u64 \<Rightarrow> 'm) \<Rightarrow> nat \<Rightarrow> nat \<Rightarrow> 'm list" where
  "sent elem i j = map (\<lambda>k. elem (word_of_nat k)) [i..<j]"

lemma sent_simps:
  "sent elem i i = []" "i < j \<Longrightarrow> sent elem i j = elem (word_of_nat i) # sent elem (Suc i) j"
  "i \<le> j \<Longrightarrow> sent elem i (Suc j) = sent elem i j @ [elem (word_of_nat j)]"
  by (simp_all add: sent_def upt_conv_Cons)

lemma sent_Nil_iff: "sent elem i j = [] \<longleftrightarrow> j \<le> i"
  by (auto simp: sent_def)

text \<open>The first element still in the queue while the consumer is at a program counter.\<close>

definition unread_from :: "('s, 'a) bench \<Rightarrow> nat" where
  "unread_from b = (if b_pc b = Popping then unat (b_counter b) - 1 else unat (b_counter b))"

definition bench_inv ::
    "(u64 \<Rightarrow> 'm) \<Rightarrow> 'a \<Rightarrow> ('m \<Rightarrow> 'a \<Rightarrow> 'a) \<Rightarrow> bool \<Rightarrow> ('s \<Rightarrow> 'm list \<Rightarrow> bool) \<Rightarrow> ('s \<Rightarrow> bool) \<Rightarrow> u64 \<Rightarrow>
       ('s, 'a) bench \<Rightarrow> bool" where
  "bench_inv elem a use strict rep held n b \<longleftrightarrow>
     b_produced b \<le> n \<and> b_counter b \<le> b_produced b \<and>
     b_acc b = fold use (sent elem 0 (unat (b_counter b))) a \<and>
     rep (b_queue b) (sent elem (unread_from b) (unat (b_produced b))) \<and>
     (b_pc b = Inner \<and> strict \<longrightarrow> b_counter b < n) \<and>
     (b_pc b = Item \<longrightarrow> b_counter b < b_produced b \<and> held (b_queue b)) \<and>
     (b_pc b = Popping \<longrightarrow> 0 < b_counter b \<and> held (b_queue b)) \<and>
     (b_pc b = Finished \<longrightarrow> b_counter b = n)"

text \<open>What is left to do; it decreases with every step that is not a wait.\<close>

definition bench_work :: "u64 \<Rightarrow> ('s, 'a) bench \<Rightarrow> nat" where
  "bench_work n b = 8 * (unat n - unat (b_produced b)) + 8 * (unat n - unat (b_counter b)) +
     (case b_pc b of Popping \<Rightarrow> 5 | Outer \<Rightarrow> if b_counter b < n then 4 else 1 | Inner \<Rightarrow> 3 | Item \<Rightarrow> 2 | Finished \<Rightarrow> 0)"

lemma unat_inc: "x < n \<Longrightarrow> unat (x + 1) = Suc (unat (x :: u64))"
  using unat_add_u64 [of x 1] unat_u64_bound [of n] by (simp add: u64_less_iff)

lemma inc_le: "x < n \<Longrightarrow> x + 1 \<le> (n :: u64)"
  using unat_inc [of x n] by (simp add: word_nat)

lemma outer_test_inv:
  assumes "bench_inv elem a use strict rep held n b" and "b_pc b = Outer"
  shows "bench_inv elem a use strict rep held n (outer_test n b)"
  using assms by (auto simp: bench_inv_def outer_test_def unread_from_def)

lemma outer_test_work: "b_pc b = Outer \<Longrightarrow> bench_work n (outer_test n b) < bench_work n b"
  by (simp add: bench_work_def outer_test_def)

text \<open>A number is received: it is the next one.\<close>

lemma receive_inv:
  assumes inv: "bench_inv elem a use strict rep held n b" and pc: "b_pc b = Inner" and less: "b_counter b < b_produced b"
    and rep: "rep s (sent elem (Suc (unat (b_counter b))) (unat (b_produced b)))"
    and pc': "pc' = Outer \<or> pc' = Inner \<and> \<not> strict"
  shows "bench_inv elem a use strict rep held n
    (b\<lparr>b_queue := s, b_counter := b_counter b + 1, b_acc := use (elem (b_counter b)) (b_acc b), b_pc := pc'\<rparr>)"
  using inv rep pc pc' unat_inc [OF less] inc_le [OF less] sent_simps(3) [of 0 "unat (b_counter b)" elem]
  by (auto simp: bench_inv_def unread_from_def)

lemma producer_inv:
  assumes inv: "bench_inv elem a use strict rep held n b"
    and push: "\<And>s ms m b s'. rep s ms \<Longrightarrow> push m s = (b, s') \<Longrightarrow> rep s' (if b then ms @ [m] else ms)"
    and keep: "\<And>s ms m b s'. rep s ms \<Longrightarrow> held s \<Longrightarrow> ms \<noteq> [] \<Longrightarrow> push m s = (b, s') \<Longrightarrow> held s'"
  shows "bench_inv elem a use strict rep held n (bench_producer elem push n b)"
proof (cases "b_produced b < n")
  case True
  let ?ms = "sent elem (unread_from b) (unat (b_produced b))"
  obtain ok s where step: "push (elem (b_produced b)) (b_queue b) = (ok, s)"
    by (cases "push (elem (b_produced b)) (b_queue b)")
  have le: "unread_from b \<le> unat (b_produced b)"
    using inv by (auto simp: bench_inv_def unread_from_def word_nat)
  have "rep s (if ok then ?ms @ [elem (b_produced b)] else ?ms)"
    using push [OF _ step] inv by (simp add: bench_inv_def)
  then have rep: "rep s (sent elem (unread_from b) (unat (b_produced b) + (if ok then 1 else 0)))"
    using sent_simps(3) [OF le, of elem] by (auto split: if_splits)
  have held: "held s" if "b_pc b = Item \<or> b_pc b = Popping"
  proof -
    have "?ms \<noteq> []"
      using that inv by (auto simp: sent_Nil_iff bench_inv_def unread_from_def word_nat)
    then show ?thesis using that inv keep [OF _ _ _ step] by (auto simp: bench_inv_def)
  qed
  show ?thesis
    using inv rep held step True unat_inc [OF True] inc_le [OF True]
    by (cases ok) (auto simp: bench_producer_def bench_inv_def unread_from_def word_nat split: if_splits)
qed (use inv in \<open>simp add: bench_producer_def\<close>)

lemma producer_work:
  assumes "b_produced b < n" and "push (elem (b_produced b)) (b_queue b) = (True, s)"
  shows "bench_work n (bench_producer elem push n b) < bench_work n b"
  using assms unat_inc [OF assms(1)] by (simp add: bench_producer_def bench_work_def word_nat)

lemma again_inv:
  assumes "bench_inv elem a use strict rep held n b" and "b_pc b = Finished"
  shows "bench_inv elem a use strict rep held n (bench_start a (b_queue b))"
proof -
  have "b_produced b = b_counter b"
    using assms by (auto simp: bench_inv_def)
  then show ?thesis
    using assms by (simp add: bench_inv_def bench_start_def unread_from_def sent_simps)
qed

lemma sum_upto_half:
  fixes n :: u64
  assumes "unat n * (unat n - 1) < 2 ^ 64"
  shows "word_of_nat (\<Sum> {..<unat n}) = (n - 1) * n div 2"
proof -
  have "2 * \<Sum> {..<k} = k * (k - 1)" for k :: nat
  proof (induction k)
    case (Suc k)
    then show ?case by (cases k) (simp_all add: lessThan_Suc algebra_simps)
  qed simp
  then have sum: "\<Sum> {..<k} = k * (k - 1) div 2" for k :: nat
    by (metis nonzero_mult_div_cancel_left zero_neq_numeral)
  have "unat ((n - 1) * n div 2) = unat n * (unat n - 1) div 2"
  proof (cases "n = 0")
    case False
    then have "unat (n - 1) = unat n - 1"
      by (simp add: unat_minus_one)
    then have "unat ((n - 1) * n) = unat n * (unat n - 1)"
      using assms by (simp add: unat_word_ariths mult.commute)
    then show ?thesis by (simp add: unat_div_u64)
  qed simp
  moreover have "unat (word_of_nat (\<Sum> {..<unat n}) :: u64) = unat n * (unat n - 1) div 2"
    using assms by (simp add: sum unat_word_of_nat_u64)
  ultimately show ?thesis by (simp add: u64_eq_iff)
qed

lemma fold_add_to_sum: "fold add_to_sum xs acc = acc + sum_list xs"
  by (induction xs arbitrary: acc) (simp_all add: add_to_sum_def add.assoc)

lemma sum_sent: "sum_list (sent (\<lambda>i. i) 0 k) = word_of_nat (\<Sum> {..<k})"
  by (induction k) (simp_all add: sent_simps(1,3) lessThan_Suc add.commute)

lemma bench_finished:
  assumes "bench_inv (\<lambda>i. i) 0 add_to_sum strict rep held n b" and "b_pc b = Finished"
    and "unat n * (unat n - 1) < 2 ^ 64"
  shows "sanity_checks n (b_acc b) (b_counter b) = Sane"
  using assms(1,2) sum_upto_half [OF assms(3)]
  by (simp add: bench_inv_def sanity_checks_def fold_add_to_sum sum_sent)

section \<open>Consumers that pop\<close>

lemma reach_inv:
  assumes "\<And>b. I b \<Longrightarrow> I (bench_producer elem push n b)" and "\<And>b. I b \<Longrightarrow> I (consumer n b)"
    and "\<And>b. I b \<Longrightarrow> b_pc b = Finished \<Longrightarrow> I (bench_start a (b_queue b))"
    and "(bench_step repeated elem a push consumer n)\<^sup>*\<^sup>* b b'" and "I b"
  shows "I b'"
  using assms(4,5)
proof (induction rule: rtranclp_induct)
  case (step b1 b2)
  then show ?case using assms(1-3) by (auto elim: bench_step.cases)
qed

text \<open>If every unfinished state has a step that leaves less to do, the end can be reached from it.\<close>

lemma reach_end:
  assumes step: "\<And>b. I b \<Longrightarrow> b_pc b \<noteq> Finished \<Longrightarrow>
      \<exists>b'. bench_step repeated elem a push consumer n b b' \<and> bench_work n b' < bench_work n b"
    and inv: "\<And>b b'. I b \<Longrightarrow> bench_step repeated elem a push consumer n b b' \<Longrightarrow> I b'" and "I b"
  shows "\<exists>b'. (bench_step repeated elem a push consumer n)\<^sup>*\<^sup>* b b' \<and> b_pc b' = Finished"
  using \<open>I b\<close>
proof (induction "bench_work n b" arbitrary: b rule: less_induct)
  case less
  show ?case
  proof (cases "b_pc b = Finished")
    case False
    then obtain b1 where "bench_step repeated elem a push consumer n b b1" "bench_work n b1 < bench_work n b"
      using step [OF less.prems] by blast
    with less.hyps inv [OF less.prems] show ?thesis
      by (meson converse_rtranclp_into_rtranclp)
  qed blast
qed

context accepting_channel
begin

lemma push_rep': "rep s ms \<Longrightarrow> push m s = (b, s') \<Longrightarrow> rep s' (if b then ms @ [m] else ms)"
  using push_accept push_refuse by (cases b) auto

lemma produce_inv: "bench_inv elem a use strict rep (\<lambda>_. False) n b \<Longrightarrow> bench_inv elem a use strict rep (\<lambda>_. False) n (bench_producer elem push n b)"
  by (rule producer_inv) (auto dest: push_rep')

lemma pop_numbers:
  assumes "bench_inv elem a use strict rep (\<lambda>_. False) n b" and "b_pc b = Inner"
  shows "b_counter b < b_produced b \<and>
      (\<exists>s. pop (b_queue b) = (Some (elem (b_counter b)), s) \<and>
         rep s (sent elem (Suc (unat (b_counter b))) (unat (b_produced b)))) \<or>
    b_counter b = b_produced b \<and>
      (\<exists>s. pop (b_queue b) = (None, s) \<and> rep s (sent elem (unat (b_counter b)) (unat (b_produced b))))"
proof -
  have rep: "rep (b_queue b) (sent elem (unat (b_counter b)) (unat (b_produced b)))"
    and "b_counter b \<le> b_produced b"
    using assms by (auto simp: bench_inv_def unread_from_def)
  then consider "b_counter b < b_produced b" | "b_counter b = b_produced b"
    by fastforce
  then show ?thesis
  proof cases
    case 1
    then show ?thesis
      using pop_first rep by (simp add: sent_simps word_nat)
  next
    case 2
    then show ?thesis
      using pop_empty rep by (simp add: sent_simps)
  qed
qed

lemma spin_inv:
  assumes inv: "bench_inv elem a use True rep (\<lambda>_. False) n b"
  shows "bench_inv elem a use True rep (\<lambda>_. False) n (consumer_spin use pop n b)"
proof (cases "b_pc b")
  case Outer
  then show ?thesis using outer_test_inv [OF inv] by (simp add: consumer_spin_def)
next
  case Inner
  from pop_numbers [OF inv Inner] show ?thesis
    using Inner inv receive_inv [OF inv Inner, where pc' = Outer]
    by (auto simp: consumer_spin_def) (simp add: bench_inv_def unread_from_def)
qed (use inv in \<open>simp_all add: consumer_spin_def\<close>)

lemma drain_inv:
  assumes inv: "bench_inv elem a use False rep (\<lambda>_. False) n b"
  shows "bench_inv elem a use False rep (\<lambda>_. False) n (consumer_drain use pop n b)"
proof (cases "b_pc b")
  case Outer
  then show ?thesis using outer_test_inv [OF inv] by (simp add: consumer_drain_def)
next
  case Inner
  have same: "b\<lparr>b_queue := s, b_counter := x, b_acc := y, b_pc := Inner\<rparr> = b\<lparr>b_queue := s, b_counter := x, b_acc := y\<rparr>" for s x y
    using Inner by simp
  from pop_numbers [OF inv Inner] show ?thesis
    using Inner inv receive_inv [OF inv Inner, where pc' = Inner]
    by (auto simp: consumer_drain_def same) (simp add: bench_inv_def unread_from_def)
qed (use inv in \<open>simp_all add: consumer_drain_def\<close>)

text \<open>A consumer that waits on an empty queue waits for a message that the producer can send.\<close>

lemma producer_progress:
  assumes inv: "bench_inv elem a use strict rep (\<lambda>_. False) n b" and pc: "b_pc b = Inner"
    and "b_counter b = b_produced b" and less: "b_produced b < n"
  shows "bench_work n (bench_producer elem push n b) < bench_work n b"
proof -
  have "rep (b_queue b) []"
    using inv pc assms(3) by (simp add: bench_inv_def unread_from_def sent_simps)
  then obtain s where "push (elem (b_produced b)) (b_queue b) = (True, s)"
    using push_empty by blast
  with less show ?thesis by (rule producer_work)
qed

lemma spin_progress:
  assumes inv: "bench_inv elem a use True rep (\<lambda>_. False) n b" and "b_pc b \<noteq> Finished"
  shows "\<exists>b'. bench_step repeated elem a push (consumer_spin use pop) n b b' \<and> bench_work n b' < bench_work n b"
proof (cases "b_pc b")
  case Outer
  then show ?thesis
    using outer_test_work [OF Outer, of n] bench_step.consume [of repeated elem a push "consumer_spin use pop" n b]
    by (auto simp: consumer_spin_def)
next
  case Inner
  have n: "b_counter b < n" "b_produced b \<le> n" using inv Inner by (auto simp: bench_inv_def)
  from pop_numbers [OF inv Inner] show ?thesis
  proof
    assume "b_counter b = b_produced b \<and>
      (\<exists>s. pop (b_queue b) = (None, s) \<and> rep s (sent elem (unat (b_counter b)) (unat (b_produced b))))"
    then show ?thesis
      using producer_progress [OF inv Inner] n bench_step.produce by metis
  next
    assume "b_counter b < b_produced b \<and>
      (\<exists>s. pop (b_queue b) = (Some (elem (b_counter b)), s) \<and>
         rep s (sent elem (Suc (unat (b_counter b))) (unat (b_produced b))))"
    then have "bench_work n (consumer_spin use pop n b) < bench_work n b"
      using Inner n unat_inc [OF n(1)] by (auto simp: consumer_spin_def bench_work_def u64_less_iff)
    then show ?thesis using bench_step.consume by metis
  qed
qed (use assms in \<open>auto simp: bench_inv_def\<close>)

lemma drain_progress:
  assumes inv: "bench_inv elem a use False rep (\<lambda>_. False) n b" and "b_pc b \<noteq> Finished"
  shows "\<exists>b'. bench_step repeated elem a push (consumer_drain use pop) n b b' \<and> bench_work n b' < bench_work n b"
proof (cases "b_pc b")
  case Outer
  then show ?thesis
    using outer_test_work [OF Outer, of n] bench_step.consume [of repeated elem a push "consumer_drain use pop" n b]
    by (auto simp: consumer_drain_def)
next
  case Inner
  have n: "b_produced b \<le> n" using inv Inner by (auto simp: bench_inv_def)
  from pop_numbers [OF inv Inner] show ?thesis
  proof
    assume *: "b_counter b = b_produced b \<and>
      (\<exists>s. pop (b_queue b) = (None, s) \<and> rep s (sent elem (unat (b_counter b)) (unat (b_produced b))))"
    show ?thesis
    proof (cases "b_produced b < n")
      case True
      then show ?thesis
        using producer_progress [OF inv Inner] * bench_step.produce by metis
    next
      case False
      then have "bench_work n (consumer_drain use pop n b) < bench_work n b"
        using Inner n * by (auto simp: consumer_drain_def bench_work_def)
      then show ?thesis using bench_step.consume by metis
    qed
  next
    assume *: "b_counter b < b_produced b \<and>
      (\<exists>s. pop (b_queue b) = (Some (elem (b_counter b)), s) \<and>
         rep s (sent elem (Suc (unat (b_counter b))) (unat (b_produced b))))"
    then have less: "b_counter b < n" using n by (auto intro: less_le_trans)
    have "bench_work n (consumer_drain use pop n b) < bench_work n b"
      using Inner * less unat_inc [OF less] by (auto simp: consumer_drain_def bench_work_def u64_less_iff)
    then show ?thesis using bench_step.consume by metis
  qed
qed (use assms in \<open>auto simp: bench_inv_def\<close>)

lemma start_inv: "rep s [] \<Longrightarrow> bench_inv elem a use strict rep (\<lambda>_. False) n (bench_start a s)"
  by (simp add: bench_inv_def bench_start_def unread_from_def sent_simps)

lemma spin_reach:
  assumes "rep s []" and "(bench_step repeated elem a push (consumer_spin use pop) n)\<^sup>*\<^sup>* (bench_start a s) b"
  shows "bench_inv elem a use True rep (\<lambda>_. False) n b \<and>
    (\<exists>b'. (bench_step repeated elem a push (consumer_spin use pop) n)\<^sup>*\<^sup>* b b' \<and> b_pc b' = Finished)"
proof
  have start: "bench_inv elem a use True rep (\<lambda>_. False) n (bench_start a s)"
    using assms(1) by (rule start_inv)
  show inv: "bench_inv elem a use True rep (\<lambda>_. False) n b"
    using reach_inv [where I = "bench_inv elem a use True rep (\<lambda>_. False) n", OF produce_inv spin_inv again_inv assms(2) start] .
  show "\<exists>b'. (bench_step repeated elem a push (consumer_spin use pop) n)\<^sup>*\<^sup>* b b' \<and> b_pc b' = Finished"
    using inv by (rule reach_end [where I = "bench_inv elem a use True rep (\<lambda>_. False) n", OF spin_progress, rotated -1])
      (auto elim!: bench_step.cases intro: produce_inv spin_inv again_inv)
qed

lemma drain_reach:
  assumes "rep s []" and "(bench_step repeated elem a push (consumer_drain use pop) n)\<^sup>*\<^sup>* (bench_start a s) b"
  shows "bench_inv elem a use False rep (\<lambda>_. False) n b \<and>
    (\<exists>b'. (bench_step repeated elem a push (consumer_drain use pop) n)\<^sup>*\<^sup>* b b' \<and> b_pc b' = Finished)"
proof
  have start: "bench_inv elem a use False rep (\<lambda>_. False) n (bench_start a s)"
    using assms(1) by (rule start_inv)
  show inv: "bench_inv elem a use False rep (\<lambda>_. False) n b"
    using reach_inv [where I = "bench_inv elem a use False rep (\<lambda>_. False) n", OF produce_inv drain_inv again_inv assms(2) start] .
  show "\<exists>b'. (bench_step repeated elem a push (consumer_drain use pop) n)\<^sup>*\<^sup>* b b' \<and> b_pc b' = Finished"
    using inv by (rule reach_end [where I = "bench_inv elem a use False rep (\<lambda>_. False) n", OF drain_progress, rotated -1])
      (auto elim!: bench_step.cases intro: produce_inv drain_inv again_inv)
qed

end

section \<open>Consumers that look at the front\<close>

context front_channel
begin

lemma produce_inv: "bench_inv elem a use True rep held n b \<Longrightarrow> bench_inv elem a use True rep held n (bench_producer elem push n b)"
  by (rule producer_inv) (auto dest: push_rep push_held)

lemma front_numbers:
  assumes "bench_inv elem a use True rep held n b" and "b_pc b = Inner"
  shows "b_counter b < b_produced b \<and>
      (\<exists>s. front (b_queue b) = (True, s) \<and> held s \<and>
         rep s (sent elem (unat (b_counter b)) (unat (b_produced b)))) \<or>
    b_counter b = b_produced b \<and>
      (\<exists>s. front (b_queue b) = (False, s) \<and> rep s (sent elem (unat (b_counter b)) (unat (b_produced b))))"
proof -
  have rep: "rep (b_queue b) (sent elem (unat (b_counter b)) (unat (b_produced b)))"
    and "b_counter b \<le> b_produced b"
    using assms by (auto simp: bench_inv_def unread_from_def)
  then consider "b_counter b < b_produced b" | "b_counter b = b_produced b"
    by fastforce
  then show ?thesis
  proof cases
    case 1
    then show ?thesis
      using front_some rep by (fastforce simp: sent_simps word_nat)
  next
    case 2
    then show ?thesis
      using front_none rep by (simp add: sent_simps)
  qed
qed

lemma item_inv:
  assumes inv: "bench_inv elem a use True rep held n b" and pc: "b_pc b = Item"
  shows "bench_inv elem a use True rep held n
    (b\<lparr>b_counter := b_counter b + 1, b_acc := use (item (b_queue b)) (b_acc b), b_pc := Popping\<rparr>)"
proof -
  have less: "b_counter b < b_produced b" and held: "held (b_queue b)"
    and rep: "rep (b_queue b) (sent elem (unat (b_counter b)) (unat (b_produced b)))"
    using inv pc by (auto simp: bench_inv_def unread_from_def)
  have "item (b_queue b) = elem (b_counter b)"
    using item_first [OF _ held] rep less by (simp add: sent_simps word_nat)
  then show ?thesis
    using inv pc rep held unat_inc [OF less] inc_le [OF less] sent_simps(3) [of 0 "unat (b_counter b)" elem]
    by (auto simp: bench_inv_def unread_from_def word_nat)
qed

lemma popping_inv:
  assumes inv: "bench_inv elem a use True rep held n b" and pc: "b_pc b = Popping"
  shows "bench_inv elem a use True rep held n (b\<lparr>b_queue := pop (b_queue b), b_pc := Outer\<rparr>)"
proof -
  have pos: "0 < unat (b_counter b)" "unat (b_counter b) \<le> unat (b_produced b)" and held: "held (b_queue b)"
    and rep: "rep (b_queue b) (sent elem (unat (b_counter b) - 1) (unat (b_produced b)))"
    using inv pc by (auto simp: bench_inv_def unread_from_def word_nat unat_gt_0)
  then have "sent elem (unat (b_counter b) - 1) (unat (b_produced b)) =
      elem (word_of_nat (unat (b_counter b) - 1)) # sent elem (unat (b_counter b)) (unat (b_produced b))"
    using sent_simps(2) [of "unat (b_counter b) - 1" "unat (b_produced b)" elem] by (simp only: Suc_pred) simp
  then have "rep (pop (b_queue b)) (sent elem (unat (b_counter b)) (unat (b_produced b)))"
    using pop_rest [OF _ held] rep by simp
  then show ?thesis using inv pc by (auto simp: bench_inv_def unread_from_def)
qed

lemma front_inv:
  assumes inv: "bench_inv elem a use True rep held n b"
  shows "bench_inv elem a use True rep held n (consumer_front use front item pop n b)"
proof (cases "b_pc b")
  case Outer
  then show ?thesis using outer_test_inv [OF inv] by (simp add: consumer_front_def)
next
  case Inner
  from front_numbers [OF inv Inner] show ?thesis
    using Inner inv by (auto simp: consumer_front_def bench_inv_def unread_from_def)
next
  case Item
  then show ?thesis using item_inv [OF inv] by (simp add: consumer_front_def)
next
  case Popping
  then show ?thesis using popping_inv [OF inv] by (simp add: consumer_front_def)
qed (use inv in \<open>simp add: consumer_front_def\<close>)

lemma front_progress:
  assumes inv: "bench_inv elem a use True rep held n b" and "b_pc b \<noteq> Finished"
  shows "\<exists>b'. bench_step repeated elem a push (consumer_front use front item pop) n b b' \<and> bench_work n b' < bench_work n b"
proof -
  have consume: ?thesis if "bench_work n (consumer_front use front item pop n b) < bench_work n b"
    using that bench_step.consume by metis
  have n: "b_produced b \<le> n" "b_counter b \<le> b_produced b" using inv by (auto simp: bench_inv_def)
  show ?thesis
  proof (cases "b_pc b")
    case Outer
    then show ?thesis
      using outer_test_work [OF Outer, of n] by (intro consume) (simp add: consumer_front_def)
  next
    case Inner
    from front_numbers [OF inv Inner] show ?thesis
    proof
      assume *: "b_counter b = b_produced b \<and>
        (\<exists>s. front (b_queue b) = (False, s) \<and> rep s (sent elem (unat (b_counter b)) (unat (b_produced b))))"
      then have less: "b_produced b < n" and "rep (b_queue b) []"
        using inv Inner by (auto simp: bench_inv_def unread_from_def sent_simps)
      then obtain s where "push (elem (b_produced b)) (b_queue b) = (True, s)" using push_room by blast
      with less have "bench_work n (bench_producer elem push n b) < bench_work n b"
        by (rule producer_work)
      then show ?thesis using bench_step.produce by metis
    next
      assume "b_counter b < b_produced b \<and>
        (\<exists>s. front (b_queue b) = (True, s) \<and> held s \<and>
           rep s (sent elem (unat (b_counter b)) (unat (b_produced b))))"
      then obtain s where "front (b_queue b) = (True, s)" by blast
      then show ?thesis
        using Inner by (intro consume) (simp add: consumer_front_def bench_work_def)
    qed
  next
    case Item
    then have less: "b_counter b < n" using inv n by (auto simp: bench_inv_def intro: less_le_trans)
    then show ?thesis
      using Item unat_inc [OF less] by (intro consume) (auto simp: consumer_front_def bench_work_def u64_less_iff)
  next
    case Popping
    then show ?thesis by (intro consume) (simp add: consumer_front_def bench_work_def)
  qed (use assms in simp)
qed

lemma front_reach:
  assumes "rep s []" and "(bench_step repeated elem a push (consumer_front use front item pop) n)\<^sup>*\<^sup>* (bench_start a s) b"
  shows "bench_inv elem a use True rep held n b \<and>
    (\<exists>b'. (bench_step repeated elem a push (consumer_front use front item pop) n)\<^sup>*\<^sup>* b b' \<and> b_pc b' = Finished)"
proof
  have start: "bench_inv elem a use True rep held n (bench_start a s)"
    using assms(1) by (simp add: bench_inv_def bench_start_def unread_from_def sent_simps)
  show inv: "bench_inv elem a use True rep held n b"
    using reach_inv [where I = "bench_inv elem a use True rep held n", OF produce_inv front_inv again_inv assms(2) start] .
  show "\<exists>b'. (bench_step repeated elem a push (consumer_front use front item pop) n)\<^sup>*\<^sup>* b b' \<and> b_pc b' = Finished"
    using inv by (rule reach_end [where I = "bench_inv elem a use True rep held n", OF front_progress, rotated -1])
      (auto elim!: bench_step.cases intro: produce_inv front_inv again_inv)
qed

end

end
