(* ===== verification/SPSC_Concurrent.thy ===== *)
theory SPSC_Concurrent
  imports SPSC_Correct
begin

text \<open>
  \<^verbatim>\<open>SPSCQueue::enqueue\<close>, \<^verbatim>\<open>dequeue_begin\<close> and \<^verbatim>\<open>dequeue_commit\<close> split at their accesses to the shared
  storage, and the interleavings of one producer with one consumer. A program counter names the next
  access and carries the local variables that are still needed. Every access (an atomic load, store
  or read-modify-write, a \<^verbatim>\<open>memcpy\<close> or \<^verbatim>\<open>memset\<close>) is one step of a sequentially consistent memory; that
  a copy may be taken as one step is justified by the absence of data races, which is proved here.
\<close>

section \<open>The producer's call, access by access\<close>

datatype producer_pc =
    P_Return bool
  | P_LoadRead heap Message
  | P_LoadWrite heap Message u64
  | P_Payload heap Message u64 u64 "u64 option"
  | P_Header heap Message u64 u64 "u64 option"
  | P_Sentinel heap Message u64 u64
  | P_Store heap Message u64
  | P_Count

text \<open>
  The decision of \<^verbatim>\<open>enqueue\<close> once both indices are loaded: refuse, or copy to \<open>off\<close> and publish
  \<open>next_write_ix\<close>, with a sentinel at the old write index when the message wraps.
\<close>

definition enqueue_decide :: "SPSCQueue \<Rightarrow> heap \<Rightarrow> Message \<Rightarrow> u64 \<Rightarrow> u64 \<Rightarrow> producer_pc" where
  "enqueue_decide q h msg read_ix write_ix =
     (let total_size = msg_total_size msg;
          next_write_ix = next_index write_ix total_size in
      if next_write_ix < q_buffer_size q then
        (if write_ix < read_ix \<and> next_write_ix \<ge> read_ix then P_Return False
         else P_Payload h msg write_ix next_write_ix None)
      else
        (let sentinel_end = write_ix + 8 in
         if write_ix < read_ix \<and> sentinel_end \<ge> read_ix then P_Return False
         else
           (let next_write_ix = next_index 0 total_size in
            if next_write_ix \<ge> read_ix then P_Return False
            else P_Payload h msg 0 next_write_ix (Some write_ix))))"

fun producer_step ::
    "SPSCQueue \<Rightarrow> producer_pc \<Rightarrow> SPSCStorage \<Rightarrow> (producer_pc \<times> SPSCStorage) exec" where
  "producer_step q (P_Return b) s = Inr (P_Return b, s)"
| "producer_step q (P_LoadRead h msg) s = Inr (P_LoadWrite h msg (st_read_ix s), s)"
| "producer_step q (P_LoadWrite h msg read_ix) s =
     Inr (enqueue_decide q h msg read_ix (st_write_ix s), s)"
| "producer_step q (P_Payload h msg off nxt_ix wrap) s =
     (case load_heap h (msg_payload msg) (unat (msg_payload_size msg)) of
        None \<Rightarrow> Inl OutOfBounds
      | Some bs \<Rightarrow>
          (case mem_write (st_buffer s) (unat off + 8) bs of
             None \<Rightarrow> Inl OutOfBounds
           | Some m \<Rightarrow> Inr (P_Header h msg off nxt_ix wrap, s\<lparr>st_buffer := m\<rparr>)))"
| "producer_step q (P_Header h msg off nxt_ix wrap) s =
     (case mem_write (st_buffer s) (unat off) (bytes_of_u64 (msg_size msg)) of
        None \<Rightarrow> Inl OutOfBounds
      | Some m \<Rightarrow>
          Inr (case wrap of None \<Rightarrow> P_Store h msg nxt_ix | Some w \<Rightarrow> P_Sentinel h msg w nxt_ix,
               s\<lparr>st_buffer := m\<rparr>))"
| "producer_step q (P_Sentinel h msg write_ix nxt_ix) s =
     (case mem_write (st_buffer s) (unat write_ix) (replicate 8 0) of
        None \<Rightarrow> Inl OutOfBounds
      | Some m \<Rightarrow> Inr (P_Store h msg nxt_ix, s\<lparr>st_buffer := m\<rparr>))"
| "producer_step q (P_Store h msg nxt_ix) s = Inr (P_Count, s\<lparr>st_write_ix := nxt_ix\<rparr>)"
| "producer_step q P_Count s = Inr (P_Return True, s\<lparr>st_msg_count := st_msg_count s + 1\<rparr>)"

section \<open>The consumer's calls, access by access\<close>

text \<open>
  \<open>C_View\<close> is a returned view, which the client may read until it commits it; \<open>C_Idle\<close> is the time
  after a commit.
\<close>

datatype consumer_pc =
    C_Idle
  | C_LoadRead
  | C_LoadWrite u64
  | C_Header u64
  | C_Rewind
  | C_View MessageView
  | C_Store MessageView
  | C_Count

fun consumer_step ::
    "SPSCQueue \<Rightarrow> consumer_pc \<Rightarrow> SPSCStorage \<Rightarrow> (consumer_pc \<times> SPSCStorage) exec" where
  "consumer_step q C_Idle s = Inr (C_Idle, s)"
| "consumer_step q C_LoadRead s = Inr (C_LoadWrite (st_read_ix s), s)"
| "consumer_step q (C_LoadWrite read_ix) s =
     Inr (if read_ix = st_write_ix s then C_View MessageView_default else C_Header read_ix, s)"
| "consumer_step q (C_Header read_ix) s =
     (case mem_read (st_buffer s) (unat read_ix) 8 of
        None \<Rightarrow> Inl OutOfBounds
      | Some hdr \<Rightarrow>
          (let message_size = u64_of_bytes hdr in
           Inr (if message_size = 0 then C_Rewind
                else C_View (MessageView_new (q_buffer q + read_ix + 8) message_size read_ix), s)))"
| "consumer_step q C_Rewind s = Inr (C_LoadRead, s\<lparr>st_read_ix := 0\<rparr>)"
| "consumer_step q (C_View v) s = Inr (C_View v, s)"
| "consumer_step q (C_Store v) s =
     Inr (C_Count, s\<lparr>st_read_ix := next_index (view_index v) (view_total_size v)\<rparr>)"
| "consumer_step q C_Count s = Inr (C_Idle, s\<lparr>st_msg_count := st_msg_count s - 1\<rparr>)"

section \<open>Uninterrupted calls\<close>

text \<open>Running a thread alone for a number of steps, as long as nothing faults.\<close>

fun run_alone :: "('p \<Rightarrow> 's \<Rightarrow> ('p \<times> 's) exec) \<Rightarrow> nat \<Rightarrow> 'p \<times> 's \<Rightarrow> ('p \<times> 's) exec" where
  "run_alone step 0 st = Inr st"
| "run_alone step (Suc n) (pc, s) =
     (case step pc s of Inl f \<Rightarrow> Inl f | Inr st \<Rightarrow> run_alone step n st)"

lemma run_alone_trans:
  "run_alone step n st = Inr st' \<Longrightarrow> run_alone step (n + k) st = run_alone step k st'"
  by (induction n arbitrary: st) (auto split: sum.splits)

lemma enqueue_body_alone:
  "run_alone (producer_step q) 7 (P_LoadRead h msg, s) =
     (case enqueue_body q h msg s of None \<Rightarrow> Inl OutOfBounds | Some (b, s') \<Rightarrow> Inr (P_Return b, s'))"
  by (cases "load_heap h (msg_payload msg) (unat (msg_payload_size msg))")
    (simp_all add: eval_nat_numeral enqueue_decide_def enqueue_body_def Let_def
      split: option.splits)

lemma dequeue_pass_alone:
  "run_alone (consumer_step q) 4 (C_LoadRead, s) =
     (case dequeue_pass q s of
        DeqView v \<Rightarrow> Inr (C_View v, s)
      | DeqRecheck s' \<Rightarrow> Inr (C_LoadRead, s')
      | DeqFault f \<Rightarrow> Inl f)"
  by (simp add: eval_nat_numeral dequeue_pass_def Let_def split: option.splits)

lemma dequeue_begin_alone:
  "dequeue_begin q s = Some r \<Longrightarrow>
     \<exists>n. run_alone (consumer_step q) n (C_LoadRead, s) =
       (case r of Inl f \<Rightarrow> Inl f | Inr (v, s') \<Rightarrow> Inr (C_View v, s'))"
proof (induction rule: dequeue_begin.raw_induct [rotated, consumes 1, case_names step])
  case (step f q s r)
  show ?case
  proof (cases "dequeue_pass q s")
    case (DeqRecheck s')
    then obtain n where "run_alone (consumer_step q) n (C_LoadRead, s') =
        (case r of Inl f \<Rightarrow> Inl f | Inr (v, s') \<Rightarrow> Inr (C_View v, s'))"
      using step(1) [of q s' r] step(2) by auto
    then have "run_alone (consumer_step q) (4 + n) (C_LoadRead, s) =
        (case r of Inl f \<Rightarrow> Inl f | Inr (v, s') \<Rightarrow> Inr (C_View v, s'))"
      using DeqRecheck run_alone_trans [of "consumer_step q" 4 "(C_LoadRead, s)" "(C_LoadRead, s')" n]
      by (simp add: dequeue_pass_alone)
    then show ?thesis by blast
  qed (use step dequeue_pass_alone in \<open>auto intro!: exI [of _ 4]\<close>)
qed

section \<open>Producer and consumer together\<close>

text \<open>
  The shared storage, the two program counters, and what the clients see: the payloads in the order
  in which their messages were published, and the payloads the consumer has read and committed.
\<close>

record spsc_system =
  sy_storage :: SPSCStorage
  sy_prod :: producer_pc
  sy_cons :: consumer_pc
  sy_sent :: "byte list list"
  sy_rcvd :: "byte list list"

definition spsc_start :: "SPSCStorage \<Rightarrow> spsc_system" where
  "spsc_start s = \<lparr>sy_storage = s, sy_prod = P_Return False, sy_cons = C_Idle, sy_sent = [], sy_rcvd = []\<rparr>"

definition published :: "producer_pc \<Rightarrow> byte list list" where
  "published pc =
     (case pc of
        P_Store h msg _ \<Rightarrow>
          (case load_heap h (msg_payload msg) (unat (msg_payload_size msg)) of
             None \<Rightarrow> [] | Some bs \<Rightarrow> [bs])
      | _ \<Rightarrow> [])"

definition committed :: "SPSCQueue \<Rightarrow> consumer_pc \<Rightarrow> SPSCStorage \<Rightarrow> byte list list" where
  "committed q pc s =
     (case pc of
        C_Store v \<Rightarrow> (case view_bytes q s v of None \<Rightarrow> [] | Some bs \<Rightarrow> [bs])
      | _ \<Rightarrow> [])"

text \<open>
  The producer starts a call with any message the client may send (\<open>ok\<close>) once its last call has
  returned; the consumer calls \<^verbatim>\<open>dequeue_begin\<close> whenever it is not inside a call, and commits a
  non-empty view.
\<close>

inductive spsc_step ::
    "SPSCQueue \<Rightarrow> (byte list \<Rightarrow> bool) \<Rightarrow> spsc_system \<Rightarrow> spsc_system \<Rightarrow> bool" for q ok where
  call_enqueue: "sy_prod c = P_Return b \<Longrightarrow> payload_is h msg m \<Longrightarrow> ok m \<Longrightarrow>
    spsc_step q ok c (c\<lparr>sy_prod := P_LoadRead h msg\<rparr>)"
| prod_step: "producer_step q (sy_prod c) (sy_storage c) = Inr (pc, s) \<Longrightarrow>
    spsc_step q ok c
      (c\<lparr>sy_storage := s, sy_prod := pc, sy_sent := sy_sent c @ published (sy_prod c)\<rparr>)"
| call_begin: "sy_cons c = C_Idle \<or> sy_cons c = C_View v \<Longrightarrow>
    spsc_step q ok c (c\<lparr>sy_cons := C_LoadRead\<rparr>)"
| call_commit: "sy_cons c = C_View v \<Longrightarrow> \<not> view_empty v \<Longrightarrow>
    spsc_step q ok c (c\<lparr>sy_cons := C_Store v\<rparr>)"
| cons_step: "consumer_step q (sy_cons c) (sy_storage c) = Inr (pc, s) \<Longrightarrow>
    spsc_step q ok c
      (c\<lparr>sy_storage := s, sy_cons := pc,
         sy_rcvd := sy_rcvd c @ committed q (sy_cons c) (sy_storage c)\<rparr>)"

abbreviation spsc_reach ::
    "SPSCQueue \<Rightarrow> (byte list \<Rightarrow> bool) \<Rightarrow> spsc_system \<Rightarrow> spsc_system \<Rightarrow> bool" where
  "spsc_reach q ok \<equiv> (spsc_step q ok)\<^sup>*\<^sup>*"

section \<open>Writes that miss the unread bytes\<close>

definition clear :: "nat \<Rightarrow> nat \<Rightarrow> nat \<Rightarrow> nat \<Rightarrow> bool" where
  "clear r w off n \<longleftrightarrow> (if r \<le> w then off + n \<le> r \<or> w \<le> off else w \<le> off \<and> off + n \<le> r)"

lemma runs_clear:
  assumes "runs buf r w ms" and "clear r w off (length bs)" and "off + length bs \<le> length buf"
  shows "runs (mem_splice buf off bs) r w ms"
  using assms(1)
proof (cases rule: runs_cases)
  case linear
  then have "seg (mem_splice buf off bs) r ms w"
    using assms by (intro seg_splice) (auto simp: clear_def)
  then show ?thesis by (rule runs_linearI)
next
  case (wrapped ms1 ms2 e)
  then have "r \<le> e" using seg_le' by blast
  have off: "w \<le> off" "off + length bs \<le> r"
    using assms(2) wrapped by (auto simp: clear_def)
  have "runs (mem_splice buf off bs) r w (ms1 @ ms2)"
    using wrapped off \<open>r \<le> e\<close> assms(3)
    by (intro runs_wrappedI [where e = e] seg_splice) (auto simp: header_splice length_mem_splice)
  then show ?thesis using wrapped by simp
qed

lemma header_clear:
  assumes "clear r w off (length bs)" and "off + length bs \<le> length buf"
    and "8 dvd r" "8 dvd w" "r \<noteq> w"
  shows "header_at (mem_splice buf off bs) r = header_at buf r"
proof (rule header_splice)
  have "r + 8 \<le> w" if "r < w"
    using assms(3,4) that by (intro dvd8_less_add)
  then show "r + 8 \<le> off \<or> off + length bs \<le> r"
    using assms(1,5) by (auto simp: clear_def split: if_splits)
qed (rule assms(2))

lemma splice_slice:
  assumes "off + n \<le> length mem" and "mem_slice mem off n = bs"
  shows "mem_splice mem off bs = mem"
proof -
  have "length bs = n" and "take n (drop off mem) = bs"
    using assms by (auto simp: mem_slice_def)
  moreover have "take n (drop off mem) @ drop (off + n) mem = drop off mem"
    using append_take_drop_id [of n "drop off mem"] by (simp add: add.commute)
  ultimately show ?thesis by (simp add: mem_splice_def)
qed

section \<open>What the consumer's stores do\<close>

text \<open>The places the read index can go to: it stays behind the write index of the unread messages.\<close>

definition moves :: "nat \<Rightarrow> nat \<Rightarrow> nat \<Rightarrow> bool" where
  "moves r r' w \<longleftrightarrow> (if r \<le> w then r \<le> r' \<and> r' \<le> w else r \<le> r' \<or> r' \<le> w)"

lemma moves_refl [simp]: "moves r r w"
  by (simp add: moves_def)

lemma moves_trans: "moves r r' w \<Longrightarrow> moves r' r'' w \<Longrightarrow> moves r r'' w"
  by (auto simp: moves_def split: if_splits)

abbreviation "rd s \<equiv> unat (st_read_ix s)"
abbreviation "wr s \<equiv> unat (st_write_ix s)"
abbreviation "hdr s \<equiv> header_at (st_buffer s) (rd s)"

lemma ring_rep_count_irrelevant [simp]:
  "ring_rep (s\<lparr>st_msg_count := c\<rparr>) ms = ring_rep s ms"
  "ring_rep (s\<lparr>st_msg_count := c, st_write_ix := w\<rparr>) ms = ring_rep (s\<lparr>st_write_ix := w\<rparr>) ms"
  by (simp_all add: ring_rep_def wf_storage_def)

lemma skip_none: "hdr s \<noteq> 0 \<Longrightarrow> skip_sentinel s = s"
  by (simp add: skip_sentinel_def)

lemma rewind_wrapped:
  assumes "ring_rep s ms" and "ms \<noteq> []" and "hdr s = 0"
  shows "wr s < rd s"
proof (rule ccontr)
  assume "\<not> wr s < rd s"
  then have "seg (st_buffer s) (rd s) ms (wr s)"
    using assms(1) by (auto simp: ring_rep_def runs_def)
  then show False using assms(2,3) by (cases ms) auto
qed

lemma rewind_ring:
  assumes "ring_rep s ms" and "ms \<noteq> []" and "hdr s = 0"
  shows "ring_rep (s\<lparr>st_read_ix := 0\<rparr>) ms"
proof -
  have "st_read_ix s \<noteq> st_write_ix s"
    using rewind_wrapped [OF assms] by auto
  then have "skip_sentinel s = s\<lparr>st_read_ix := 0\<rparr>"
    using assms(3) by (simp add: skip_sentinel_def)
  with ring_rep_skip [OF assms(1)] show ?thesis by simp
qed

definition committed_ix :: "MessageView \<Rightarrow> u64" where
  "committed_ix v = next_index (view_index v) (view_total_size v)"

lemma dequeue_commit_split:
  "dequeue_commit v s = s\<lparr>st_read_ix := committed_ix v, st_msg_count := st_msg_count s - 1\<rparr>"
  by (simp add: dequeue_commit_def committed_ix_def Let_def)

lemma commit_ring:
  assumes "ring_rep s (m # ms)" and "hdr s \<noteq> 0"
  shows "ring_rep (s\<lparr>st_read_ix := committed_ix (head_view q s m)\<rparr>) ms"
  using dequeue_commit_ring [OF assms(1), of q]
  by (simp add: skip_none [OF assms(2)] dequeue_commit_split)

lemma commit_ix:
  assumes "ring_rep s (m # ms)" and "hdr s \<noteq> 0"
  shows "unat (committed_ix (head_view q s m)) = rd s + msg_space m"
  using dequeue_commit_read_ix [OF assms(1), of q]
  by (simp add: skip_none [OF assms(2)] dequeue_commit_split)

lemma commit_moves:
  assumes "ring_rep s (m # ms)" and "hdr s \<noteq> 0"
  shows "moves (rd s) (rd s + msg_space m) (wr s)"
proof (cases "rd s \<le> wr s")
  case True
  then have "seg (st_buffer s) (msg_end (rd s) m) ms (wr s)" and "8 dvd rd s"
    using assms(1) by (auto simp: ring_rep_def runs_def)
  then have "rd s + msg_space m \<le> wr s"
    using seg_le' by (fastforce simp: msg_end_space)
  with True show ?thesis by (simp add: moves_def)
qed (simp add: moves_def)

lemma head_view_index: "hdr s \<noteq> 0 \<Longrightarrow> head_view q s m =
    MessageView_new (q_buffer q + st_read_ix s + 8) (word_of_nat (length m)) (st_read_ix s)"
  by (simp add: head_view_def skip_none)

text \<open>What the consumer finds at the read index of a non-empty queue.\<close>

lemma header_read:
  assumes "ring_rep s ms" and "ms \<noteq> []"
  shows "mem_read (st_buffer s) (rd s) 8 = Some (mem_slice (st_buffer s) (rd s) 8)"
    and "hdr s = (if u64_of_bytes (mem_slice (st_buffer s) (rd s) 8) = 0 then 0 else length (hd ms))"
    and "u64_of_bytes (mem_slice (st_buffer s) (rd s) 8) = word_of_nat (hdr s)"
proof -
  have "rd s + 8 \<le> length (st_buffer s)"
    using assms(1) by (intro dvd8_less_add) (auto simp: ring_rep_def wf_storage_def)
  then show "mem_read (st_buffer s) (rd s) 8 = Some (mem_slice (st_buffer s) (rd s) 8)"
    by (simp add: mem_read_def)
  show "u64_of_bytes (mem_slice (st_buffer s) (rd s) 8) = word_of_nat (hdr s)"
    by (simp add: header_at_def)
  show "hdr s = (if u64_of_bytes (mem_slice (st_buffer s) (rd s) 8) = 0 then 0 else length (hd ms))"
  proof (cases "hdr s = 0")
    case True
    then show ?thesis by (simp add: header_at_def u64_eq_iff)
  next
    case False
    obtain m ms' where ms: "ms = m # ms'" using assms(2) by (cases ms) auto
    with assms(1) obtain j where "seg (st_buffer s) (rd (skip_sentinel s)) [m] j"
      using ring_rep_head by blast
    then have "hdr s = length m" by (simp add: skip_none [OF False])
    then show ?thesis
      using False ms by (simp add: header_at_def u64_eq_iff)
  qed
qed

section \<open>The invariant\<close>

definition unread_ok :: "SPSCQueue \<Rightarrow> nat \<Rightarrow> nat \<Rightarrow> SPSCStorage \<Rightarrow> byte list list \<Rightarrow> bool" where
  "unread_ok q B T s ms \<longleftrightarrow>
     ring_rep s ms \<and> attached q s \<and> length (st_buffer s) = B \<and>
     T dvd rd s \<and> T dvd wr s \<and> (\<forall>m \<in> set ms. msg_space m = T)"

definition sending :: "nat \<Rightarrow> nat \<Rightarrow> heap \<Rightarrow> Message \<Rightarrow> byte list \<Rightarrow> bool" where
  "sending B T h msg m \<longleftrightarrow> payload_is h msg m \<and> uniform_ok B T m"

text \<open>Where a message goes: behind the write index, or to the start with a sentinel at the index.\<close>

definition target ::
    "nat \<Rightarrow> nat \<Rightarrow> nat \<Rightarrow> nat \<Rightarrow> u64 \<Rightarrow> u64 \<Rightarrow> u64 option \<Rightarrow> bool" where
  "target B T r w off nx wrap \<longleftrightarrow>
     (case wrap of
        None \<Rightarrow> unat off = w \<and> unat nx = w + T \<and> w + T < B \<and> (r \<le> w \<or> w + T < r)
      | Some w1 \<Rightarrow> unat w1 = w \<and> off = 0 \<and> unat nx = T \<and> r \<le> w \<and> T < r)"

fun prod_inv :: "nat \<Rightarrow> nat \<Rightarrow> SPSCStorage \<Rightarrow> byte list list \<Rightarrow> producer_pc \<Rightarrow> bool" where
  "prod_inv B T s ms (P_Return b) \<longleftrightarrow> True"
| "prod_inv B T s ms (P_LoadRead h msg) \<longleftrightarrow> (\<exists>m. sending B T h msg m)"
| "prod_inv B T s ms (P_LoadWrite h msg r0) \<longleftrightarrow>
     (\<exists>m. sending B T h msg m) \<and> T dvd unat r0 \<and> unat r0 < B \<and> moves (unat r0) (rd s) (wr s)"
| "prod_inv B T s ms (P_Payload h msg off nx wrap) \<longleftrightarrow>
     (\<exists>m. sending B T h msg m) \<and> target B T (rd s) (wr s) off nx wrap"
| "prod_inv B T s ms (P_Header h msg off nx wrap) \<longleftrightarrow>
     (\<exists>m. sending B T h msg m \<and> mem_slice (st_buffer s) (unat off + 8) (length m) = m) \<and>
     target B T (rd s) (wr s) off nx wrap"
| "prod_inv B T s ms (P_Sentinel h msg w nx) \<longleftrightarrow>
     (\<exists>m. sending B T h msg m \<and> place 0 m (st_buffer s) = st_buffer s) \<and>
     target B T (rd s) (wr s) 0 nx (Some w)"
| "prod_inv B T s ms (P_Store h msg nx) \<longleftrightarrow>
     (\<exists>m. sending B T h msg m \<and> ring_rep (s\<lparr>st_write_ix := nx\<rparr>) (ms @ [m])) \<and> T dvd unat nx"
| "prod_inv B T s ms P_Count \<longleftrightarrow> True"

definition holds :: "SPSCQueue \<Rightarrow> SPSCStorage \<Rightarrow> byte list list \<Rightarrow> MessageView \<Rightarrow> bool" where
  "holds q s ms v \<longleftrightarrow> ms \<noteq> [] \<and> hdr s \<noteq> 0 \<and> v = head_view q s (hd ms)"

fun cons_inv :: "SPSCQueue \<Rightarrow> SPSCStorage \<Rightarrow> byte list list \<Rightarrow> consumer_pc \<Rightarrow> bool" where
  "cons_inv q s ms (C_LoadWrite r) \<longleftrightarrow> r = st_read_ix s"
| "cons_inv q s ms (C_Header r) \<longleftrightarrow> r = st_read_ix s \<and> ms \<noteq> []"
| "cons_inv q s ms C_Rewind \<longleftrightarrow> ms \<noteq> [] \<and> hdr s = 0"
| "cons_inv q s ms (C_View v) \<longleftrightarrow> view_empty v \<or> holds q s ms v"
| "cons_inv q s ms (C_Store v) \<longleftrightarrow> holds q s ms v"
| "cons_inv q s ms _ \<longleftrightarrow> True"

text \<open>The counter lags behind the indices by the updates that are still to come.\<close>

definition counted :: "spsc_system \<Rightarrow> nat \<Rightarrow> bool" where
  "counted c n \<longleftrightarrow>
     st_msg_count (sy_storage c) + (if sy_prod c = P_Count then 1 else 0) =
     word_of_nat n + (if sy_cons c = C_Count then 1 else 0)"

definition system_inv :: "SPSCQueue \<Rightarrow> nat \<Rightarrow> nat \<Rightarrow> spsc_system \<Rightarrow> byte list list \<Rightarrow> bool" where
  "system_inv q B T c ms \<longleftrightarrow>
     unread_ok q B T (sy_storage c) ms \<and> prod_inv B T (sy_storage c) ms (sy_prod c) \<and>
     cons_inv q (sy_storage c) ms (sy_cons c) \<and> counted c (length ms) \<and>
     sy_sent c = sy_rcvd c @ ms"

section \<open>The producer's steps\<close>

lemma load_sending:
  "sending B T h msg m \<Longrightarrow> load_heap h (msg_payload msg) (unat (msg_payload_size msg)) = Some m"
  by (simp add: sending_def payload_is_def msg_payload_size_def)

lemma decide_target:
  assumes ok: "unread_ok q B T s ms" and snd: "sending B T h msg m"
    and r0: "T dvd unat r0" "unat r0 < B" "moves (unat r0) (rd s) (wr s)"
  shows "prod_inv B T s ms (enqueue_decide q h msg r0 (st_write_ix s))"
proof -
  have rep: "ring_rep s ms" and B: "length (st_buffer s) = B" and T: "msg_space m = T"
    and fits: "8 + length m \<le> B"
    using ok snd by (auto simp: unread_ok_def sending_def uniform_ok_def)
  have w8: "8 dvd wr s" and wB: "wr s < B" and small: "B + 256 < 2 ^ 63"
    and qB: "unat (q_buffer_size q) = B"
    using ok B by (auto simp: unread_ok_def ring_rep_def wf_storage_def attached_def unat_buffer_size_wf)
  have total: "unat (msg_total_size msg) = 8 + length m"
    using snd fits small by (subst unat_msg_total_size)
      (simp_all add: sending_def payload_is_length [of h msg m])
  have next_w: "unat (next_index (st_write_ix s) (msg_total_size msg)) = wr s + T"
    using w8 wB small fits total T by (subst unat_next_index) (simp_all add: msg_space_def align8_add)
  have next_0: "unat (next_index 0 (msg_total_size msg)) = T"
    using small fits total T by (subst unat_next_index) (simp_all add: msg_space_def)
  have sent: "unat (st_write_ix s + 8) = wr s + 8"
    using wB small by (simp add: unat_word_ariths)
  have no_overtake: "unat r0 \<le> wr s" if "B \<le> wr s + T"
  proof (rule ccontr)
    assume *: "\<not> unat r0 \<le> wr s"
    have "T dvd unat r0 - wr s" using ok r0(1) by (auto simp: unread_ok_def)
    with * have "T \<le> unat r0 - wr s" by (auto dest: dvd_imp_le)
    with that r0(2) * show False by simp
  qed
  show ?thesis
    using snd r0(3) no_overtake
    by (auto simp: enqueue_decide_def Let_def word_less_nat_alt word_le_nat_alt next_w next_0 sent qB
        target_def moves_def not_less not_le split: if_splits)
qed

lemma target_clear:
  assumes "target B T r w off nx wrap" and "msg_space m = T" and "w < B" and "8 dvd w" and "8 dvd B"
  shows "clear r w (unat off + 8) (length m)" and "unat off + 8 + length m \<le> B"
    and "clear r w (unat off) 8" and "wrap = Some w1 \<Longrightarrow> clear r w (unat w1) 8 \<and> unat w1 + 8 \<le> B"
  using assms msg_space_bounds [of m] dvd8_less_add [of w B]
  by (auto simp: target_def clear_def split: option.splits)

lemma unread_bounds:
  assumes "unread_ok q B T s ms"
  shows "8 dvd rd s" "8 dvd wr s" "8 dvd B" "rd s < B" "wr s < B" "length (st_buffer s) = B" "B < 2 ^ 63"
  using assms by (auto simp: unread_ok_def ring_rep_def wf_storage_def)

lemma unread_write:
  assumes ok: "unread_ok q B T s ms" and clear: "clear (rd s) (wr s) off (length bs)"
    and room: "off + length bs \<le> B"
  shows "unread_ok q B T (s\<lparr>st_buffer := mem_splice (st_buffer s) off bs\<rparr>) ms"
    and "ms \<noteq> [] \<Longrightarrow> header_at (mem_splice (st_buffer s) off bs) (rd s) = hdr s"
proof -
  note b = unread_bounds [OF ok]
  have "runs (mem_splice (st_buffer s) off bs) (rd s) (wr s) ms"
    using ok clear room b(6) by (intro runs_clear) (auto simp: unread_ok_def ring_rep_def)
  then show "unread_ok q B T (s\<lparr>st_buffer := mem_splice (st_buffer s) off bs\<rparr>) ms"
    using ok room b(6)
    by (simp add: unread_ok_def ring_rep_def wf_storage_def attached_def buffer_size_def
        calc_max_message_size_def length_mem_splice)
  assume "ms \<noteq> []"
  then have "rd s \<noteq> wr s"
    using ok runs_empty_iff by (fastforce simp: unread_ok_def ring_rep_def)
  then show "header_at (mem_splice (st_buffer s) off bs) (rd s) = hdr s"
    using clear room b by (intro header_clear) auto
qed

text \<open>The consumer does not notice a write that misses the unread bytes, nor a new message.\<close>

lemma cons_inv_other:
  assumes "cons_inv q s ms pc" and "st_read_ix s' = st_read_ix s" and "ms \<noteq> [] \<Longrightarrow> hdr s' = hdr s"
  shows "cons_inv q s' (ms @ ns) pc"
  using assms by (cases pc) (auto simp: holds_def head_view_index)

lemma prod_step_payload:
  assumes ok: "unread_ok q B T s ms" and inv: "prod_inv B T s ms (P_Payload h msg off nx wrap)"
    and cons: "cons_inv q s ms cpc"
  shows "\<exists>s'. producer_step q (P_Payload h msg off nx wrap) s = Inr (P_Header h msg off nx wrap, s') \<and>
    unread_ok q B T s' ms \<and> prod_inv B T s' ms (P_Header h msg off nx wrap) \<and> cons_inv q s' ms cpc \<and>
    st_msg_count s' = st_msg_count s"
proof -
  from inv obtain m where snd: "sending B T h msg m" and tgt: "target B T (rd s) (wr s) off nx wrap"
    by auto
  note b = unread_bounds [OF ok]
  have T: "msg_space m = T" using snd by (simp add: sending_def uniform_ok_def)
  note c = target_clear [OF tgt T b(5,2,3)]
  let ?s = "s\<lparr>st_buffer := mem_splice (st_buffer s) (unat off + 8) m\<rparr>"
  have "producer_step q (P_Payload h msg off nx wrap) s = Inr (P_Header h msg off nx wrap, ?s)"
    using c(2) b(6) by (simp add: load_sending [OF snd] mem_write_def)
  moreover have "unread_ok q B T ?s ms"
    by (rule unread_write(1) [OF ok c(1,2)])
  moreover have "prod_inv B T ?s ms (P_Header h msg off nx wrap)"
    using snd tgt c(2) b(6) by (auto simp: slice_splice_same)
  moreover have "cons_inv q ?s (ms @ []) cpc"
    using cons unread_write(2) [OF ok c(1,2)] by (intro cons_inv_other) auto
  ultimately show ?thesis by auto
qed

lemma unread_publish:
  assumes "unread_ok q B T s ms" and "runs (st_buffer s) (rd s) (unat nx) ns"
    and "unat nx < B" and "8 dvd unat nx"
  shows "ring_rep (s\<lparr>st_write_ix := nx\<rparr>) ns"
  using assms by (auto simp: unread_ok_def ring_rep_def wf_storage_def)

lemma sending_ring_ok:
  "unread_ok q B T s ms \<Longrightarrow> sending B T h msg m \<Longrightarrow> ring_ok (st_buffer s) (rd s) (wr s) m"
  using ring_rep_ok by (auto simp: unread_ok_def sending_def uniform_ok_def admissible_def)

lemma header_bytes: "sending B T h msg m \<Longrightarrow> msg_size msg = word_of_nat (length m)"
  using payload_is_length [of h msg m] word_nat_unat_id [of "msg_size msg"]
  by (simp add: sending_def)

lemma place_splice:
  assumes "mem_slice mem (off + 8) (length m) = m" and "off + 8 + length m \<le> length mem"
  shows "place off m mem = mem_splice mem off (bytes_of_u64 (word_of_nat (length m)))"
  using assms by (simp add: place_def splice_slice)

lemma place_place:
  assumes "off + 8 + length m \<le> length mem"
  shows "place off m (place off m mem) = place off m mem"
proof -
  have "mem_slice (place off m mem) (off + 8) (length m) = m"
    and "mem_slice (place off m mem) off 8 = bytes_of_u64 (word_of_nat (length m))"
    using assms
    by (simp_all add: place_def slice_splice_same slice_splice_disjoint length_mem_splice)
  then show ?thesis
    using assms by (simp add: place_splice [of "place off m mem"] splice_slice [where n = 8])
qed

lemma prod_step_header:
  assumes ok: "unread_ok q B T s ms" and inv: "prod_inv B T s ms (P_Header h msg off nx wrap)"
    and cons: "cons_inv q s ms cpc"
  shows "\<exists>pc s'. producer_step q (P_Header h msg off nx wrap) s = Inr (pc, s') \<and>
    unread_ok q B T s' ms \<and> prod_inv B T s' ms pc \<and> pc \<noteq> P_Count \<and> cons_inv q s' ms cpc \<and>
    st_msg_count s' = st_msg_count s"
proof -
  from inv obtain m where snd: "sending B T h msg m" and tgt: "target B T (rd s) (wr s) off nx wrap"
    and pay: "mem_slice (st_buffer s) (unat off + 8) (length m) = m"
    by auto
  note b = unread_bounds [OF ok]
  have T: "msg_space m = T" using snd by (simp add: sending_def uniform_ok_def)
  note c = target_clear [OF tgt T b(5,2,3)]
  let ?s = "s\<lparr>st_buffer := place (unat off) m (st_buffer s)\<rparr>"
  let ?pc = "case wrap of None \<Rightarrow> P_Store h msg nx | Some w \<Rightarrow> P_Sentinel h msg w nx"
  have place: "place (unat off) m (st_buffer s) =
      mem_splice (st_buffer s) (unat off) (bytes_of_u64 (word_of_nat (length m)))"
    using pay c(2) b(6) by (intro place_splice) auto
  have step: "producer_step q (P_Header h msg off nx wrap) s = Inr (?pc, ?s)"
    using c(2) b(6) by (simp add: place header_bytes [OF snd] mem_write_def)
  have room: "clear (rd s) (wr s) (unat off) (length (bytes_of_u64 (word_of_nat (length m))))"
    "unat off + length (bytes_of_u64 (word_of_nat (length m))) \<le> B"
    using c(2,3) by simp_all
  have ok': "unread_ok q B T ?s ms"
    unfolding place by (rule unread_write(1) [OF ok room])
  have "cons_inv q ?s (ms @ []) cpc"
    using cons unread_write(2) [OF ok room] by (intro cons_inv_other) (auto simp: place)
  moreover have "prod_inv B T ?s ms ?pc"
  proof (cases wrap)
    case None
    then have off: "unat off = wr s" "unat nx = wr s + msg_space m" "wr s + msg_space m < B"
        "rd s \<le> wr s \<or> wr s + msg_space m < rd s"
      using tgt T by (auto simp: target_def)
    have "runs (place (wr s) m (st_buffer s)) (rd s) (wr s + msg_space m) (ms @ [m])"
      using ok off b(6) by (intro put_behind [OF sending_ring_ok [OF ok snd]])
        (auto simp: unread_ok_def ring_rep_def)
    moreover have "8 dvd unat nx"
      using off b(2) by simp
    ultimately have "ring_rep (?s\<lparr>st_write_ix := nx\<rparr>) (ms @ [m])"
      using unread_publish [OF ok', of nx "ms @ [m]"] off by simp
    then show ?thesis
      using None snd off ok T by (auto simp: unread_ok_def)
  next
    case (Some w)
    then have "off = 0" using tgt by (simp add: target_def)
    moreover have "place 0 m (place 0 m (st_buffer s)) = place 0 m (st_buffer s)"
      using c(2) b(6) \<open>off = 0\<close> by (intro place_place) simp
    ultimately show ?thesis
      using Some snd tgt by auto
  qed
  ultimately show ?thesis
    using step ok' by (intro exI [of _ ?pc] exI [of _ ?s]) (auto split: option.splits)
qed

lemma prod_step_sentinel:
  assumes ok: "unread_ok q B T s ms" and inv: "prod_inv B T s ms (P_Sentinel h msg w nx)"
    and cons: "cons_inv q s ms cpc"
  shows "\<exists>s'. producer_step q (P_Sentinel h msg w nx) s = Inr (P_Store h msg nx, s') \<and>
    unread_ok q B T s' ms \<and> prod_inv B T s' ms (P_Store h msg nx) \<and> cons_inv q s' ms cpc \<and>
    st_msg_count s' = st_msg_count s"
proof -
  from inv obtain m where snd: "sending B T h msg m" and pay: "place 0 m (st_buffer s) = st_buffer s"
    and tgt: "target B T (rd s) (wr s) 0 nx (Some w)"
    by auto
  note b = unread_bounds [OF ok]
  have T: "msg_space m = T" using snd by (simp add: sending_def uniform_ok_def)
  have w: "clear (rd s) (wr s) (wr s) (length (replicate 8 (0::byte)))"
    "wr s + length (replicate 8 (0::byte)) \<le> B" "unat w = wr s"
    using target_clear(4) [OF tgt T b(5,2,3), of w] tgt by (auto simp: target_def)
  let ?s = "s\<lparr>st_buffer := mem_splice (st_buffer s) (wr s) (replicate 8 0)\<rparr>"
  have "producer_step q (P_Sentinel h msg w nx) s = Inr (P_Store h msg nx, ?s)"
    using w b(6) by (simp add: mem_write_def)
  moreover have ok': "unread_ok q B T ?s ms"
    by (rule unread_write(1) [OF ok w(1,2)])
  moreover have "cons_inv q ?s (ms @ []) cpc"
    using cons unread_write(2) [OF ok w(1,2)] by (intro cons_inv_other) auto
  moreover have "prod_inv B T ?s ms (P_Store h msg nx)"
  proof -
    have t: "rd s \<le> wr s" "msg_space m < rd s" "unat nx = msg_space m"
      using tgt T by (auto simp: target_def)
    have "runs (mem_splice (place 0 m (st_buffer s)) (wr s) (replicate 8 0)) (rd s) (msg_space m) (ms @ [m])"
      using ok t by (intro put_wrapping [OF sending_ring_ok [OF ok snd]])
        (auto simp: unread_ok_def ring_rep_def)
    moreover have "8 dvd unat nx" "unat nx < B"
      using t b(4) by simp_all
    ultimately have "ring_rep (?s\<lparr>st_write_ix := nx\<rparr>) (ms @ [m])"
      using unread_publish [OF ok', of nx "ms @ [m]"] t by (simp add: pay)
    then show ?thesis using snd t T by auto
  qed
  ultimately show ?thesis by auto
qed

lemma prod_step_store:
  assumes ok: "unread_ok q B T s ms" and inv: "prod_inv B T s ms (P_Store h msg nx)"
    and cons: "cons_inv q s ms cpc"
  shows "\<exists>m. published (P_Store h msg nx) = [m] \<and> unread_ok q B T (s\<lparr>st_write_ix := nx\<rparr>) (ms @ [m]) \<and>
    cons_inv q (s\<lparr>st_write_ix := nx\<rparr>) (ms @ [m]) cpc"
proof -
  from inv obtain m where snd: "sending B T h msg m" and T: "T dvd unat nx"
    and rep: "ring_rep (s\<lparr>st_write_ix := nx\<rparr>) (ms @ [m])"
    by auto
  have "published (P_Store h msg nx) = [m]"
    by (simp add: published_def load_sending [OF snd])
  moreover have "unread_ok q B T (s\<lparr>st_write_ix := nx\<rparr>) (ms @ [m])"
    using ok rep T snd
    by (auto simp: unread_ok_def sending_def uniform_ok_def attached_def buffer_size_def
        calc_max_message_size_def)
  moreover have "cons_inv q (s\<lparr>st_write_ix := nx\<rparr>) (ms @ [m]) cpc"
    using cons by (intro cons_inv_other) auto
  ultimately show ?thesis by blast
qed

section \<open>The consumer's steps\<close>

lemma prod_inv_move:
  assumes "prod_inv B T s ms pc" and "moves (rd s) (unat r) (wr s)"
    and "\<And>nx m. ring_rep (s\<lparr>st_write_ix := nx\<rparr>) (ms @ [m]) \<Longrightarrow>
           ring_rep (s\<lparr>st_write_ix := nx, st_read_ix := r\<rparr>) (ms' @ [m])"
  shows "prod_inv B T (s\<lparr>st_read_ix := r\<rparr>) ms' pc"
proof -
  have tgt: "target B T (unat r) (wr s) off nx wrap" if "target B T (rd s) (wr s) off nx wrap" for off nx wrap
    using that assms(2) by (auto simp: target_def moves_def split: option.splits if_splits)
  have swap: "s\<lparr>st_read_ix := r, st_write_ix := nx\<rparr> = s\<lparr>st_write_ix := nx, st_read_ix := r\<rparr>" for nx
    by simp
  show ?thesis
    using assms(1)
  proof (cases pc)
    case (P_LoadWrite h msg r0)
    then show ?thesis using assms(1,2) moves_trans by auto
  next
    case (P_Store h msg nx)
    then show ?thesis using assms(1,3) by (auto simp: swap)
  qed (auto intro: tgt)
qed

lemma unread_read_ix:
  assumes "unread_ok q B T s ms" and "ring_rep (s\<lparr>st_read_ix := r\<rparr>) ms'" and "T dvd unat r"
    and "set ms' \<subseteq> set ms"
  shows "unread_ok q B T (s\<lparr>st_read_ix := r\<rparr>) ms'"
  using assms by (auto simp: unread_ok_def attached_def buffer_size_def calc_max_message_size_def)

lemma cons_step_rewind:
  assumes ok: "unread_ok q B T s ms" and prod: "prod_inv B T s ms ppc"
    and inv: "ms \<noteq> []" "hdr s = 0"
  shows "unread_ok q B T (s\<lparr>st_read_ix := 0\<rparr>) ms \<and> prod_inv B T (s\<lparr>st_read_ix := 0\<rparr>) ms ppc"
proof
  have rep: "ring_rep s ms" using ok by (simp add: unread_ok_def)
  show "unread_ok q B T (s\<lparr>st_read_ix := 0\<rparr>) ms"
    using rewind_ring [OF rep inv] by (intro unread_read_ix [OF ok]) simp_all
  show "prod_inv B T (s\<lparr>st_read_ix := 0\<rparr>) ms ppc"
  proof (rule prod_inv_move [OF prod])
    show "moves (rd s) (unat (0::u64)) (wr s)"
      using rewind_wrapped [OF rep inv] by (simp add: moves_def)
    show "ring_rep (s\<lparr>st_write_ix := nx, st_read_ix := 0\<rparr>) (ms @ [m])"
      if "ring_rep (s\<lparr>st_write_ix := nx\<rparr>) (ms @ [m])" for nx m
      using rewind_ring [OF that] inv(2) by simp
  qed
qed

lemma cons_step_commit:
  assumes ok: "unread_ok q B T s ms" and prod: "prod_inv B T s ms ppc" and inv: "holds q s ms v"
  shows "\<exists>m ms'. ms = m # ms' \<and> view_bytes q s v = Some m \<and>
    unread_ok q B T (s\<lparr>st_read_ix := committed_ix v\<rparr>) ms' \<and>
    prod_inv B T (s\<lparr>st_read_ix := committed_ix v\<rparr>) ms' ppc"
proof -
  obtain m ms' where ms: "ms = m # ms'" and hdr: "hdr s \<noteq> 0" and v: "v = head_view q s m"
    using inv by (cases ms) (auto simp: holds_def)
  have rep: "ring_rep s (m # ms')" using ok ms by (simp add: unread_ok_def)
  note ix = commit_ix [OF rep hdr, of q, folded v]
  have "T dvd rd s + msg_space m"
    using ok ms by (auto simp: unread_ok_def)
  then have "unread_ok q B T (s\<lparr>st_read_ix := committed_ix v\<rparr>) ms'"
    using commit_ring [OF rep hdr, of q] ms v ix by (intro unread_read_ix [OF ok]) auto
  moreover have "prod_inv B T (s\<lparr>st_read_ix := committed_ix v\<rparr>) ms' ppc"
  proof (rule prod_inv_move [OF prod])
    show "moves (rd s) (unat (committed_ix v)) (wr s)"
      unfolding ix by (rule commit_moves [OF rep hdr])
    fix nx k
    assume "ring_rep (s\<lparr>st_write_ix := nx\<rparr>) (ms @ [k])"
    then have "ring_rep (s\<lparr>st_write_ix := nx\<rparr>) (m # ms' @ [k])" by (simp add: ms)
    from commit_ring [OF this, of q] hdr
    show "ring_rep (s\<lparr>st_write_ix := nx, st_read_ix := committed_ix v\<rparr>) (ms' @ [k])"
      by (simp add: v head_view_index)
  qed
  moreover have "view_bytes q s v = Some m"
    using head_view_bytes [OF rep, of q] by (simp add: skip_none [OF hdr] v)
  ultimately show ?thesis using ms by blast
qed

lemma cons_step_header:
  assumes ok: "unread_ok q B T s ms" and ne: "ms \<noteq> []"
  shows "\<exists>pc. consumer_step q (C_Header (st_read_ix s)) s = Inr (pc, s) \<and> cons_inv q s ms pc \<and>
    pc \<noteq> C_Count"
proof -
  have rep: "ring_rep s ms" using ok by (simp add: unread_ok_def)
  note h = header_read [OF rep ne]
  show ?thesis
  proof (cases "hdr s = 0")
    case True
    then show ?thesis using h(1,3) ne by (simp add: Let_def)
  next
    case False
    then have "u64_of_bytes (mem_slice (st_buffer s) (rd s) 8) \<noteq> 0" "hdr s = length (hd ms)"
      using h(2) by (auto split: if_splits)
    then show ?thesis
      using h(1,3) ne False by (simp add: Let_def holds_def head_view_index)
  qed
qed

section \<open>Every step keeps the invariant\<close>

lemma prod_step_inv:
  assumes inv: "system_inv q B T c ms"
  shows "\<exists>pc s ms'. producer_step q (sy_prod c) (sy_storage c) = Inr (pc, s) \<and>
    system_inv q B T
      (c\<lparr>sy_storage := s, sy_prod := pc, sy_sent := sy_sent c @ published (sy_prod c)\<rparr>) ms'"
proof -
  let ?s = "sy_storage c"
  have ok: "unread_ok q B T ?s ms" and p: "prod_inv B T ?s ms (sy_prod c)"
    and cn: "cons_inv q ?s ms (sy_cons c)" and cnt: "counted c (length ms)"
    and fifo: "sy_sent c = sy_rcvd c @ ms"
    using inv by (auto simp: system_inv_def)
  show ?thesis
  proof (cases "sy_prod c")
    case (P_Return b)
    then show ?thesis using inv by (auto simp: system_inv_def published_def counted_def)
  next
    case (P_LoadRead h msg)
    then show ?thesis
      using ok p cn cnt fifo unread_bounds [OF ok]
      by (auto simp: system_inv_def published_def counted_def unread_ok_def)
  next
    case (P_LoadWrite h msg r0)
    then have "prod_inv B T ?s ms (enqueue_decide q h msg r0 (st_write_ix ?s))"
      using p decide_target [OF ok] by auto
    moreover have "enqueue_decide q h msg r0 (st_write_ix ?s) \<noteq> P_Count"
      by (simp add: enqueue_decide_def Let_def)
    ultimately show ?thesis
      using P_LoadWrite ok cn cnt fifo by (auto simp: system_inv_def published_def counted_def)
  next
    case (P_Payload h msg off nx wrap)
    with prod_step_payload [OF ok _ cn] p obtain s' where
      "producer_step q (sy_prod c) ?s = Inr (P_Header h msg off nx wrap, s')"
      "unread_ok q B T s' ms" "prod_inv B T s' ms (P_Header h msg off nx wrap)"
      "cons_inv q s' ms (sy_cons c)" "st_msg_count s' = st_msg_count ?s"
      by metis
    then show ?thesis
      using P_Payload cnt fifo by (auto simp: system_inv_def published_def counted_def)
  next
    case (P_Header h msg off nx wrap)
    with prod_step_header [OF ok _ cn] p obtain pc s' where
      "producer_step q (sy_prod c) ?s = Inr (pc, s')"
      "unread_ok q B T s' ms" "prod_inv B T s' ms pc" "pc \<noteq> P_Count"
      "cons_inv q s' ms (sy_cons c)" "st_msg_count s' = st_msg_count ?s"
      by metis
    then show ?thesis
      using P_Header cnt fifo by (auto simp: system_inv_def published_def counted_def)
  next
    case (P_Sentinel h msg w nx)
    with prod_step_sentinel [OF ok _ cn] p obtain s' where
      "producer_step q (sy_prod c) ?s = Inr (P_Store h msg nx, s')"
      "unread_ok q B T s' ms" "prod_inv B T s' ms (P_Store h msg nx)"
      "cons_inv q s' ms (sy_cons c)" "st_msg_count s' = st_msg_count ?s"
      by metis
    then show ?thesis
      using P_Sentinel cnt fifo by (auto simp: system_inv_def published_def counted_def)
  next
    case (P_Store h msg nx)
    with prod_step_store [OF ok _ cn] p obtain m where
      "published (sy_prod c) = [m]" "unread_ok q B T (?s\<lparr>st_write_ix := nx\<rparr>) (ms @ [m])"
      "cons_inv q (?s\<lparr>st_write_ix := nx\<rparr>) (ms @ [m]) (sy_cons c)"
      by metis
    then show ?thesis
      using P_Store cnt fifo by (auto simp: system_inv_def counted_def intro!: exI [of _ "ms @ [m]"])
  next
    case P_Count
    have "unread_ok q B T (?s\<lparr>st_msg_count := k\<rparr>) ms" for k
      using ok by (simp add: unread_ok_def attached_def buffer_size_def calc_max_message_size_def)
    moreover have "cons_inv q (?s\<lparr>st_msg_count := k\<rparr>) (ms @ []) (sy_cons c)" for k
      using cn by (intro cons_inv_other) auto
    ultimately show ?thesis
      using P_Count cnt fifo by (auto simp: system_inv_def published_def counted_def)
  qed
qed

lemma cons_step_inv:
  assumes inv: "system_inv q B T c ms"
  shows "\<exists>pc s ms'. consumer_step q (sy_cons c) (sy_storage c) = Inr (pc, s) \<and>
    system_inv q B T
      (c\<lparr>sy_storage := s, sy_cons := pc,
         sy_rcvd := sy_rcvd c @ committed q (sy_cons c) (sy_storage c)\<rparr>) ms'"
proof -
  let ?s = "sy_storage c"
  have ok: "unread_ok q B T ?s ms" and p: "prod_inv B T ?s ms (sy_prod c)"
    and cn: "cons_inv q ?s ms (sy_cons c)" and cnt: "counted c (length ms)"
    and fifo: "sy_sent c = sy_rcvd c @ ms"
    using inv by (auto simp: system_inv_def)
  show ?thesis
  proof (cases "sy_cons c")
    case (C_LoadWrite r)
    have "st_read_ix ?s = st_write_ix ?s \<longleftrightarrow> ms = []"
      using ok runs_empty_iff by (fastforce simp: unread_ok_def ring_rep_def u64_eq_iff)
    then show ?thesis
      using C_LoadWrite ok p cn cnt fifo
      by (auto simp: system_inv_def committed_def counted_def view_empty_def MessageView_default_def)
  next
    case (C_Header r)
    with cn cons_step_header [OF ok, of] obtain pc where
      "consumer_step q (sy_cons c) ?s = Inr (pc, ?s)" "cons_inv q ?s ms pc" "pc \<noteq> C_Count"
      by auto
    then show ?thesis
      using C_Header ok p cnt fifo by (auto simp: system_inv_def committed_def counted_def)
  next
    case C_Rewind
    then have "unread_ok q B T (?s\<lparr>st_read_ix := 0\<rparr>) ms \<and> prod_inv B T (?s\<lparr>st_read_ix := 0\<rparr>) ms (sy_prod c)"
      using cons_step_rewind [OF ok p] cn by simp
    then show ?thesis
      using C_Rewind cnt fifo by (auto simp: system_inv_def committed_def counted_def)
  next
    case (C_Store v)
    with cn cons_step_commit [OF ok p, of v] obtain m ms' where
      "ms = m # ms'" "view_bytes q ?s v = Some m"
      "unread_ok q B T (?s\<lparr>st_read_ix := committed_ix v\<rparr>) ms'"
      "prod_inv B T (?s\<lparr>st_read_ix := committed_ix v\<rparr>) ms' (sy_prod c)"
      by auto
    then show ?thesis
      using C_Store cnt fifo
      by (auto simp: system_inv_def committed_def counted_def committed_ix_def intro!: exI [of _ ms'])
  next
    case C_Count
    have "unread_ok q B T (?s\<lparr>st_msg_count := k\<rparr>) ms" for k
      using ok by (simp add: unread_ok_def attached_def buffer_size_def calc_max_message_size_def)
    moreover have "prod_inv B T (?s\<lparr>st_msg_count := k\<rparr>) ms (sy_prod c)" for k
      using p by (cases "sy_prod c") auto
    ultimately show ?thesis
      using C_Count cnt fifo by (auto simp: system_inv_def committed_def counted_def algebra_simps)
  qed (use inv in \<open>auto simp: system_inv_def committed_def counted_def\<close>)
qed

lemma spsc_step_inv:
  assumes "spsc_step q ok c c'" and "\<And>m. ok m \<Longrightarrow> uniform_ok B T m" and "system_inv q B T c ms"
  shows "\<exists>ms'. system_inv q B T c' ms'"
  using assms(1)
proof cases
  case (call_enqueue b h msg m)
  then have "sending B T h msg m"
    using assms(2) by (simp add: sending_def)
  then show ?thesis
    using call_enqueue assms(3) by (auto simp: system_inv_def counted_def intro!: exI [of _ ms])
next
  case (prod_step pc s)
  then show ?thesis using prod_step_inv [OF assms(3)] by fastforce
next
  case (call_begin v)
  then show ?thesis
    using assms(3) by (auto simp: system_inv_def counted_def intro!: exI [of _ ms])
next
  case (call_commit v)
  then show ?thesis
    using assms(3) by (auto simp: system_inv_def counted_def intro!: exI [of _ ms])
next
  case (cons_step pc s)
  then show ?thesis using cons_step_inv [OF assms(3)] by fastforce
qed

lemma spsc_reach_inv:
  assumes "spsc_reach q ok c c'" and "\<And>m. ok m \<Longrightarrow> uniform_ok B T m" and "system_inv q B T c ms"
  shows "\<exists>ms'. system_inv q B T c' ms'"
  using assms(1,3)
proof (induction arbitrary: ms rule: rtranclp_induct)
  case (step c1 c2)
  then show ?case using spsc_step_inv assms(2) by blast
qed blast

lemma spsc_start_inv:
  assumes "SPSCQueue_create loc p (SPSCStorage_new sz buf) = Inr q"
    and "unat sz = 256 + length buf" "unat sz < 2 ^ 63"
  shows "system_inv q (length buf) T (spsc_start (SPSCStorage_new sz buf)) []"
proof -
  have wf: "wf_storage (SPSCStorage_new sz buf)" and "attached q (SPSCStorage_new sz buf)"
    using create_wf [OF assms(1)] assms(2,3) by auto
  then show ?thesis
    using fresh_ring [OF wf]
    by (simp add: system_inv_def unread_ok_def spsc_start_def counted_def queue_rep_def)
qed

lemma spsc_reachable_inv:
  assumes "SPSCQueue_create loc p (SPSCStorage_new sz buf) = Inr q"
    and "unat sz = 256 + length buf" "unat sz < 2 ^ 63"
    and "spsc_reach q (uniform_ok (length buf) T) (spsc_start (SPSCStorage_new sz buf)) c"
  obtains ms where "system_inv q (length buf) T c ms"
  using spsc_reach_inv [OF assms(4) _ spsc_start_inv [OF assms(1-3)]]
  by blast

section \<open>Accesses to the buffer\<close>

text \<open>The bytes of the buffer that a thread's next access writes or reads: an offset and a length.\<close>

fun write_range :: "producer_pc \<Rightarrow> (nat \<times> nat) option" where
  "write_range (P_Payload h msg off nx wrap) = Some (unat off + 8, unat (msg_size msg))"
| "write_range (P_Header h msg off nx wrap) = Some (unat off, 8)"
| "write_range (P_Sentinel h msg w nx) = Some (unat w, 8)"
| "write_range _ = None"

fun read_range :: "consumer_pc \<Rightarrow> (nat \<times> nat) option" where
  "read_range (C_Header r) = Some (unat r, 8)"
| "read_range (C_View v) =
     (if view_empty v then None else Some (unat (view_index v) + 8, unat (view_size v)))"
| "read_range _ = None"

definition byte_range :: "(nat \<times> nat) option \<Rightarrow> nat set" where
  "byte_range ro = (case ro of None \<Rightarrow> {} | Some (off, n) \<Rightarrow> {off ..< off + n})"

lemma byte_range_simps [simp]:
  "byte_range None = {}" "byte_range (Some (off, n)) = {off ..< off + n}"
  by (simp_all add: byte_range_def)

lemma write_range_clear:
  assumes ok: "unread_ok q B T s ms" and inv: "prod_inv B T s ms pc" and "write_range pc = Some (off, n)"
  shows "clear (rd s) (wr s) off n"
proof -
  note b = unread_bounds [OF ok]
  have "clear (rd s) (wr s) (unat off + 8) (unat (msg_size msg)) \<and> clear (rd s) (wr s) (unat off) 8 \<and>
      (\<forall>w. wrap = Some w \<longrightarrow> clear (rd s) (wr s) (unat w) 8)"
    if "sending B T h msg m" "target B T (rd s) (wr s) off nx wrap" for h msg m off nx wrap
    using that target_clear [OF that(2) _ b(5,2,3), of m] payload_is_length
    by (auto simp: sending_def uniform_ok_def)
  with inv assms(3) show ?thesis
    by (cases pc) fastforce+
qed

lemma read_range_unread:
  assumes ok: "unread_ok q B T s ms" and inv: "cons_inv q s ms pc" and clear: "clear (rd s) (wr s) off n"
  shows "byte_range (read_range pc) \<inter> {off ..< off + n} = {}"
proof -
  note b = unread_bounds [OF ok]
  have ring: "ring_rep s ms" using ok by (simp add: unread_ok_def)
  have first: "{rd s ..< rd s + 8} \<inter> {off ..< off + n} = {}" if "ms \<noteq> []"
  proof -
    have "rd s \<noteq> wr s" using ring that runs_empty_iff by (fastforce simp: ring_rep_def)
    then show ?thesis
      using clear dvd8_less_add [OF b(1,2)] by (auto simp: clear_def split: if_splits)
  qed
  have rest: "{rd s + 8 ..< rd s + 8 + length (hd ms)} \<inter> {off ..< off + n} = {}"
    if "ms \<noteq> []" "hdr s \<noteq> 0"
  proof -
    obtain m ms' where ms: "ms = m # ms'" using \<open>ms \<noteq> []\<close> by (cases ms) auto
    have "rd s + 8 + length m \<le> wr s" if "rd s \<le> wr s"
      using commit_moves [of s m ms'] ring \<open>hdr s \<noteq> 0\<close> that ms msg_space_bounds [of m]
      by (auto simp: moves_def)
    then show ?thesis
      using clear ms by (auto simp: clear_def split: if_splits)
  qed
  have "unat (view_size v) = length (hd ms)" "view_index v = st_read_ix s" if "holds q s ms v" for v
  proof -
    have "word_of_nat (length (hd ms)) = u64_of_bytes (mem_slice (st_buffer s) (rd s) 8)"
      "hdr s = length (hd ms)"
      using that header_read(2,3) [OF ring] by (auto simp: holds_def split: if_splits)
    then show "unat (view_size v) = length (hd ms)" "view_index v = st_read_ix s"
      using that by (auto simp: holds_def head_view_index MessageView_new_def header_at_def)
  qed
  with inv first rest show ?thesis
    by (cases pc) (auto simp: holds_def)
qed

section \<open>Schedules\<close>

text \<open>A given interleaving, executed: the next thread's action, or a call the client makes.\<close>

datatype spsc_action = Call heap Message | Prod | Begin | Commit | Cons

fun spsc_act ::
    "SPSCQueue \<Rightarrow> (byte list \<Rightarrow> bool) \<Rightarrow> spsc_action \<Rightarrow> spsc_system \<Rightarrow> spsc_system option" where
  "spsc_act q ok (Call h msg) c =
     (case (sy_prod c, load_heap h (msg_payload msg) (unat (msg_size msg))) of
        (P_Return _, Some m) \<Rightarrow> if ok m then Some (c\<lparr>sy_prod := P_LoadRead h msg\<rparr>) else None
      | _ \<Rightarrow> None)"
| "spsc_act q ok Prod c =
     (case producer_step q (sy_prod c) (sy_storage c) of
        Inl _ \<Rightarrow> None
      | Inr (pc, s) \<Rightarrow>
          Some (c\<lparr>sy_storage := s, sy_prod := pc, sy_sent := sy_sent c @ published (sy_prod c)\<rparr>))"
| "spsc_act q ok Begin c =
     (case sy_cons c of
        C_Idle \<Rightarrow> Some (c\<lparr>sy_cons := C_LoadRead\<rparr>)
      | C_View _ \<Rightarrow> Some (c\<lparr>sy_cons := C_LoadRead\<rparr>)
      | _ \<Rightarrow> None)"
| "spsc_act q ok Commit c =
     (case sy_cons c of
        C_View v \<Rightarrow> if view_empty v then None else Some (c\<lparr>sy_cons := C_Store v\<rparr>)
      | _ \<Rightarrow> None)"
| "spsc_act q ok Cons c =
     (case consumer_step q (sy_cons c) (sy_storage c) of
        Inl _ \<Rightarrow> None
      | Inr (pc, s) \<Rightarrow>
          Some (c\<lparr>sy_storage := s, sy_cons := pc,
                  sy_rcvd := sy_rcvd c @ committed q (sy_cons c) (sy_storage c)\<rparr>))"

fun spsc_run ::
    "SPSCQueue \<Rightarrow> (byte list \<Rightarrow> bool) \<Rightarrow> spsc_action list \<Rightarrow> spsc_system \<Rightarrow> spsc_system option" where
  "spsc_run q ok [] c = Some c"
| "spsc_run q ok (a # as) c =
     (case spsc_act q ok a c of None \<Rightarrow> None | Some c' \<Rightarrow> spsc_run q ok as c')"

lemma spsc_act_step: "spsc_act q ok a c = Some c' \<Longrightarrow> spsc_step q ok c c'"
  by (cases a) (auto simp: payload_is_def intro: spsc_step.intros
      split: producer_pc.splits consumer_pc.splits option.splits sum.splits if_splits)

lemma spsc_run_reach: "spsc_run q ok as c = Some c' \<Longrightarrow> spsc_reach q ok c c'"
  by (induction as arbitrary: c)
    (auto split: option.splits dest: spsc_act_step intro: converse_rtranclp_into_rtranclp)

text \<open>
  A message of three bytes is published and, before it is counted, read and committed.
\<close>

definition early_reader :: "spsc_action list" where
  "early_reader =
     Call [8192 \<mapsto> [1, 2, 3]] (Message_borrows 8192 3) # replicate 5 Prod @
     Begin # replicate 3 Cons @ Commit # replicate 2 Cons"

lemma early_reader_run:
  "map_option (\<lambda>c. (sy_prod c = P_Count, sy_cons c = C_Idle, sy_sent c, sy_rcvd c,
      queue_size (sy_storage c), is_empty (sy_storage c)))
     (spsc_run demo_queue (uniform_ok 64 16) early_reader (spsc_start demo_storage)) =
   Some (True, True, [[1, 2, 3]], [[1, 2, 3]], - 1, True)"
  by code_simp

definition early_reader_end :: spsc_system where
  "early_reader_end =
     the (spsc_run demo_queue (uniform_ok 64 16) early_reader (spsc_start demo_storage))"

lemma early_reader_reach:
  "spsc_reach demo_queue (uniform_ok 64 16) (spsc_start demo_storage) early_reader_end"
  using early_reader_run by (intro spsc_run_reach) (auto simp: early_reader_end_def)

lemma early_reader_end:
  "sy_prod early_reader_end = P_Count" "sy_cons early_reader_end = C_Idle"
  "sy_sent early_reader_end = [[1, 2, 3]]" "sy_rcvd early_reader_end = [[1, 2, 3]]"
  "queue_size (sy_storage early_reader_end) = - 1" "is_empty (sy_storage early_reader_end)"
  using early_reader_run by (auto simp: early_reader_end_def)

section \<open>Properties\<close>

text \<open>
  C2: first in, first out under every interleaving. One producer and one consumer work on a queue
  created over fresh storage, with messages that take equal space; however their accesses to the
  shared storage interleave, what has been published is what has been received followed by what is
  still unread, and the view a consumer holds shows the oldest unread message until it is committed.
\<close>

theorem spsc_concurrent_fifo:
  assumes "SPSCQueue_create loc p (SPSCStorage_new sz buf) = Inr q"
    and "unat sz = 256 + length buf" and "unat sz < 2 ^ 63"
    and "spsc_reach q (uniform_ok (length buf) T) (spsc_start (SPSCStorage_new sz buf)) c"
  shows "\<exists>unread. sy_sent c = sy_rcvd c @ unread \<and> ring_rep (sy_storage c) unread \<and>
    (\<forall>v. sy_cons c = C_View v \<and> \<not> view_empty v \<longrightarrow>
       unread \<noteq> [] \<and> view_bytes q (sy_storage c) v = Some (hd unread))"
proof -
  obtain ms where inv: "system_inv q (length buf) T c ms"
    using spsc_reachable_inv [OF assms] .
  then have ok: "unread_ok q (length buf) T (sy_storage c) ms"
    and prod: "prod_inv (length buf) T (sy_storage c) ms (sy_prod c)"
    by (simp_all add: system_inv_def)
  have "ms \<noteq> [] \<and> view_bytes q (sy_storage c) v = Some (hd ms)"
    if "sy_cons c = C_View v \<and> \<not> view_empty v" for v
    using that inv cons_step_commit [OF ok prod, of v] by (auto simp: system_inv_def)
  with inv show ?thesis
    by (auto simp: system_inv_def unread_ok_def)
qed

theorem spsc_concurrent_fifo_witness:
  "\<exists>unread. [[1, 2, 3]] = [[1, 2, 3]] @ unread \<and> ring_rep (sy_storage early_reader_end) unread"
  using spsc_concurrent_fifo [OF demo_create, of 16 early_reader_end] early_reader_reach
  by (auto simp: early_reader_end demo_storage_def)

text \<open>
  C5: no thread ever faults, and there is no data race. In every state the two threads can reach
  together, the next access of each stays inside the buffer, and the bytes the producer is about to
  write are disjoint from the bytes the consumer may read.
\<close>

theorem spsc_concurrent_safe:
  assumes "SPSCQueue_create loc p (SPSCStorage_new sz buf) = Inr q"
    and "unat sz = 256 + length buf" and "unat sz < 2 ^ 63"
    and "spsc_reach q (uniform_ok (length buf) T) (spsc_start (SPSCStorage_new sz buf)) c"
  shows "producer_step q (sy_prod c) (sy_storage c) \<noteq> Inl f \<and>
    consumer_step q (sy_cons c) (sy_storage c) \<noteq> Inl f \<and>
    byte_range (read_range (sy_cons c)) \<inter> byte_range (write_range (sy_prod c)) = {}"
proof -
  obtain ms where inv: "system_inv q (length buf) T c ms"
    using spsc_reachable_inv [OF assms] .
  then have ok: "unread_ok q (length buf) T (sy_storage c) ms"
    and prod: "prod_inv (length buf) T (sy_storage c) ms (sy_prod c)"
    and cons: "cons_inv q (sy_storage c) ms (sy_cons c)"
    by (simp_all add: system_inv_def)
  have "byte_range (read_range (sy_cons c)) \<inter> byte_range (write_range (sy_prod c)) = {}"
  proof (cases "write_range (sy_prod c)")
    case (Some r)
    obtain off n where "r = (off, n)" by (cases r)
    with Some show ?thesis
      using read_range_unread [OF ok cons write_range_clear [OF ok prod]] by simp
  qed simp
  then show ?thesis
    using prod_step_inv [OF inv] cons_step_inv [OF inv] by auto
qed

theorem spsc_concurrent_safe_witness:
  "producer_step demo_queue P_Count (sy_storage early_reader_end) \<noteq> Inl OutOfBounds"
  using spsc_concurrent_safe [OF demo_create, of 16 early_reader_end OutOfBounds] early_reader_reach
  by (simp add: early_reader_end demo_storage_def)

text \<open>
  C16: what \<^verbatim>\<open>size()\<close> returns while the peer works. Between two calls of the producer it is at least
  the number of unread messages, as its comment says. Between two calls of the consumer it is at
  most that number, unless the queue is empty and its last message, already received, is not yet
  counted by the producer: then it is the largest 64-bit number.
\<close>

theorem spsc_concurrent_size:
  assumes "SPSCQueue_create loc p (SPSCStorage_new sz buf) = Inr q"
    and "unat sz = 256 + length buf" and "unat sz < 2 ^ 63"
    and "spsc_reach q (uniform_ok (length buf) T) (spsc_start (SPSCStorage_new sz buf)) c"
  shows "\<exists>unread. sy_sent c = sy_rcvd c @ unread \<and>
    (\<forall>b. sy_prod c = P_Return b \<longrightarrow> length unread \<le> unat (queue_size (sy_storage c))) \<and>
    (sy_cons c = C_Idle \<or> (\<exists>v. sy_cons c = C_View v) \<longrightarrow>
       (if unread = [] \<and> sy_prod c = P_Count then queue_size (sy_storage c) = - 1
        else unat (queue_size (sy_storage c)) \<le> length unread))"
proof -
  obtain ms where inv: "system_inv q (length buf) T c ms"
    using spsc_reachable_inv [OF assms] .
  have "length ms \<le> 2 * length buf" and "length buf < 2 ^ 63 - 256"
    using inv assms(2,3) runs_length [of "st_buffer (sy_storage c)" "rd (sy_storage c)" "wr (sy_storage c)" ms]
    by (auto simp: system_inv_def unread_ok_def ring_rep_def)
  then have n: "unat (word_of_nat (length ms) :: u64) = length ms"
    "length ms + 1 < 2 ^ 64"
    by (simp_all add: unat_word_of_nat_u64)
  have cnt: "queue_size (sy_storage c) + (if sy_prod c = P_Count then 1 else 0) =
     word_of_nat (length ms) + (if sy_cons c = C_Count then 1 else 0)"
    using inv by (simp add: system_inv_def counted_def queue_size_def)
  have "length ms \<le> unat (queue_size (sy_storage c))" if "sy_prod c = P_Return b" for b
    using cnt that n by (simp add: unat_add_u64 split: if_splits)
  moreover have "if ms = [] \<and> sy_prod c = P_Count then queue_size (sy_storage c) = - 1
      else unat (queue_size (sy_storage c)) \<le> length ms" if "sy_cons c \<noteq> C_Count"
  proof (cases "sy_prod c = P_Count")
    case True
    then have "queue_size (sy_storage c) = word_of_nat (length ms) - 1"
      using cnt that by (simp add: eq_diff_eq)
    then show ?thesis
      using True n by (cases ms) (auto simp: unat_word_of_nat_u64)
  qed (use cnt that n in simp)
  ultimately show ?thesis
    using inv by (auto simp: system_inv_def)
qed

theorem spsc_concurrent_size_witness: "queue_size (sy_storage early_reader_end) = - 1"
  using spsc_concurrent_size [OF demo_create, of 16 early_reader_end] early_reader_reach
  by (simp add: early_reader_end demo_storage_def)



end
