(* ===== verification/Ring_Buffers.thy ===== *)
theory Ring_Buffers
  imports Ipc_Prelude Fifo_Channel Spin_Lock
begin

text \<open>
  \<^verbatim>\<open>examples/SPSC.cpp\<close>: five ring buffers for fixed-size elements that keep one slot free. The first
  two differ only in the alignment of their indices; the next two cache the peer's index; the last
  one takes a mutex. All are shown to behave as a bounded queue of one element less than their
  capacity. Calls run one after the other here; a caching buffer may then be behind its peer only
  until the next refresh.
\<close>

section \<open>Slots of a ring\<close>

definition nxt :: "nat \<Rightarrow> nat \<Rightarrow> nat" where
  "nxt n i = (if Suc i = n then 0 else Suc i)"

text \<open>The slots from the read index up to the write index, around the end of the ring.\<close>

definition slots :: "nat \<Rightarrow> nat \<Rightarrow> nat \<Rightarrow> nat list" where
  "slots n r w = (if r \<le> w then [r..<w] else [r..<n] @ [0..<w])"

definition ring_contents :: "'a list \<Rightarrow> nat \<Rightarrow> nat \<Rightarrow> 'a list" where
  "ring_contents d r w = map (\<lambda>i. d ! i) (slots (length d) r w)"

lemma nxt_less: "i < n \<Longrightarrow> nxt n i < n"
  by (auto simp: nxt_def)

lemma nxt_eq: "Suc i = n \<Longrightarrow> nxt n i = 0" "Suc i \<noteq> n \<Longrightarrow> nxt n i = Suc i"
  by (simp_all add: nxt_def)

lemma slots_less: "r < n \<Longrightarrow> w < n \<Longrightarrow> i \<in> set (slots n r w) \<Longrightarrow> i < n"
  by (auto simp: slots_def split: if_splits)

lemma slots_end: "w \<notin> set (slots n r w)"
  by (auto simp: slots_def)

lemma slots_Nil_iff: "r < n \<Longrightarrow> slots n r w = [] \<longleftrightarrow> r = w"
  by (auto simp: slots_def)

lemma slots_push:
  assumes "r < n" "w < n" "nxt n w \<noteq> r"
  shows "slots n r (nxt n w) = slots n r w @ [w]"
  using assms by (auto simp: slots_def nxt_def upt_Suc_append split: if_splits)

lemma slots_pop:
  assumes "r < n" "w < n" "r \<noteq> w"
  shows "slots n r w = r # slots n (nxt n r) w"
  using assms by (auto simp: slots_def nxt_def upt_rec [of r])

text \<open>The ring is full when it holds one element less than it has slots.\<close>

lemma slots_full: "r < n \<Longrightarrow> w < n \<Longrightarrow> length (slots n r w) < n - 1 \<longleftrightarrow> nxt n w \<noteq> r"
  by (auto simp: slots_def nxt_def)

lemma ring_contents_push:
  assumes "r < length d" "w < length d" "nxt (length d) w \<noteq> r"
  shows "ring_contents (d[w := v]) r (nxt (length d) w) = ring_contents d r w @ [v]"
  using assms slots_end [of w "length d" r]
  by (auto simp: ring_contents_def slots_push nth_list_update)

lemma ring_contents_pop:
  assumes "r < length d" "w < length d" "r \<noteq> w"
  shows "ring_contents d r w = d ! r # ring_contents d (nxt (length d) r) w"
  using assms by (simp add: ring_contents_def slots_pop)

lemma ring_contents_Nil_iff: "r < length d \<Longrightarrow> ring_contents d r w = [] \<longleftrightarrow> r = w"
  by (simp add: ring_contents_def slots_Nil_iff)

text \<open>Two indices of a ring \<open>d\<close> that represent the elements \<open>ms\<close>, and the two steps.\<close>

definition ring_holds :: "'a list \<Rightarrow> nat \<Rightarrow> nat \<Rightarrow> 'a list \<Rightarrow> bool" where
  "ring_holds d r w ms \<longleftrightarrow> r < length d \<and> w < length d \<and> ms = ring_contents d r w"

lemma ring_holds_fresh: "0 < length d \<Longrightarrow> ring_holds d 0 0 []"
  by (simp add: ring_holds_def ring_contents_def slots_def)

lemma ring_holds_space:
  "ring_holds d r w ms \<Longrightarrow> length ms < length d - 1 \<longleftrightarrow> nxt (length d) w \<noteq> r"
  using slots_full [of r "length d" w] by (simp add: ring_holds_def ring_contents_def)

lemma ring_holds_push:
  "ring_holds d r w ms \<Longrightarrow> nxt (length d) w \<noteq> r \<Longrightarrow>
     ring_holds (d[w := v]) r (nxt (length d) w) (ms @ [v])"
  by (simp add: ring_holds_def nxt_less ring_contents_push)

lemma ring_holds_pop:
  "ring_holds d r w ms \<Longrightarrow> r \<noteq> w \<Longrightarrow>
     \<exists>ms'. ms = d ! r # ms' \<and> ring_holds d (nxt (length d) r) w ms'"
  by (simp add: ring_holds_def nxt_less ring_contents_pop)

lemma ring_holds_empty: "ring_holds d r w ms \<Longrightarrow> r = w \<longleftrightarrow> ms = []"
  by (auto simp: ring_holds_def ring_contents_Nil_iff)

text \<open>Advancing an index in machine arithmetic.\<close>

definition advance :: "'w::len word \<Rightarrow> nat \<Rightarrow> 'w word" where
  "advance i n = (if unat (i + 1) = n then 0 else i + 1)"

lemma unat_advance:
  fixes i :: "'w::len word"
  assumes "unat i < n" "n < 2 ^ LENGTH('w)"
  shows "unat (advance i n) = nxt n (unat i)"
proof -
  have "unat (i + 1) = Suc (unat i)"
    using assms by (simp add: unat_word_ariths)
  then show ?thesis by (simp add: advance_def nxt_def)
qed

section \<open>The buffers\<close>

text \<open>An index outside of the array is an out-of-bounds access.\<close>

definition slot_write :: "'a list \<Rightarrow> nat \<Rightarrow> 'a \<Rightarrow> 'a list exec" where
  "slot_write d i v = (if i < length d then Inr (d[i := v]) else Inl OutOfBounds)"

definition slot_read :: "'a list \<Rightarrow> nat \<Rightarrow> 'a exec" where
  "slot_read d i = (if i < length d then Inr (d ! i) else Inl OutOfBounds)"

record ringbuffer0 =
  r0_data :: "u32 list"
  r0_readIdx :: u32
  r0_writeIdx :: u32

definition ringbuffer0_new :: "u32 \<Rightarrow> ringbuffer0" where
  "ringbuffer0_new capacity =
     \<lparr>r0_data = replicate (unat capacity) 0, r0_readIdx = 0, r0_writeIdx = 0\<rparr>"

definition ringbuffer0_push :: "u32 \<Rightarrow> ringbuffer0 \<Rightarrow> (bool \<times> ringbuffer0) exec" where
  "ringbuffer0_push val q =
     (let writeIdx = r0_writeIdx q;
          nextWriteIdx = advance writeIdx (length (r0_data q)) in
      if nextWriteIdx = r0_readIdx q then Inr (False, q)
      else case slot_write (r0_data q) (unat writeIdx) val of
        Inl f \<Rightarrow> Inl f
      | Inr d \<Rightarrow> Inr (True, q\<lparr>r0_data := d, r0_writeIdx := nextWriteIdx\<rparr>))"

definition ringbuffer0_pop :: "ringbuffer0 \<Rightarrow> (u32 option \<times> ringbuffer0) exec" where
  "ringbuffer0_pop q =
     (let readIdx = r0_readIdx q in
      if readIdx = r0_writeIdx q then Inr (None, q)
      else case slot_read (r0_data q) (unat readIdx) of
        Inl f \<Rightarrow> Inl f
      | Inr val \<Rightarrow>
          (let nextReadIdx = advance readIdx (length (r0_data q)) in
           Inr (Some val, q\<lparr>r0_readIdx := nextReadIdx\<rparr>)))"

record ringbuffer1 =
  r1_data :: "u32 list"
  r1_readIdx :: u32
  r1_writeIdx :: u32

definition ringbuffer1_new :: "u32 \<Rightarrow> ringbuffer1" where
  "ringbuffer1_new capacity =
     \<lparr>r1_data = replicate (unat capacity) 0, r1_readIdx = 0, r1_writeIdx = 0\<rparr>"

definition ringbuffer1_push :: "u32 \<Rightarrow> ringbuffer1 \<Rightarrow> (bool \<times> ringbuffer1) exec" where
  "ringbuffer1_push val q =
     (let writeIdx = r1_writeIdx q;
          nextWriteIdx = advance writeIdx (length (r1_data q)) in
      if nextWriteIdx = r1_readIdx q then Inr (False, q)
      else case slot_write (r1_data q) (unat writeIdx) val of
        Inl f \<Rightarrow> Inl f
      | Inr d \<Rightarrow> Inr (True, q\<lparr>r1_data := d, r1_writeIdx := nextWriteIdx\<rparr>))"

definition ringbuffer1_pop :: "ringbuffer1 \<Rightarrow> (u32 option \<times> ringbuffer1) exec" where
  "ringbuffer1_pop q =
     (let readIdx = r1_readIdx q in
      if readIdx = r1_writeIdx q then Inr (None, q)
      else case slot_read (r1_data q) (unat readIdx) of
        Inl f \<Rightarrow> Inl f
      | Inr val \<Rightarrow>
          (let nextReadIdx = advance readIdx (length (r1_data q)) in
           Inr (Some val, q\<lparr>r1_readIdx := nextReadIdx\<rparr>)))"

record ringbuffer2 =
  r2_data :: "u32 list"
  r2_readIdx :: u32
  r2_writeIdxCached :: u32
  r2_writeIdx :: u32
  r2_readIdxCached :: u32

definition ringbuffer2_new :: "u32 \<Rightarrow> ringbuffer2" where
  "ringbuffer2_new capacity =
     \<lparr>r2_data = replicate (unat capacity) 0, r2_readIdx = 0, r2_writeIdxCached = 0,
      r2_writeIdx = 0, r2_readIdxCached = 0\<rparr>"

definition ringbuffer2_push :: "u32 \<Rightarrow> ringbuffer2 \<Rightarrow> (bool \<times> ringbuffer2) exec" where
  "ringbuffer2_push val q =
     (let writeIdx = r2_writeIdx q;
          nextWriteIdx = advance writeIdx (length (r2_data q));
          q1 = (if nextWriteIdx = r2_readIdxCached q
                then q\<lparr>r2_readIdxCached := r2_readIdx q\<rparr> else q) in
      if nextWriteIdx = r2_readIdxCached q \<and> nextWriteIdx = r2_readIdxCached q1 then Inr (False, q1)
      else case slot_write (r2_data q1) (unat writeIdx) val of
        Inl f \<Rightarrow> Inl f
      | Inr d \<Rightarrow> Inr (True, q1\<lparr>r2_data := d, r2_writeIdx := nextWriteIdx\<rparr>))"

definition ringbuffer2_pop :: "ringbuffer2 \<Rightarrow> (u32 option \<times> ringbuffer2) exec" where
  "ringbuffer2_pop q =
     (let readIdx = r2_readIdx q;
          q1 = (if readIdx = r2_writeIdxCached q
                then q\<lparr>r2_writeIdxCached := r2_writeIdx q\<rparr> else q) in
      if readIdx = r2_writeIdxCached q \<and> readIdx = r2_writeIdxCached q1 then Inr (None, q1)
      else case slot_read (r2_data q1) (unat readIdx) of
        Inl f \<Rightarrow> Inl f
      | Inr val \<Rightarrow>
          (let nextReadIdx = advance readIdx (length (r2_data q1)) in
           Inr (Some val, q1\<lparr>r2_readIdx := nextReadIdx\<rparr>)))"

text \<open>\<^verbatim>\<open>ringbuffer3\<close> has 64-bit elements and indices and an array that \<^verbatim>\<open>new\<close> leaves uninitialised.\<close>

record ringbuffer3 =
  r3_data :: "u64 list"
  r3_readIdx :: u64
  r3_writeIdxCached :: u64
  r3_writeIdx :: u64
  r3_readIdxCached :: u64
  r3_capacity :: u64

definition ringbuffer3_new :: "u64 list \<Rightarrow> u64 \<Rightarrow> ringbuffer3" where
  "ringbuffer3_new garbage capacity =
     \<lparr>r3_data = garbage, r3_readIdx = 0, r3_writeIdxCached = 0, r3_writeIdx = 0,
      r3_readIdxCached = 0, r3_capacity = capacity\<rparr>"

definition advance_to :: "'w::len word \<Rightarrow> 'w word \<Rightarrow> 'w word" where
  "advance_to i capacity = (if i + 1 = capacity then 0 else i + 1)"

definition ringbuffer3_push :: "u64 \<Rightarrow> ringbuffer3 \<Rightarrow> (bool \<times> ringbuffer3) exec" where
  "ringbuffer3_push val q =
     (let writeIdx = r3_writeIdx q;
          nextWriteIdx = advance_to writeIdx (r3_capacity q);
          q1 = (if nextWriteIdx = r3_readIdxCached q
                then q\<lparr>r3_readIdxCached := r3_readIdx q\<rparr> else q) in
      if nextWriteIdx = r3_readIdxCached q \<and> nextWriteIdx = r3_readIdxCached q1 then Inr (False, q1)
      else case slot_write (r3_data q1) (unat writeIdx) val of
        Inl f \<Rightarrow> Inl f
      | Inr d \<Rightarrow> Inr (True, q1\<lparr>r3_data := d, r3_writeIdx := nextWriteIdx\<rparr>))"

definition ringbuffer3_pop :: "ringbuffer3 \<Rightarrow> (u64 option \<times> ringbuffer3) exec" where
  "ringbuffer3_pop q =
     (let readIdx = r3_readIdx q;
          q1 = (if readIdx = r3_writeIdxCached q
                then q\<lparr>r3_writeIdxCached := r3_writeIdx q\<rparr> else q) in
      if readIdx = r3_writeIdxCached q \<and> readIdx = r3_writeIdxCached q1 then Inr (None, q1)
      else case slot_read (r3_data q1) (unat readIdx) of
        Inl f \<Rightarrow> Inl f
      | Inr val \<Rightarrow>
          (let nextReadIdx = advance_to readIdx (r3_capacity q1) in
           Inr (Some val, q1\<lparr>r3_readIdx := nextReadIdx\<rparr>)))"

text \<open>
  \<^verbatim>\<open>ringbuffer4\<close> guards plain indices by a mutex: \<^verbatim>\<open>push\<close> spins on \<^verbatim>\<open>try_lock\<close>, \<^verbatim>\<open>pop\<close> uses a
  guard. A call whose mutex is held by its own thread does not return (\<open>None\<close>).
\<close>

record ringbuffer4 =
  r4_readIdx :: u32
  r4_writeIdx :: u32
  r4_capacity :: u32
  r4_data :: "u32 list"
  r4_mutex :: mutex_lock

definition ringbuffer4_new :: "u32 list \<Rightarrow> u32 \<Rightarrow> ringbuffer4" where
  "ringbuffer4_new garbage capacity =
     \<lparr>r4_readIdx = 0, r4_writeIdx = 0, r4_capacity = capacity, r4_data = garbage,
      r4_mutex = \<lparr>mtx_owned = False\<rparr>\<rparr>"

definition ringbuffer4_push_locked :: "u32 \<Rightarrow> ringbuffer4 \<Rightarrow> (bool \<times> ringbuffer4) exec" where
  "ringbuffer4_push_locked val q =
     (let nextWriteIdx = advance_to (r4_writeIdx q) (r4_capacity q) in
      if nextWriteIdx = r4_readIdx q
      then Inr (False, q\<lparr>r4_mutex := mutex_unlock (r4_mutex q)\<rparr>)
      else case slot_write (r4_data q) (unat (r4_writeIdx q)) val of
        Inl f \<Rightarrow> Inl f
      | Inr d \<Rightarrow> Inr (True, q\<lparr>r4_data := d, r4_writeIdx := nextWriteIdx,
                             r4_mutex := mutex_unlock (r4_mutex q)\<rparr>))"

definition ringbuffer4_push :: "u32 \<Rightarrow> ringbuffer4 \<Rightarrow> (bool \<times> ringbuffer4) exec option" where
  "ringbuffer4_push val q =
     (case mutex_attempt (r4_mutex q) of
        (False, _) \<Rightarrow> None
      | (True, m) \<Rightarrow> Some (ringbuffer4_push_locked val (q\<lparr>r4_mutex := m\<rparr>)))"

definition ringbuffer4_pop_locked :: "ringbuffer4 \<Rightarrow> (u32 option \<times> ringbuffer4) exec" where
  "ringbuffer4_pop_locked q =
     (if r4_readIdx q = r4_writeIdx q
      then Inr (None, q\<lparr>r4_mutex := mutex_unlock (r4_mutex q)\<rparr>)
      else case slot_read (r4_data q) (unat (r4_readIdx q)) of
        Inl f \<Rightarrow> Inl f
      | Inr val \<Rightarrow>
          (let nextReadIdx = advance_to (r4_readIdx q) (r4_capacity q) in
           Inr (Some val, q\<lparr>r4_readIdx := nextReadIdx, r4_mutex := mutex_unlock (r4_mutex q)\<rparr>)))"

definition ringbuffer4_pop :: "ringbuffer4 \<Rightarrow> (u32 option \<times> ringbuffer4) exec option" where
  "ringbuffer4_pop q =
     (case mutex_attempt (r4_mutex q) of
        (False, _) \<Rightarrow> None
      | (True, m) \<Rightarrow> Some (ringbuffer4_pop_locked (q\<lparr>r4_mutex := m\<rparr>)))"

section \<open>Every buffer is a bounded queue\<close>

text \<open>A client that retries sees the result of a call that returned.\<close>

definition returned :: "'r \<Rightarrow> 's \<Rightarrow> ('r \<times> 's) exec \<Rightarrow> 'r \<times> 's" where
  "returned r s x = (case x of Inl _ \<Rightarrow> (r, s) | Inr y \<Rightarrow> y)"

lemma returned_Inr [simp]: "returned r s (Inr y) = y"
  by (simp add: returned_def)

lemma advance_eq_iff:
  fixes i j :: "'w::len word"
  assumes "unat i < n" "n < 2 ^ LENGTH('w)"
  shows "advance i n = j \<longleftrightarrow> nxt n (unat i) = unat j"
  using unat_advance [OF assms] by (metis word_unat_eq_iff)

lemma advance_to_unat: "advance_to i capacity = advance i (unat capacity)"
  by (simp add: advance_to_def advance_def word_unat_eq_iff)

lemma bq_push_cases:
  assumes "bq_push cap m ms = (b, ms')"
  obtains (accept) "length ms < cap" "b" "ms' = ms @ [m]" | (refuse) "\<not> length ms < cap" "\<not> b" "ms' = ms"
  using assms by (auto simp: bq_push_def split: if_splits)

lemma bq_pop_cases:
  assumes "bq_pop ms = (r, ms')"
  obtains (some) m where "ms = m # ms'" "r = Some m" | (none) "ms = []" "ms' = []" "r = None"
  using assms by (cases ms) auto

definition rb0_rep :: "nat \<Rightarrow> ringbuffer0 \<Rightarrow> u32 list \<Rightarrow> bool" where
  "rb0_rep n q ms \<longleftrightarrow> length (r0_data q) = n \<and> n < 2 ^ 32 \<and>
     ring_holds (r0_data q) (unat (r0_readIdx q)) (unat (r0_writeIdx q)) ms"

lemma rb0_push:
  assumes "rb0_rep n q ms" and "bq_push (n - 1) v ms = (b, ms')"
  shows "\<exists>q'. ringbuffer0_push v q = Inr (b, q') \<and> rb0_rep n q' ms'"
proof -
  have h: "ring_holds (r0_data q) (unat (r0_readIdx q)) (unat (r0_writeIdx q)) ms"
    and n: "length (r0_data q) = n" "n < 2 ^ LENGTH(32)" and w: "unat (r0_writeIdx q) < n"
    using assms(1) by (auto simp: rb0_rep_def ring_holds_def)
  note adv = unat_advance [OF w n(2)] advance_eq_iff [OF w n(2)] ring_holds_space [OF h, unfolded n(1)]
  show ?thesis
    using assms(2)
  proof (cases rule: bq_push_cases)
    case accept
    then show ?thesis
      using adv w n ring_holds_push [OF h, of v]
      by (simp add: ringbuffer0_push_def slot_write_def rb0_rep_def Let_def)
  next
    case refuse
    then show ?thesis using adv n assms(1) by (simp add: ringbuffer0_push_def Let_def)
  qed
qed

lemma rb0_pop:
  assumes "rb0_rep n q ms" and "bq_pop ms = (x, ms')"
  shows "\<exists>q'. ringbuffer0_pop q = Inr (x, q') \<and> rb0_rep n q' ms'"
proof -
  have h: "ring_holds (r0_data q) (unat (r0_readIdx q)) (unat (r0_writeIdx q)) ms"
    and n: "length (r0_data q) = n" "n < 2 ^ LENGTH(32)" and r: "unat (r0_readIdx q) < n"
    using assms(1) by (auto simp: rb0_rep_def ring_holds_def)
  note adv = unat_advance [OF r n(2)] ring_holds_empty [OF h]
  show ?thesis
    using assms(2)
  proof (cases rule: bq_pop_cases)
    case (some m)
    then show ?thesis
      using adv r n ring_holds_pop [OF h]
      by (auto simp: ringbuffer0_pop_def slot_read_def rb0_rep_def Let_def word_unat_eq_iff)
  next
    case none
    then show ?thesis using adv assms(1) by (simp add: ringbuffer0_pop_def Let_def word_unat_eq_iff)
  qed
qed

text \<open>The second buffer has the same operations on a record with other field names.\<close>

definition rb1_as_0 :: "ringbuffer1 \<Rightarrow> ringbuffer0" where
  "rb1_as_0 q = \<lparr>r0_data = r1_data q, r0_readIdx = r1_readIdx q, r0_writeIdx = r1_writeIdx q\<rparr>"

lemma rb1_push_as_0:
  "ringbuffer0_push v (rb1_as_0 q) = map_sum id (map_prod id rb1_as_0) (ringbuffer1_push v q)"
  by (simp add: ringbuffer0_push_def ringbuffer1_push_def rb1_as_0_def Let_def slot_write_def)

lemma rb1_pop_as_0:
  "ringbuffer0_pop (rb1_as_0 q) = map_sum id (map_prod id rb1_as_0) (ringbuffer1_pop q)"
  by (simp add: ringbuffer0_pop_def ringbuffer1_pop_def rb1_as_0_def Let_def slot_read_def)

lemma map_sum_Inr:
  "map_sum id (map_prod id f) x = Inr (b, y) \<Longrightarrow> \<exists>z. x = Inr (b, z) \<and> f z = y"
  by (cases x) auto

definition rb1_rep :: "nat \<Rightarrow> ringbuffer1 \<Rightarrow> u32 list \<Rightarrow> bool" where
  "rb1_rep n q ms \<longleftrightarrow> rb0_rep n (rb1_as_0 q) ms"

lemma rb1_push:
  assumes "rb1_rep n q ms" and "bq_push (n - 1) v ms = (b, ms')"
  shows "\<exists>q'. ringbuffer1_push v q = Inr (b, q') \<and> rb1_rep n q' ms'"
  using rb0_push [OF assms(1) [unfolded rb1_rep_def] assms(2)]
  by (auto simp: rb1_push_as_0 rb1_rep_def dest!: map_sum_Inr)

lemma rb1_pop:
  assumes "rb1_rep n q ms" and "bq_pop ms = (x, ms')"
  shows "\<exists>q'. ringbuffer1_pop q = Inr (x, q') \<and> rb1_rep n q' ms'"
  using rb0_pop [OF assms(1) [unfolded rb1_rep_def] assms(2)]
  by (auto simp: rb1_pop_as_0 rb1_rep_def dest!: map_sum_Inr)

text \<open>
  Cached indices: the reader is somewhere between the writer's copy of its index and the write
  index, and the reader's copy of the write index is somewhere between the two indices.
\<close>

definition cached_ok :: "nat \<Rightarrow> nat \<Rightarrow> nat \<Rightarrow> nat \<Rightarrow> nat \<Rightarrow> bool" where
  "cached_ok n r w rc wc \<longleftrightarrow> rc < n \<and> wc < n \<and> r \<in> insert w (set (slots n rc w)) \<and>
     wc \<in> insert w (set (slots n r w))"

lemma slots_nxt:
  "a < n \<Longrightarrow> w < n \<Longrightarrow> i \<in> set (slots n a w) \<Longrightarrow> nxt n i \<in> insert w (set (slots n a w))"
  by (auto simp: slots_def nxt_def split: if_splits)

lemma cached_room:
  assumes "cached_ok n r w rc wc" "w < n" "nxt n w \<noteq> rc"
  shows "nxt n w \<noteq> r"
proof -
  have "r \<in> set (slots n rc (nxt n w))"
    using assms slots_push [of rc n w] by (auto simp: cached_ok_def)
  then show ?thesis using slots_end [of "nxt n w" n rc] by auto
qed

lemma cached_push:
  "cached_ok n r w rc wc \<Longrightarrow> r < n \<Longrightarrow> w < n \<Longrightarrow> nxt n w \<noteq> rc \<Longrightarrow> cached_ok n r (nxt n w) rc wc"
  using cached_room [of n r w rc wc] by (auto simp: cached_ok_def slots_push)

lemma cached_refresh_read: "cached_ok n r w rc wc \<Longrightarrow> r < n \<Longrightarrow> w < n \<Longrightarrow> cached_ok n r w r wc"
  using slots_pop [of r n w] by (cases "r = w") (auto simp: cached_ok_def)

lemma cached_nonempty: "cached_ok n r w rc wc \<Longrightarrow> r \<noteq> wc \<Longrightarrow> r \<noteq> w"
  by (auto simp: cached_ok_def slots_def)

lemma cached_pop:
  assumes "cached_ok n r w rc wc" "r < n" "w < n" "r \<noteq> wc"
  shows "cached_ok n (nxt n r) w rc wc"
  using assms cached_nonempty [OF assms(1,4)] slots_pop [of r n w] slots_nxt [of rc n w r]
  by (auto simp: cached_ok_def)

lemma cached_refresh_write: "cached_ok n r w rc wc \<Longrightarrow> w < n \<Longrightarrow> cached_ok n r w rc w"
  by (simp add: cached_ok_def)

text \<open>One call on a caching ring: refresh the copy when it says full or empty, then decide.\<close>

lemma cached_push_step:
  assumes "ring_holds d r w ms" and "cached_ok (length d) r w rc wc"
    and rc': "rc' = (if nxt (length d) w = rc then r else rc)"
  shows "cached_ok (length d) r w rc' wc" and "length ms < length d - 1 \<longleftrightarrow> nxt (length d) w \<noteq> rc'"
    and "nxt (length d) w \<noteq> rc' \<Longrightarrow> ring_holds (d[w := v]) r (nxt (length d) w) (ms @ [v]) \<and>
      cached_ok (length d) r (nxt (length d) w) rc' wc"
proof -
  have rw: "r < length d" "w < length d" using assms(1) by (simp_all add: ring_holds_def)
  show ok: "cached_ok (length d) r w rc' wc"
    using assms(2) cached_refresh_read [OF assms(2) rw] rc' by simp
  have free: "nxt (length d) w \<noteq> rc' \<longleftrightarrow> nxt (length d) w \<noteq> r"
    using cached_room [OF assms(2) rw(2)] rc' by auto
  then show "length ms < length d - 1 \<longleftrightarrow> nxt (length d) w \<noteq> rc'"
    using ring_holds_space [OF assms(1)] by simp
  show "ring_holds (d[w := v]) r (nxt (length d) w) (ms @ [v]) \<and>
      cached_ok (length d) r (nxt (length d) w) rc' wc" if "nxt (length d) w \<noteq> rc'"
    using that free ring_holds_push [OF assms(1)] cached_push [OF ok rw that] by simp
qed

lemma cached_pop_step:
  assumes "ring_holds d r w ms" and "cached_ok (length d) r w rc wc"
    and wc': "wc' = (if r = wc then w else wc)"
  shows "cached_ok (length d) r w rc wc'" and "ms = [] \<longleftrightarrow> r = wc'"
    and "r \<noteq> wc' \<Longrightarrow> \<exists>ms'. ms = d ! r # ms' \<and> ring_holds d (nxt (length d) r) w ms' \<and>
      cached_ok (length d) (nxt (length d) r) w rc wc'"
proof -
  have rw: "r < length d" "w < length d" using assms(1) by (simp_all add: ring_holds_def)
  show ok: "cached_ok (length d) r w rc wc'"
    using assms(2) cached_refresh_write [OF assms(2) rw(2)] wc' by (cases "r = wc") simp_all
  have empty: "r = wc' \<longleftrightarrow> r = w"
    using cached_nonempty [OF assms(2)] wc' by auto
  then show "ms = [] \<longleftrightarrow> r = wc'" using ring_holds_empty [OF assms(1)] by simp
  show "\<exists>ms'. ms = d ! r # ms' \<and> ring_holds d (nxt (length d) r) w ms' \<and>
      cached_ok (length d) (nxt (length d) r) w rc wc'" if "r \<noteq> wc'"
    using that empty ring_holds_pop [OF assms(1)] cached_pop [OF ok rw that] by simp
qed

definition rb2_rep :: "nat \<Rightarrow> ringbuffer2 \<Rightarrow> u32 list \<Rightarrow> bool" where
  "rb2_rep n q ms \<longleftrightarrow> length (r2_data q) = n \<and> n < 2 ^ 32 \<and>
     ring_holds (r2_data q) (unat (r2_readIdx q)) (unat (r2_writeIdx q)) ms \<and>
     cached_ok n (unat (r2_readIdx q)) (unat (r2_writeIdx q)) (unat (r2_readIdxCached q))
       (unat (r2_writeIdxCached q))"

lemma rb2_push:
  assumes "rb2_rep n q ms" and "bq_push (n - 1) v ms = (b, ms')"
  shows "\<exists>q'. ringbuffer2_push v q = Inr (b, q') \<and> rb2_rep n q' ms'"
proof -
  define nx where "nx = advance (r2_writeIdx q) n"
  define q1 where
    "q1 = (if nx = r2_readIdxCached q then q\<lparr>r2_readIdxCached := r2_readIdx q\<rparr> else q)"
  have h: "ring_holds (r2_data q) (unat (r2_readIdx q)) (unat (r2_writeIdx q)) ms"
    and c: "cached_ok (length (r2_data q)) (unat (r2_readIdx q)) (unat (r2_writeIdx q))
       (unat (r2_readIdxCached q)) (unat (r2_writeIdxCached q))"
    and n: "length (r2_data q) = n" "n < 2 ^ LENGTH(32)" and w: "unat (r2_writeIdx q) < n"
    using assms(1) by (auto simp: rb2_rep_def ring_holds_def)
  have nx: "unat nx = nxt n (unat (r2_writeIdx q))"
    unfolding nx_def by (rule unat_advance [OF w n(2)])
  have same: "r2_data q1 = r2_data q" "r2_readIdx q1 = r2_readIdx q"
    "r2_writeIdx q1 = r2_writeIdx q" "r2_writeIdxCached q1 = r2_writeIdxCached q"
    by (simp_all add: q1_def)
  have rc: "unat (r2_readIdxCached q1) =
      (if nxt (length (r2_data q)) (unat (r2_writeIdx q)) = unat (r2_readIdxCached q)
       then unat (r2_readIdx q) else unat (r2_readIdxCached q))"
    using nx n(1) by (auto simp: q1_def word_unat_eq_iff)
  note step = cached_push_step [OF h c rc, unfolded n(1)]
  have "ringbuffer2_push v q =
      (if nxt n (unat (r2_writeIdx q)) = unat (r2_readIdxCached q1) then Inr (False, q1)
       else Inr (True, q1\<lparr>r2_data := (r2_data q)[unat (r2_writeIdx q) := v], r2_writeIdx := nx\<rparr>))"
    using n(1) w nx
    by (simp add: ringbuffer2_push_def Let_def slot_write_def same word_unat_eq_iff
        flip: nx_def q1_def) (auto simp: q1_def word_unat_eq_iff)
  then show ?thesis
    using assms(2) step h n same nx
    by (cases "length ms < n - 1") (auto simp: rb2_rep_def bq_push_def)
qed

lemma rb2_pop:
  assumes "rb2_rep n q ms" and "bq_pop ms = (x, ms')"
  shows "\<exists>q'. ringbuffer2_pop q = Inr (x, q') \<and> rb2_rep n q' ms'"
proof -
  define q1 where "q1 = (if r2_readIdx q = r2_writeIdxCached q
    then q\<lparr>r2_writeIdxCached := r2_writeIdx q\<rparr> else q)"
  have h: "ring_holds (r2_data q) (unat (r2_readIdx q)) (unat (r2_writeIdx q)) ms"
    and c: "cached_ok (length (r2_data q)) (unat (r2_readIdx q)) (unat (r2_writeIdx q))
       (unat (r2_readIdxCached q)) (unat (r2_writeIdxCached q))"
    and n: "length (r2_data q) = n" "n < 2 ^ LENGTH(32)" and r: "unat (r2_readIdx q) < n"
    using assms(1) by (auto simp: rb2_rep_def ring_holds_def)
  have nx: "unat (advance (r2_readIdx q) n) = nxt n (unat (r2_readIdx q))"
    by (rule unat_advance [OF r n(2)])
  have same: "r2_data q1 = r2_data q" "r2_readIdx q1 = r2_readIdx q"
    "r2_writeIdx q1 = r2_writeIdx q" "r2_readIdxCached q1 = r2_readIdxCached q"
    by (simp_all add: q1_def)
  have wc: "unat (r2_writeIdxCached q1) =
      (if unat (r2_readIdx q) = unat (r2_writeIdxCached q)
       then unat (r2_writeIdx q) else unat (r2_writeIdxCached q))"
    by (auto simp: q1_def word_unat_eq_iff)
  note step = cached_pop_step [OF h c wc, unfolded n(1)]
  have "ringbuffer2_pop q =
      (if unat (r2_readIdx q) = unat (r2_writeIdxCached q1) then Inr (None, q1)
       else Inr (Some (r2_data q ! unat (r2_readIdx q)), q1\<lparr>r2_readIdx := advance (r2_readIdx q) n\<rparr>))"
    using n(1) r
    by (simp add: ringbuffer2_pop_def Let_def slot_read_def same word_unat_eq_iff
        flip: q1_def) (auto simp: q1_def word_unat_eq_iff)
  then show ?thesis
    using assms(2) step h n same nx
    by (cases "ms = []") (auto simp: rb2_rep_def)
qed

definition rb3_rep :: "nat \<Rightarrow> ringbuffer3 \<Rightarrow> u64 list \<Rightarrow> bool" where
  "rb3_rep n q ms \<longleftrightarrow> length (r3_data q) = n \<and> unat (r3_capacity q) = n \<and> n < 2 ^ 64 \<and>
     ring_holds (r3_data q) (unat (r3_readIdx q)) (unat (r3_writeIdx q)) ms \<and>
     cached_ok n (unat (r3_readIdx q)) (unat (r3_writeIdx q)) (unat (r3_readIdxCached q))
       (unat (r3_writeIdxCached q))"

lemma rb3_push:
  assumes "rb3_rep n q ms" and "bq_push (n - 1) v ms = (b, ms')"
  shows "\<exists>q'. ringbuffer3_push v q = Inr (b, q') \<and> rb3_rep n q' ms'"
proof -
  define nx where "nx = advance (r3_writeIdx q) n"
  define q1 where
    "q1 = (if nx = r3_readIdxCached q then q\<lparr>r3_readIdxCached := r3_readIdx q\<rparr> else q)"
  have h: "ring_holds (r3_data q) (unat (r3_readIdx q)) (unat (r3_writeIdx q)) ms"
    and c: "cached_ok (length (r3_data q)) (unat (r3_readIdx q)) (unat (r3_writeIdx q))
       (unat (r3_readIdxCached q)) (unat (r3_writeIdxCached q))"
    and n: "length (r3_data q) = n" "n < 2 ^ LENGTH(64)" and w: "unat (r3_writeIdx q) < n"
    and cap: "unat (r3_capacity q) = n"
    using assms(1) by (auto simp: rb3_rep_def ring_holds_def)
  have nx: "unat nx = nxt n (unat (r3_writeIdx q))"
    unfolding nx_def by (rule unat_advance [OF w n(2)])
  have same: "r3_data q1 = r3_data q" "r3_readIdx q1 = r3_readIdx q"
    "r3_writeIdx q1 = r3_writeIdx q" "r3_writeIdxCached q1 = r3_writeIdxCached q"
    "r3_capacity q1 = r3_capacity q"
    by (simp_all add: q1_def)
  have rc: "unat (r3_readIdxCached q1) =
      (if nxt (length (r3_data q)) (unat (r3_writeIdx q)) = unat (r3_readIdxCached q)
       then unat (r3_readIdx q) else unat (r3_readIdxCached q))"
    using nx n(1) by (auto simp: q1_def word_unat_eq_iff)
  note step = cached_push_step [OF h c rc, unfolded n(1)]
  have "ringbuffer3_push v q =
      (if nxt n (unat (r3_writeIdx q)) = unat (r3_readIdxCached q1) then Inr (False, q1)
       else Inr (True, q1\<lparr>r3_data := (r3_data q)[unat (r3_writeIdx q) := v], r3_writeIdx := nx\<rparr>))"
    using n(1) w nx
    by (simp add: ringbuffer3_push_def Let_def slot_write_def same word_unat_eq_iff advance_to_unat cap
        flip: nx_def q1_def) (auto simp: q1_def word_unat_eq_iff)
  then show ?thesis
    using assms(2) step h n same nx cap
    by (cases "length ms < n - 1") (auto simp: rb3_rep_def bq_push_def)
qed

lemma rb3_pop:
  assumes "rb3_rep n q ms" and "bq_pop ms = (x, ms')"
  shows "\<exists>q'. ringbuffer3_pop q = Inr (x, q') \<and> rb3_rep n q' ms'"
proof -
  define q1 where "q1 = (if r3_readIdx q = r3_writeIdxCached q
    then q\<lparr>r3_writeIdxCached := r3_writeIdx q\<rparr> else q)"
  have h: "ring_holds (r3_data q) (unat (r3_readIdx q)) (unat (r3_writeIdx q)) ms"
    and c: "cached_ok (length (r3_data q)) (unat (r3_readIdx q)) (unat (r3_writeIdx q))
       (unat (r3_readIdxCached q)) (unat (r3_writeIdxCached q))"
    and n: "length (r3_data q) = n" "n < 2 ^ LENGTH(64)" and r: "unat (r3_readIdx q) < n"
    and cap: "unat (r3_capacity q) = n"
    using assms(1) by (auto simp: rb3_rep_def ring_holds_def)
  have nx: "unat (advance (r3_readIdx q) n) = nxt n (unat (r3_readIdx q))"
    by (rule unat_advance [OF r n(2)])
  have same: "r3_data q1 = r3_data q" "r3_readIdx q1 = r3_readIdx q"
    "r3_writeIdx q1 = r3_writeIdx q" "r3_readIdxCached q1 = r3_readIdxCached q"
    "r3_capacity q1 = r3_capacity q"
    by (simp_all add: q1_def)
  have wc: "unat (r3_writeIdxCached q1) =
      (if unat (r3_readIdx q) = unat (r3_writeIdxCached q)
       then unat (r3_writeIdx q) else unat (r3_writeIdxCached q))"
    by (auto simp: q1_def word_unat_eq_iff)
  note step = cached_pop_step [OF h c wc, unfolded n(1)]
  have "ringbuffer3_pop q =
      (if unat (r3_readIdx q) = unat (r3_writeIdxCached q1) then Inr (None, q1)
       else Inr (Some (r3_data q ! unat (r3_readIdx q)), q1\<lparr>r3_readIdx := advance (r3_readIdx q) n\<rparr>))"
    using n(1) r
    by (simp add: ringbuffer3_pop_def Let_def slot_read_def same word_unat_eq_iff advance_to_unat cap
        flip: q1_def) (auto simp: q1_def word_unat_eq_iff)
  then show ?thesis
    using assms(2) step h n same nx cap
    by (cases "ms = []") (auto simp: rb3_rep_def)
qed

definition rb4_rep :: "nat \<Rightarrow> ringbuffer4 \<Rightarrow> u32 list \<Rightarrow> bool" where
  "rb4_rep n q ms \<longleftrightarrow> length (r4_data q) = n \<and> unat (r4_capacity q) = n \<and> n < 2 ^ 32 \<and>
     \<not> mtx_owned (r4_mutex q) \<and>
     ring_holds (r4_data q) (unat (r4_readIdx q)) (unat (r4_writeIdx q)) ms"

lemma rb4_push:
  assumes "rb4_rep n q ms" and "bq_push (n - 1) v ms = (b, ms')"
  shows "\<exists>q'. ringbuffer4_push v q = Some (Inr (b, q')) \<and> rb4_rep n q' ms'"
proof -
  have h: "ring_holds (r4_data q) (unat (r4_readIdx q)) (unat (r4_writeIdx q)) ms"
    and n: "length (r4_data q) = n" "n < 2 ^ LENGTH(32)" and w: "unat (r4_writeIdx q) < n"
    and cap: "unat (r4_capacity q) = n" and free: "\<not> mtx_owned (r4_mutex q)"
    using assms(1) by (auto simp: rb4_rep_def ring_holds_def)
  note adv = unat_advance [OF w n(2)] advance_eq_iff [OF w n(2)] ring_holds_space [OF h, unfolded n(1)]
  note defs = ringbuffer4_push_def ringbuffer4_push_locked_def mutex_attempt_def mutex_unlock_def
    advance_to_unat
  show ?thesis
    using assms(2)
  proof (cases rule: bq_push_cases)
    case accept
    then show ?thesis
      using adv w n cap free ring_holds_push [OF h, of v]
      by (simp add: defs slot_write_def rb4_rep_def Let_def)
  next
    case refuse
    then show ?thesis using adv n cap free h by (simp add: defs Let_def rb4_rep_def)
  qed
qed

lemma rb4_pop:
  assumes "rb4_rep n q ms" and "bq_pop ms = (x, ms')"
  shows "\<exists>q'. ringbuffer4_pop q = Some (Inr (x, q')) \<and> rb4_rep n q' ms'"
proof -
  have h: "ring_holds (r4_data q) (unat (r4_readIdx q)) (unat (r4_writeIdx q)) ms"
    and n: "length (r4_data q) = n" "n < 2 ^ LENGTH(32)" and r: "unat (r4_readIdx q) < n"
    and cap: "unat (r4_capacity q) = n" and free: "\<not> mtx_owned (r4_mutex q)"
    using assms(1) by (auto simp: rb4_rep_def ring_holds_def)
  note adv = unat_advance [OF r n(2)] ring_holds_empty [OF h]
  note defs = ringbuffer4_pop_def ringbuffer4_pop_locked_def mutex_attempt_def mutex_unlock_def
    advance_to_unat
  show ?thesis
    using assms(2)
  proof (cases rule: bq_pop_cases)
    case (some m)
    then show ?thesis
      using adv r n cap free ring_holds_pop [OF h]
      by (auto simp: defs slot_read_def rb4_rep_def Let_def word_unat_eq_iff)
  next
    case none
    then show ?thesis
      using adv free h n cap by (simp add: defs rb4_rep_def word_unat_eq_iff)
  qed
qed

text \<open>The calls as operations of a channel.\<close>

definition rb0_call_push :: "u32 \<Rightarrow> ringbuffer0 \<Rightarrow> bool \<times> ringbuffer0" where
  "rb0_call_push v q = returned False q (ringbuffer0_push v q)"
definition rb0_call_pop :: "ringbuffer0 \<Rightarrow> u32 option \<times> ringbuffer0" where
  "rb0_call_pop q = returned None q (ringbuffer0_pop q)"
definition rb1_call_push :: "u32 \<Rightarrow> ringbuffer1 \<Rightarrow> bool \<times> ringbuffer1" where
  "rb1_call_push v q = returned False q (ringbuffer1_push v q)"
definition rb1_call_pop :: "ringbuffer1 \<Rightarrow> u32 option \<times> ringbuffer1" where
  "rb1_call_pop q = returned None q (ringbuffer1_pop q)"
definition rb2_call_push :: "u32 \<Rightarrow> ringbuffer2 \<Rightarrow> bool \<times> ringbuffer2" where
  "rb2_call_push v q = returned False q (ringbuffer2_push v q)"
definition rb2_call_pop :: "ringbuffer2 \<Rightarrow> u32 option \<times> ringbuffer2" where
  "rb2_call_pop q = returned None q (ringbuffer2_pop q)"
definition rb3_call_push :: "u64 \<Rightarrow> ringbuffer3 \<Rightarrow> bool \<times> ringbuffer3" where
  "rb3_call_push v q = returned False q (ringbuffer3_push v q)"
definition rb3_call_pop :: "ringbuffer3 \<Rightarrow> u64 option \<times> ringbuffer3" where
  "rb3_call_pop q = returned None q (ringbuffer3_pop q)"
definition rb4_call_push :: "u32 \<Rightarrow> ringbuffer4 \<Rightarrow> bool \<times> ringbuffer4" where
  "rb4_call_push v q = (case ringbuffer4_push v q of None \<Rightarrow> (False, q) | Some x \<Rightarrow> returned False q x)"
definition rb4_call_pop :: "ringbuffer4 \<Rightarrow> u32 option \<times> ringbuffer4" where
  "rb4_call_pop q = (case ringbuffer4_pop q of None \<Rightarrow> (None, q) | Some x \<Rightarrow> returned None q x)"

lemmas rb_call_defs = rb0_call_push_def rb0_call_pop_def rb1_call_push_def rb1_call_pop_def
  rb2_call_push_def rb2_call_pop_def rb3_call_push_def rb3_call_pop_def rb4_call_push_def
  rb4_call_pop_def

interpretation rb0: bounded_channel "rb0_rep n" "n - 1" rb0_call_push rb0_call_pop for n
  by unfold_locales (auto simp: rb_call_defs dest: rb0_push rb0_pop)

interpretation rb1: bounded_channel "rb1_rep n" "n - 1" rb1_call_push rb1_call_pop for n
  by unfold_locales (auto simp: rb_call_defs dest: rb1_push rb1_pop)

interpretation rb2: bounded_channel "rb2_rep n" "n - 1" rb2_call_push rb2_call_pop for n
  by unfold_locales (auto simp: rb_call_defs dest: rb2_push rb2_pop)

interpretation rb3: bounded_channel "rb3_rep n" "n - 1" rb3_call_push rb3_call_pop for n
  by unfold_locales (auto simp: rb_call_defs dest: rb3_push rb3_pop)

interpretation rb4: bounded_channel "rb4_rep n" "n - 1" rb4_call_push rb4_call_pop for n
  by unfold_locales (auto simp: rb_call_defs dest: rb4_push rb4_pop)

lemma rb_fresh:
  fixes c :: u32 and c' :: u64
  shows "0 < unat c \<Longrightarrow> rb0_rep (unat c) (ringbuffer0_new c) []"
    "0 < unat c \<Longrightarrow> rb1_rep (unat c) (ringbuffer1_new c) []"
    "0 < unat c \<Longrightarrow> rb2_rep (unat c) (ringbuffer2_new c) []"
    "0 < unat c' \<Longrightarrow> length g' = unat c' \<Longrightarrow> rb3_rep (unat c') (ringbuffer3_new g' c') []"
    "0 < unat c \<Longrightarrow> length g = unat c \<Longrightarrow> rb4_rep (unat c) (ringbuffer4_new g c) []"
  using unsigned_less [of c, where 'a = nat] unsigned_less [of c', where 'a = nat]
  by (auto simp: rb0_rep_def rb1_rep_def rb1_as_0_def rb2_rep_def rb3_rep_def rb4_rep_def
      ringbuffer0_new_def ringbuffer1_new_def ringbuffer2_new_def ringbuffer3_new_def
      ringbuffer4_new_def cached_ok_def intro: ring_holds_fresh)

section \<open>Properties\<close>

text \<open>
  C10: the optimised buffers compute what the plain one computes. For every sequence of pushes and
  pops on fresh buffers of capacity \<open>c\<close>, the padded, the index-caching and the mutex buffer accept
  and deliver exactly the elements the plain buffer does, and that is what a list of at most
  \<open>c - 1\<close> elements does.
\<close>

theorem ring_buffers_equivalent:
  assumes "0 < unat c" and "length g = unat c"
    and "run_ops (bq_push (unat c - 1)) bq_pop ops [] = (acc, rcv, rest)"
  shows "(\<exists>t. run_ops rb0_call_push rb0_call_pop ops (ringbuffer0_new c) = (acc, rcv, t)) \<and>
    (\<exists>t. run_ops rb1_call_push rb1_call_pop ops (ringbuffer1_new c) = (acc, rcv, t)) \<and>
    (\<exists>t. run_ops rb2_call_push rb2_call_pop ops (ringbuffer2_new c) = (acc, rcv, t)) \<and>
    (\<exists>t. run_ops rb4_call_push rb4_call_pop ops (ringbuffer4_new g c) = (acc, rcv, t))"
  using rb0.run_reference [OF rb_fresh(1) [OF assms(1)] assms(3)]
    rb1.run_reference [OF rb_fresh(2) [OF assms(1)] assms(3)]
    rb2.run_reference [OF rb_fresh(3) [OF assms(1)] assms(3)]
    rb4.run_reference [OF rb_fresh(5) [OF assms(1,2)] assms(3)]
  by blast

theorem ring_buffers_equivalent_witness:
  "\<exists>t. run_ops rb2_call_push rb2_call_pop [Push 7, Push 8, Push 9, Pop, Push 9, Pop, Pop, Pop]
     (ringbuffer2_new 3) = ([7, 8, 9], [7, 8, 9], t)"
proof -
  have "run_ops (bq_push (unat (3::u32) - 1)) bq_pop
      [Push 7, Push 8, Push 9, Pop, Push 9, Pop, Pop, Pop] [] = ([7, 8, 9], [7, 8, 9], [])"
    by (simp add: bq_push_def)
  from ring_buffers_equivalent [OF _ _ this, of "[0, 0, 0]"] show ?thesis by simp
qed

text \<open>
  The ring buffers never leave their arrays. Reached by any sequence of calls from a fresh
  buffer, every further push and pop of the plain, the caching and the 64-bit buffer returns
  without an out-of-bounds access, and a push is refused exactly when one slot is left.
\<close>

theorem ring_buffers_in_bounds:
  assumes "0 < unat c" and "run_ops rb2_call_push rb2_call_pop ops (ringbuffer2_new c) = (acc, rcv, q)"
    and "0 < unat c'" and "length g = unat c'"
    and "run_ops rb3_call_push rb3_call_pop ops' (ringbuffer3_new g c') = (acc', rcv', q')"
  shows "(\<exists>x. ringbuffer2_pop q = Inr x) \<and>
    (\<exists>s. ringbuffer2_push v q = Inr (length acc < length rcv + (unat c - 1), s)) \<and>
    (\<exists>x. ringbuffer3_pop q' = Inr x) \<and>
    (\<exists>s. ringbuffer3_push v' q' = Inr (length acc' < length rcv' + (unat c' - 1), s))"
proof -
  obtain ms where ms: "rb2_rep (unat c) q ms" "acc = rcv @ ms"
    using rb2.fifo.run_fifo [OF rb_fresh(3) [OF assms(1)] _ assms(2)] by auto
  obtain ms' where ms': "rb3_rep (unat c') q' ms'" "acc' = rcv' @ ms'"
    using rb3.fifo.run_fifo [OF rb_fresh(4) [OF assms(3,4)] _ assms(5)] by auto
  have b: "bq_push cap m xs = (length xs < cap, snd (bq_push cap m xs))" for cap and m :: 'a and xs
    by (simp add: bq_push_def)
  have room: "(length acc < length rcv + (unat c - 1)) = (length ms < unat c - 1)"
    "(length acc' < length rcv' + (unat c' - 1)) = (length ms' < unat c' - 1)"
    using ms(2) ms'(2) by auto
  have pop2: "\<exists>x. ringbuffer2_pop q = Inr x"
    using rb2_pop [OF ms(1) surjective_pairing] by blast
  have push2: "\<exists>s. ringbuffer2_push v q = Inr (length ms < unat c - 1, s)"
    using rb2_push [OF ms(1) b, of v] by blast
  have pop3: "\<exists>x. ringbuffer3_pop q' = Inr x"
    using rb3_pop [OF ms'(1) surjective_pairing] by blast
  have push3: "\<exists>s. ringbuffer3_push v' q' = Inr (length ms' < unat c' - 1, s)"
    using rb3_push [OF ms'(1) b, of v'] by blast
  from pop2 push2 pop3 push3 show ?thesis
    unfolding room by (intro conjI)
qed

theorem ring_buffers_in_bounds_witness:
  "\<exists>s. ringbuffer2_push 5 (ringbuffer2_new 3) = Inr (True, s)"
  using ring_buffers_in_bounds [of 3 "[]" "[]" "[]" "ringbuffer2_new 3" 3 "[0, 0, 0]" "[]" "[]" "[]"
      "ringbuffer3_new [0, 0, 0] 3"]
  by auto

end
