(* ===== verification/Thread_Benchmarks.thy ===== *)
theory Thread_Benchmarks
  imports Queue_Benchmarks SPSC_Concurrent Ring_Buffers
begin

text \<open>
  The benchmarks of \<^verbatim>\<open>bench/bm_spsc_threads.cpp\<close>: the queue of the library, a double-ended queue under a
  mutex, and the queues of other libraries, which are parameters. Threads are not pinned and time is not
  taken.
\<close>

section \<open>The queue of the library\<close>

text \<open>
  The storage and the consumer's local \<^verbatim>\<open>msg\<close>. As in \<open>SPSC_Client\<close>, a call that faults or does not
  return would be no message; the queue never does either here.
\<close>

fun own_push :: "SPSCQueue \<Rightarrow> Message \<Rightarrow> u64 \<Rightarrow> SPSCStorage \<times> MessageView \<Rightarrow> bool \<times> SPSCStorage \<times> MessageView" where
  "own_push q msg item (s, view) =
     (case enqueue q [msg_payload msg \<mapsto> bytes_of_u64 item] msg s of
        Inr (b, s') \<Rightarrow> (b, s', view)
      | Inl _ \<Rightarrow> (False, s, view))"

fun own_front :: "SPSCQueue \<Rightarrow> SPSCStorage \<times> MessageView \<Rightarrow> bool \<times> SPSCStorage \<times> MessageView" where
  "own_front q (s, msg) =
     (case dequeue_begin q s of
        Some (Inr (v, s')) \<Rightarrow> (\<not> view_empty v, s', v)
      | _ \<Rightarrow> (False, s, msg))"

fun own_item :: "SPSCQueue \<Rightarrow> SPSCStorage \<times> MessageView \<Rightarrow> u64" where
  "own_item q (s, msg) =
     (case load_view q s (view_payload msg) 8 of None \<Rightarrow> 0 | Some bs \<Rightarrow> u64_of_bytes bs)"

fun own_pop :: "SPSCStorage \<times> MessageView \<Rightarrow> SPSCStorage \<times> MessageView" where
  "own_pop (s, msg) = (dequeue_commit msg s, msg)"

fun own_rep :: "SPSCQueue \<Rightarrow> nat \<Rightarrow> SPSCStorage \<times> MessageView \<Rightarrow> u64 list \<Rightarrow> bool" where
  "own_rep q B (s, msg) xs \<longleftrightarrow> uniform_rep q B 16 s (map bytes_of_u64 xs) \<and> 40 \<le> B"

fun own_held :: "SPSCQueue \<Rightarrow> SPSCStorage \<times> MessageView \<Rightarrow> bool" where
  "own_held q (s, msg) \<longleftrightarrow>
     hdr s \<noteq> 0 \<and> msg = MessageView_new (q_buffer q + st_read_ix s + 8) 8 (st_read_ix s)"

lemma header_place_clear:
  assumes "clear r w off 8" and "clear r w (off + 8) (length m)" and "off + 8 + length m \<le> length buf"
    and "8 dvd r" "8 dvd w" "r \<noteq> w"
  shows "header_at (place off m buf) r = header_at buf r"
  using assms by (simp add: place_def header_clear length_mem_splice)

lemma push_header:
  assumes rep: "uniform_rep q B T s ms" and ok: "uniform_ok B T m" and ne: "ms \<noteq> []"
    and push: "spsc_push q p m s = (b, s')"
  shows "hdr s' = hdr s \<and> st_read_ix s' = st_read_ix s"
proof -
  have ring: "ring_rep s ms" and att: "attached q s" and adm: "admissible s m" and qr: "queue_rep s ms"
    using rep ok by (auto simp: uniform_rep_def uniform_ok_def admissible_def queue_rep_def)
  have pay: "payload_is [p \<mapsto> m] (Message_borrows p (word_of_nat (length m))) m"
    using admissible_small [OF ring adm] by (rule payload_borrows)
  note over = uniform_not_overtaking [OF rep ok]
  have r: "8 dvd rd s" "8 dvd wr s" "rd s \<noteq> wr s" "wr s < length (st_buffer s)" "8 dvd length (st_buffer s)"
    using ring ne runs_empty_iff by (auto simp: ring_rep_def wf_storage_def)
  have hdr: "header_at buf (rd s) = hdr s" if "ring_put (st_buffer s) (rd s) (wr s) m = Some (buf, w)" for buf w
  proof (cases "wr s + msg_space m < length (st_buffer s)")
    case True
    then have free: "rd s \<le> wr s \<or> wr s + msg_space m < rd s" and buf: "buf = place (wr s) m (st_buffer s)"
      using that by (auto simp: ring_put_def Let_def split: if_splits)
    have "clear (rd s) (wr s) (wr s) 8" "clear (rd s) (wr s) (wr s + 8) (length m)"
      "wr s + 8 + length m \<le> length (st_buffer s)"
      using free True msg_space_bounds(1) [of m] by (auto simp: clear_def)
    then show ?thesis
      unfolding buf using r(1-3) by (rule header_place_clear)
  next
    case False
    then have le: "rd s \<le> wr s" "msg_space m < rd s"
      and buf: "buf = mem_splice (place 0 m (st_buffer s)) (wr s) (replicate 8 0)"
      using that over by (auto simp: ring_put_def overtaking_def overtakes_def Let_def split: if_splits)
    have c: "clear (rd s) (wr s) 0 8" "clear (rd s) (wr s) (0 + 8) (length m)"
      "0 + 8 + length m \<le> length (st_buffer s)"
      using le r(4) msg_space_bounds(1) [of m] by (simp_all add: clear_def)
    then have "header_at (place 0 m (st_buffer s)) (rd s) = hdr s"
      using r(1-3) by (rule header_place_clear)
    moreover have "wr s + 8 \<le> length (st_buffer s)" "rd s + 8 \<le> wr s"
      using dvd8_less_add [OF r(2,5,4)] dvd8_less_add [OF r(1,2)] le(1) r(3) by simp_all
    ultimately show ?thesis
      using c(3) unfolding buf by (subst header_splice) (simp_all add: place_def length_mem_splice)
  qed
  have "put_result s (ring_put (st_buffer s) (rd s) (wr s) m) = (b, s')"
    using push unfolding spsc_push_def spsc_send_def enqueue_ring_put [OF ring att pay adm] by simp
  then show ?thesis
    using hdr by (auto simp: put_result_def split: option.splits)
qed

lemma number_ok: "40 \<le> B \<Longrightarrow> uniform_ok B 16 (bytes_of_u64 x)"
proof -
  assume "40 \<le> B"
  moreover have "bytes_of_u64 x \<noteq> []" using length_bytes_of_u64 [of x] by (metis length_0_conv zero_neq_numeral)
  ultimately show ?thesis by (simp add: uniform_ok_def msg_space_def align8_def)
qed

text \<open>Whether the message owns its payload makes no difference to the queue.\<close>

lemma own_push_spsc:
  "own_push q (Message_new p 8 owned) x (s, v) =
     (case spsc_push q p (bytes_of_u64 x) s of (b, s') \<Rightarrow> (b, s', v))"
proof -
  have "enqueue q h (Message_new p 8 owned) s = enqueue q h (Message_borrows p 8) s" for h
    unfolding enqueue_def enqueue_body_def Message_borrows_def Message_new_def msg_total_size_def
      msg_payload_size_def Message.select_convs by (rule refl)
  then show ?thesis
    by (simp add: spsc_push_def spsc_send_def Message_new_def split: sum.splits prod.splits)
qed

lemma own_head:
  assumes "uniform_rep q B 16 s (bytes_of_u64 x # ms)"
  shows "dequeue_begin q s = Some (Inr (head_view q s (bytes_of_u64 x), skip_sentinel s))"
    and "\<not> view_empty (head_view q s (bytes_of_u64 x))"
    and "uniform_rep q B 16 (skip_sentinel s) (bytes_of_u64 x # ms)"
    and "own_held q (skip_sentinel s, head_view q s (bytes_of_u64 x))"
proof -
  have rep: "queue_rep s (bytes_of_u64 x # ms)" and ring: "ring_rep s (bytes_of_u64 x # ms)"
    using assms by (simp_all add: uniform_rep_def queue_rep_def)
  show "dequeue_begin q s = Some (Inr (head_view q s (bytes_of_u64 x), skip_sentinel s))"
    using ring by (rule dequeue_begin_head)
  show "\<not> view_empty (head_view q s (bytes_of_u64 x))"
    using ring by (rule head_view_nonempty)
  show "uniform_rep q B 16 (skip_sentinel s) (bytes_of_u64 x # ms)"
    using assms queue_rep_skip [OF rep] by (auto simp: uniform_rep_def attached_def skip_sentinel_def
      buffer_size_def calc_max_message_size_def)
  obtain j where "seg (st_buffer s) (unat (st_read_ix (skip_sentinel s))) [bytes_of_u64 x] j"
    using ring_rep_head [OF ring] by blast
  then show "own_held q (skip_sentinel s, head_view q s (bytes_of_u64 x))"
    by (simp add: head_view_def)
qed

lemma own_load:
  assumes "uniform_rep q B 16 s (bytes_of_u64 x # ms)" and "own_held q (s, v)"
  shows "load_view q s (view_payload v) 8 = Some (bytes_of_u64 x)"
proof -
  have ring: "ring_rep s (bytes_of_u64 x # ms)"
    using assms(1) by (simp add: uniform_rep_def queue_rep_def)
  have "v = head_view q s (bytes_of_u64 x)" "skip_sentinel s = s"
    using assms(2) by (auto simp: head_view_index skip_none)
  then show ?thesis
    using head_view_bytes [OF ring, of q]
    by (simp add: view_bytes_def head_view_index head_view_def MessageView_new_def)
qed

text \<open>The calls return, without a fault.\<close>

lemma own_calls_return:
  assumes rep: "own_rep q B (s, v) xs"
  shows "\<exists>r. enqueue q [p \<mapsto> bytes_of_u64 x] (Message_new p 8 owned) s = Inr r"
    and "\<exists>r. dequeue_begin q s = Some (Inr r)"
proof -
  have ring: "ring_rep s (map bytes_of_u64 xs)" and att: "attached q s" and adm: "admissible s (bytes_of_u64 x)"
    using rep number_ok [of B x]
    by (auto simp: uniform_rep_def queue_rep_def uniform_ok_def admissible_def)
  have "payload_is [p \<mapsto> bytes_of_u64 x] (Message_new p 8 owned) (bytes_of_u64 x)"
    using payload_borrows [of "bytes_of_u64 x" p]
    by (simp add: payload_is_def Message_borrows_def Message_new_def)
  from enqueue_ring_put [OF ring att this adm]
  show "\<exists>r. enqueue q [p \<mapsto> bytes_of_u64 x] (Message_new p 8 owned) s = Inr r" by blast
  show "\<exists>r. dequeue_begin q s = Some (Inr r)"
    using ring dequeue_begin_empty [of s q] dequeue_begin_head [of s _ _ q] by (cases xs) auto
qed

interpretation own_queue: front_channel
  "own_rep q B" "own_held q" "own_push q (Message_new p 8 owned)" "own_front q" "own_item q" own_pop for q B p owned
proof
  fix st st' :: "SPSCStorage \<times> MessageView" and xs x b
  obtain s v where st: "st = (s, v)" by (cases st)
  {
    assume rep: "own_rep q B st xs" and push: "own_push q (Message_new p 8 owned) x st = (b, st')"
    then obtain s' where s': "spsc_push q p (bytes_of_u64 x) s = (b, s')" "st' = (s', v)"
      by (auto simp: st own_push_spsc simp del: own_push.simps split: prod.splits)
    have u: "uniform_rep q B 16 s (map bytes_of_u64 xs)" "uniform_ok B 16 (bytes_of_u64 x)"
      using rep number_ok by (auto simp: st)
    show "own_rep q B st' (if b then xs @ [x] else xs)"
      using rep s' uniform_push_accept [OF u] uniform_push_refuse [OF u] by (cases b) (auto simp: st)
    show "own_held q st'" if "own_held q st" "xs \<noteq> []"
    proof -
      have h: "hdr s' = hdr s" "st_read_ix s' = st_read_ix s"
        using push_header [OF u _ s'(1)] that(2) by blast+
      show ?thesis
        using that(1) unfolding st s'(2) own_held.simps unfolding h(1) unfolding h(2) .
    qed
  next
    assume rep: "own_rep q B st []"
    then have u: "uniform_rep q B 16 s []" and B: "40 \<le> B" by (simp_all add: st)
    then have "queue_rep s []" "attached q s" "length (st_buffer s) = B" by (simp_all add: uniform_rep_def)
    moreover have "payload_is [p \<mapsto> bytes_of_u64 x] (Message_borrows p 8) (bytes_of_u64 x)"
      using payload_borrows [of "bytes_of_u64 x" p] by simp
    moreover have "bytes_of_u64 x \<noteq> []" "msg_space (bytes_of_u64 x) = 16"
      using number_ok [OF B, of x] by (simp_all add: uniform_ok_def)
    ultimately obtain s' where "enqueue q [p \<mapsto> bytes_of_u64 x] (Message_borrows p 8) s = Inr (True, s')"
      using enqueue_empty [of s q "[p \<mapsto> bytes_of_u64 x]" "Message_borrows p 8" "bytes_of_u64 x"] B by auto
    then show "\<exists>st'. own_push q (Message_new p 8 owned) x st = (True, st')"
      by (simp add: st own_push_spsc spsc_push_def spsc_send_def del: own_push.simps)
    show "\<exists>st'. own_front q st = (False, st') \<and> own_rep q B st' []"
      using u B dequeue_begin_empty [of s q]
      by (auto simp: st uniform_rep_def queue_rep_def view_empty_def MessageView_default_def)
  next
    assume rep: "own_rep q B st (x # xs)"
    then have u: "uniform_rep q B 16 s (bytes_of_u64 x # map bytes_of_u64 xs)" and B: "40 \<le> B"
      by (simp_all add: st)
    note h = own_head [OF u]
    show "\<exists>st'. own_front q st = (True, st') \<and> own_rep q B st' (x # xs) \<and> own_held q st'"
      using h B by (simp add: st)
    show "own_item q st = x" if "own_held q st"
      using own_load [OF u] that by (simp add: st)
    show "own_rep q B (own_pop st) xs" if "own_held q st"
    proof -
      have "v = head_view q s (bytes_of_u64 x)" "skip_sentinel s = s"
        using that by (auto simp: st head_view_index skip_none)
      then show ?thesis
        using uniform_pop_first [OF u] B by (simp add: st)
    qed
  }
qed

section \<open>The double-ended queue under a mutex\<close>

text \<open>
  \<^verbatim>\<open>deque_mutex\<close>: the critical sections of the two threads exclude each other and are one step each. The
  wait on the condition variable releases the mutex until there is an element; then the consumer takes
  all of them.
\<close>

definition deque_push :: "u64 \<Rightarrow> u64 list \<Rightarrow> bool \<times> u64 list" where
  "deque_push item q = (True, q @ [item])"

fun deque_drain :: "u64 list \<Rightarrow> u64 \<Rightarrow> u64 \<Rightarrow> u64 \<times> u64" where
  "deque_drain [] counter acc = (counter, acc)"
| "deque_drain (x # q) counter acc = deque_drain q (counter + 1) (acc + x)"

definition consumer_deque :: "u64 \<Rightarrow> (u64 list, u64) bench \<Rightarrow> (u64 list, u64) bench" where
  "consumer_deque msg_count b =
     (case b_pc b of
        Outer \<Rightarrow> outer_test msg_count b
      | Inner \<Rightarrow>
          if b_queue b = [] then b
          else (case deque_drain (b_queue b) (b_counter b) (b_acc b) of
            (counter, acc) \<Rightarrow> b\<lparr>b_queue := [], b_counter := counter, b_acc := acc, b_pc := Outer\<rparr>)
      | _ \<Rightarrow> b)"

lemma deque_drain_fold:
  "deque_drain q counter acc = (counter + word_of_nat (length q), fold add_to_sum q acc)"
  by (induction q counter acc rule: deque_drain.induct) (simp_all add: add_to_sum_def add.assoc)

abbreviation deque_inv :: "u64 \<Rightarrow> (u64 list, u64) bench \<Rightarrow> bool" where
  "deque_inv \<equiv> bench_inv (\<lambda>i. i) 0 add_to_sum True (=) (\<lambda>_. False)"

lemma deque_take:
  assumes inv: "deque_inv n b" and pc: "b_pc b = Inner"
  shows "consumer_deque n b = (if b_counter b = b_produced b then b
    else b\<lparr>b_queue := [], b_counter := b_produced b,
      b_acc := fold add_to_sum (sent (\<lambda>i. i) 0 (unat (b_produced b))) 0, b_pc := Outer\<rparr>)"
proof -
  have q: "b_queue b = sent (\<lambda>i. i) (unat (b_counter b)) (unat (b_produced b))"
    and le: "unat (b_counter b) \<le> unat (b_produced b)"
    and acc: "b_acc b = fold add_to_sum (sent (\<lambda>i. i) 0 (unat (b_counter b))) 0"
    using inv pc by (auto simp: bench_inv_def unread_from_def word_nat)
  have nil: "b_queue b = [] \<longleftrightarrow> b_counter b = b_produced b"
    using le by (auto simp: q sent_Nil_iff u64_eq_iff)
  have count: "b_counter b + word_of_nat (length (b_queue b)) = b_produced b"
    using le by (simp add: q sent_def of_nat_diff)
  have app: "sent (\<lambda>i. i) 0 (unat (b_produced b)) = sent (\<lambda>i. i) 0 (unat (b_counter b)) @ b_queue b"
    using upt_add_eq_append [of 0 "unat (b_counter b)" "unat (b_produced b) - unat (b_counter b)"] le
    by (simp add: q sent_def)
  show ?thesis
  proof (cases "b_counter b = b_produced b")
    case False
    then show ?thesis by (simp add: consumer_deque_def pc nil acc deque_drain_fold count app)
  qed (simp add: consumer_deque_def pc nil)
qed

lemma deque_consumer_inv:
  assumes inv: "deque_inv n b"
  shows "deque_inv n (consumer_deque n b)"
proof (cases "b_pc b")
  case Outer
  then show ?thesis using outer_test_inv [OF inv] by (simp add: consumer_deque_def)
next
  case Inner
  then show ?thesis
    using inv by (auto simp: deque_take [OF inv Inner] bench_inv_def unread_from_def sent_simps)
qed (use inv in \<open>simp_all add: consumer_deque_def\<close>)

lemma deque_producer_inv: "deque_inv n b \<Longrightarrow> deque_inv n (bench_producer (\<lambda>i. i) deque_push n b)"
  by (rule producer_inv) (auto simp: deque_push_def)

lemma deque_progress:
  assumes inv: "deque_inv n b" and "b_pc b \<noteq> Finished"
  shows "\<exists>b'. bench_step True (\<lambda>i. i) 0 deque_push consumer_deque n b b' \<and> bench_work n b' < bench_work n b"
proof (cases "b_pc b")
  case Outer
  then show ?thesis
    using outer_test_work [OF Outer, of n] bench_step.consume [of True "\<lambda>i. i" 0 deque_push consumer_deque n b]
    by (auto simp: consumer_deque_def)
next
  case Inner
  have n: "b_counter b < n" "b_produced b \<le> n" "b_counter b \<le> b_produced b"
    using inv Inner by (auto simp: bench_inv_def)
  show ?thesis
  proof (cases "b_counter b = b_produced b")
    case True
    then have "bench_work n (bench_producer (\<lambda>i. i) deque_push n b) < bench_work n b"
      using n(1) by (intro producer_work) (auto simp: deque_push_def)
    then show ?thesis using bench_step.produce by metis
  next
    case False
    then have "unat (b_counter b) < unat (b_produced b)" "unat (b_produced b) \<le> unat n"
      using n False by (auto simp: word_nat u64_eq_iff)
    then have "bench_work n (consumer_deque n b) < bench_work n b"
      using False Inner by (auto simp: deque_take [OF inv Inner] bench_work_def)
    then show ?thesis using bench_step.consume by metis
  qed
qed (use assms in \<open>auto simp: bench_inv_def\<close>)

section \<open>Instances\<close>

text \<open>
  The index-caching ring buffer over 64-bit elements and an unbounded list are queues of the kind the
  benchmarks ask of other libraries.
\<close>

context bounded_channel
begin

lemma accepting: "0 < cap \<Longrightarrow> accepting_channel rep push pop"
proof unfold_locales
  show "\<exists>s'. push m s = (True, s')" if "0 < cap" "rep s []" for s m
    using push_spec [OF that(2), of m True "[m]"] that(1) by (auto simp: bq_push_def)
qed

end

interpretation rb3_accepting: accepting_channel "\<lambda>q ms. 2 \<le> n \<and> rb3_rep n q ms" rb3_call_push rb3_call_pop for n
proof
  fix s s' ms m
  show "\<exists>s'. rb3_call_push m s = (True, s')" if "2 \<le> n \<and> rb3_rep n s []"
    using that rb3.push_spec [of n s "[]" m True "[m]"] by (auto simp: bq_push_def)
qed (use rb3.fifo.push_accept rb3.fifo.push_refuse rb3.fifo.pop_empty rb3.fifo.pop_first in blast)+

definition deque_front :: "u64 list \<Rightarrow> bool \<times> u64 list" where
  "deque_front q = (q \<noteq> [], q)"

interpretation deque_queue: front_channel "(=)" "\<lambda>_. True" deque_push deque_front hd tl
  by unfold_locales (auto simp: deque_push_def deque_front_def)

section \<open>The benchmarks\<close>

type_synonym 's benchmark = "('s, u64) bench \<times> (('s, u64) bench \<Rightarrow> ('s, u64) bench \<Rightarrow> bool)"

definition msg_count :: u64 where "msg_count = 10000000"

definition queue_capacity :: u64 where "queue_capacity = 100000"

definition bm_runner :: "'s \<Rightarrow> (u64 \<Rightarrow> 's \<Rightarrow> bool \<times> 's) \<Rightarrow> (u64 \<Rightarrow> ('s, u64) bench \<Rightarrow> ('s, u64) bench) \<Rightarrow> 's benchmark" where
  "bm_runner msg_queue producer consumer = (bench_start 0 msg_queue, bench_step True (\<lambda>counter. counter) 0 producer consumer msg_count)"

definition deque_mutex :: "u64 list benchmark" where
  "deque_mutex = bm_runner [] deque_push consumer_deque"

text \<open>Queues of other libraries: \<open>mk\<close> constructs one of the given capacity.\<close>

definition moodycamel_ReaderWriterQueue where
  "moodycamel_ReaderWriterQueue mk try_enqueue try_dequeue =
     bm_runner (mk queue_capacity) try_enqueue (consumer_spin add_to_sum try_dequeue)"

definition moodycamel_BlockingReaderWriterQueue_wait where
  "moodycamel_BlockingReaderWriterQueue_wait mk try_enqueue wait_dequeue_timed =
     bm_runner (mk queue_capacity) try_enqueue (consumer_spin add_to_sum (wait_dequeue_timed (1000 :: u64)))"

definition boost_lockfree_queue_busyspin where
  "boost_lockfree_queue_busyspin mk push pop =
     bm_runner (mk queue_capacity) push (consumer_spin add_to_sum pop)"

definition boost_lockfree_spsc_queue_busyspin where
  "boost_lockfree_spsc_queue_busyspin mk push pop =
     bm_runner (mk queue_capacity) push (consumer_drain add_to_sum pop)"

definition boost_lockfree_spsc_queue_yield where
  "boost_lockfree_spsc_queue_yield mk push pop =
     bm_runner (mk queue_capacity) push (consumer_spin add_to_sum pop)"

definition rigtorp_SPSCQueue_busyspin where
  "rigtorp_SPSCQueue_busyspin mk try_push front item pop =
     bm_runner (mk queue_capacity) try_push (consumer_front add_to_sum front item pop)"

definition rigtorp_SPSCQueue_yield where
  "rigtorp_SPSCQueue_yield mk try_push front item pop =
     bm_runner (mk queue_capacity) try_push (consumer_front add_to_sum front item pop)"

definition rigtorp_SPSCQueue_pause_pc where
  "rigtorp_SPSCQueue_pause_pc mk try_push front item pop =
     bm_runner (mk queue_capacity) try_push (consumer_front add_to_sum front item pop)"

definition rigtorp_SPSCQueue_pause_p where
  "rigtorp_SPSCQueue_pause_p mk try_push front item pop =
     bm_runner (mk queue_capacity) try_push (consumer_front add_to_sum front item pop)"

definition rigtorp_SPSCQueue_pause_c where
  "rigtorp_SPSCQueue_pause_c mk try_push front item pop =
     bm_runner (mk queue_capacity) try_push (consumer_front add_to_sum front item pop)"

text \<open>
  The queue of the library, constructed over zeroed memory at \<open>mem_ptr\<close>; the producer's message has its
  payload at \<open>payload\<close>.
\<close>

definition own_storage :: "u64 \<Rightarrow> SPSCStorage" where
  "own_storage capacity =
     (let buffer_size = capacity * 8 in
      SPSCStorage_new (buffer_size + BUFFER_OFFSET) (replicate (unat buffer_size) 0))"

definition own_SPSCQueue_busyspin :: "addr \<Rightarrow> addr \<Rightarrow> (SPSCStorage \<times> MessageView) benchmark" where
  "own_SPSCQueue_busyspin mem_ptr payload =
     (let storage = own_storage queue_capacity; msg_queue = SPSCQueue_new mem_ptr storage;
          msg = Message_borrows payload 8 in
      bm_runner (storage, MessageView_default) (own_push msg_queue msg)
        (consumer_front add_to_sum (own_front msg_queue) (own_item msg_queue) own_pop))"

definition own_SPSCQueue_pause_c :: "addr \<Rightarrow> addr \<Rightarrow> (SPSCStorage \<times> MessageView) benchmark" where
  "own_SPSCQueue_pause_c mem_ptr payload =
     (let storage = own_storage queue_capacity; msg_queue = SPSCQueue_new mem_ptr storage;
          msg = Message_owns payload 8 in
      bm_runner (storage, MessageView_default) (own_push msg_queue msg)
        (consumer_front add_to_sum (own_front msg_queue) (own_item msg_queue) own_pop))"

lemmas third_party_defs = moodycamel_ReaderWriterQueue_def moodycamel_BlockingReaderWriterQueue_wait_def
  boost_lockfree_queue_busyspin_def boost_lockfree_spsc_queue_busyspin_def boost_lockfree_spsc_queue_yield_def
  rigtorp_SPSCQueue_busyspin_def rigtorp_SPSCQueue_yield_def rigtorp_SPSCQueue_pause_pc_def
  rigtorp_SPSCQueue_pause_p_def rigtorp_SPSCQueue_pause_c_def

section \<open>Properties\<close>

text \<open>
  A benchmark passes: whenever the consumer has finished, the sanity checks accept its count and sum,
  and from every state the threads can get into they can finish.
\<close>

definition benchmark_passes :: "'s benchmark \<Rightarrow> bool" where
  "benchmark_passes bm \<longleftrightarrow> (\<forall>b. (snd bm)\<^sup>*\<^sup>* (fst bm) b \<longrightarrow>
     (b_pc b = Finished \<longrightarrow> sanity_checks msg_count (b_acc b) (b_counter b) = Sane) \<and>
     (\<exists>b'. (snd bm)\<^sup>*\<^sup>* b b' \<and> b_pc b' = Finished))"

definition benchmark_always :: "(('s, u64) bench \<Rightarrow> bool) \<Rightarrow> 's benchmark \<Rightarrow> bool" where
  "benchmark_always P bm \<longleftrightarrow> (\<forall>b. (snd bm)\<^sup>*\<^sup>* (fst bm) b \<longrightarrow> P b)"

text \<open>The next call of either thread returns without a fault.\<close>

definition own_next_ok :: "SPSCQueue \<Rightarrow> Message \<Rightarrow> (SPSCStorage \<times> MessageView, u64) bench \<Rightarrow> bool" where
  "own_next_ok q msg b \<longleftrightarrow> (case b_queue b of (s, view) \<Rightarrow>
     (\<exists>r. enqueue q [msg_payload msg \<mapsto> bytes_of_u64 (b_produced b)] msg s = Inr r) \<and>
     (\<exists>r. dequeue_begin q s = Some (Inr r)) \<and>
     (b_pc b = Item \<longrightarrow> (\<exists>bs. load_view q s (view_payload view) 8 = Some bs)))"

lemma passesI:
  assumes "\<And>b. (bench_step True (\<lambda>i. i) 0 push consumer msg_count)\<^sup>*\<^sup>* (bench_start 0 s) b \<Longrightarrow>
    bench_inv (\<lambda>i. i) 0 add_to_sum strict rep held msg_count b \<and>
      (\<exists>b'. (bench_step True (\<lambda>i. i) 0 push consumer msg_count)\<^sup>*\<^sup>* b b' \<and> b_pc b' = Finished)"
  shows "benchmark_passes (bm_runner s push consumer)"
  using assms bench_finished [of strict rep held msg_count]
  by (auto simp: benchmark_passes_def bm_runner_def msg_count_def)

lemma deque_mutex_passes: "benchmark_passes deque_mutex"
  unfolding deque_mutex_def
proof (rule passesI [where strict = True and rep = "(=)" and held = "\<lambda>_. False"], rule conjI)
  fix b assume reach: "(bench_step True (\<lambda>i. i) 0 deque_push consumer_deque msg_count)\<^sup>*\<^sup>* (bench_start 0 []) b"
  have "deque_inv msg_count (bench_start 0 [])"
    by (simp add: bench_inv_def bench_start_def unread_from_def sent_simps)
  then show inv: "deque_inv msg_count b"
    using reach_inv [where I = "deque_inv msg_count", OF deque_producer_inv deque_consumer_inv again_inv reach]
    by blast
  show "\<exists>b'. (bench_step True (\<lambda>i. i) 0 deque_push consumer_deque msg_count)\<^sup>*\<^sup>* b b' \<and> b_pc b' = Finished"
    using inv by (rule reach_end [where I = "deque_inv msg_count", OF deque_progress, rotated -1])
      (auto elim!: bench_step.cases intro: deque_producer_inv deque_consumer_inv again_inv)
qed

lemma own_fresh_rep:
  assumes "unat sz = length mem" and "8 dvd length mem" and "40 \<le> length mem" and "length mem < 2 ^ 62"
  defines "s \<equiv> SPSCStorage_new (sz + BUFFER_OFFSET) mem"
  shows "own_rep (SPSCQueue_new p s) (length mem) (s, v) []"
proof -
  have "unat (sz + BUFFER_OFFSET) = 256 + length mem"
    using assms(1,4) by (simp add: unat_word_ariths layout_defs)
  with assms(2-4) have "wf_storage s"
    by (simp add: s_def wf_storage_def)
  moreover have "attached (SPSCQueue_new p s) s"
    by (simp add: attached_def SPSCQueue_new_def)
  ultimately show ?thesis
    using fresh_ring assms(3) by (simp add: uniform_rep_def s_def)
qed

lemma own_storage_rep:
  assumes "5 \<le> unat capacity" and "unat capacity < 2 ^ 59"
  shows "own_rep (SPSCQueue_new p (own_storage capacity)) (8 * unat capacity) (own_storage capacity, v) []"
proof -
  have size: "unat (capacity * 8) = 8 * unat capacity"
    using assms(2) by (simp add: unat_word_ariths)
  from own_fresh_rep [of "capacity * 8" "replicate (unat (capacity * 8)) 0" p v] assms show ?thesis
    by (simp add: own_storage_def Let_def size)
qed

lemma own_fresh:
  "own_rep (SPSCQueue_new p (own_storage queue_capacity)) (8 * unat queue_capacity)
     (own_storage queue_capacity, v) []"
  by (rule own_storage_rep) (simp_all add: queue_capacity_def)

lemma own_inv_next_ok:
  assumes "bench_inv (\<lambda>i. i) 0 add_to_sum True (own_rep q B) (own_held q) n b"
  shows "own_next_ok q (Message_new p 8 owned) b"
proof -
  obtain s v where q: "b_queue b = (s, v)" by (cases "b_queue b")
  let ?xs = "sent (\<lambda>i. i) (unread_from b) (unat (b_produced b))"
  have rep: "own_rep q B (s, v) ?xs" using assms by (simp add: bench_inv_def q)
  have "\<exists>bs. load_view q s (view_payload v) 8 = Some bs" if "b_pc b = Item"
  proof -
    have "?xs \<noteq> []" and held: "own_held q (s, v)"
      using that assms by (auto simp: sent_Nil_iff bench_inv_def unread_from_def word_nat q)
    then obtain x xs where "?xs = x # xs" by (cases ?xs) auto
    then show ?thesis using own_load [of q B s x "map bytes_of_u64 xs" v] rep held by auto
  qed
  then show ?thesis
    using own_calls_return [OF rep] by (simp add: own_next_ok_def q Message_new_def)
qed


text \<open>
  The benchmarks of other libraries' queues pass if those queues keep their elements in order, accept
  an element when empty, and let the front element be read before it is removed.
\<close>

theorem third_party_benchmarks_pass:
  assumes pop: "accepting_channel rep push pop" "accepting_channel rep push (pop_timed 1000)" "rep (mk queue_capacity) []"
    and front: "front_channel rep' held try_push front item pop'" "rep' (mk' queue_capacity) []"
  shows "benchmark_passes (moodycamel_ReaderWriterQueue mk push pop) \<and>
    benchmark_passes (moodycamel_BlockingReaderWriterQueue_wait mk push pop_timed) \<and>
    benchmark_passes (boost_lockfree_queue_busyspin mk push pop) \<and>
    benchmark_passes (boost_lockfree_spsc_queue_busyspin mk push pop) \<and>
    benchmark_passes (boost_lockfree_spsc_queue_yield mk push pop) \<and>
    benchmark_passes (rigtorp_SPSCQueue_busyspin mk' try_push front item pop') \<and>
    benchmark_passes (rigtorp_SPSCQueue_yield mk' try_push front item pop') \<and>
    benchmark_passes (rigtorp_SPSCQueue_pause_pc mk' try_push front item pop') \<and>
    benchmark_passes (rigtorp_SPSCQueue_pause_p mk' try_push front item pop') \<and>
    benchmark_passes (rigtorp_SPSCQueue_pause_c mk' try_push front item pop')"
  unfolding third_party_defs
  by (intro conjI) (rule passesI [OF accepting_channel.spin_reach [OF pop(1,3)]]
      passesI [OF accepting_channel.spin_reach [OF pop(2,3)]]
      passesI [OF accepting_channel.drain_reach [OF pop(1,3)]]
      passesI [OF front_channel.front_reach [OF front]]; assumption)+

theorem third_party_benchmarks_pass_witness:
  "benchmark_passes (boost_lockfree_spsc_queue_busyspin (\<lambda>c. ringbuffer3_new (replicate (unat c) 0) c) rb3_call_push rb3_call_pop) \<and>
   benchmark_passes (rigtorp_SPSCQueue_busyspin (\<lambda>_. []) deque_push deque_front hd tl)"
proof -
  have "2 \<le> unat queue_capacity" by (simp add: queue_capacity_def)
  then have "2 \<le> unat queue_capacity \<and> rb3_rep (unat queue_capacity)
      (ringbuffer3_new (replicate (unat queue_capacity) 0) queue_capacity) []"
    using rb_fresh(4) [of queue_capacity "replicate (unat queue_capacity) 0"] by simp
  from third_party_benchmarks_pass [where mk = "\<lambda>c. ringbuffer3_new (replicate (unat c) 0) c"
      and pop_timed = "\<lambda>_. rb3_call_pop" and rep' = "(=)" and mk' = "\<lambda>_. []",
      OF rb3_accepting.accepting_channel_axioms rb3_accepting.accepting_channel_axioms this
        deque_queue.front_channel_axioms refl]
  show ?thesis by blast
qed

end
