(* ===== verification/Direct_Benchmarks.thy ===== *)
theory Direct_Benchmarks
  imports Thread_Benchmarks
begin

text \<open>
  \<^verbatim>\<open>bench/bm_spsc_direct.cpp\<close>: one thread sends a number through a queue and receives it, for all numbers
  below \<^verbatim>\<open>queue_size\<close>, and asserts that the sum is right. Calls of other libraries' queues are parameters.
  The loops are functions into an option type: \<open>None\<close> stands for a call that does not return, which a
  blocking \<^verbatim>\<open>push\<close> to a full queue would be here.
\<close>

section \<open>Loops\<close>

type_synonym 's direct_body = "u64 \<Rightarrow> 's \<times> u64 \<Rightarrow> ('s \<times> u64) exec option"

text \<open>The results of \<^verbatim>\<open>push\<close> and of \<^verbatim>\<open>enqueue\<close> are not looked at.\<close>

fun direct_pop :: "(u64 \<Rightarrow> 's \<Rightarrow> bool \<times> 's) \<Rightarrow> ('s \<Rightarrow> u64 option \<times> 's) \<Rightarrow> 's direct_body" where
  "direct_pop push pop i (s, acc) =
     (case pop (snd (push i s)) of
        (Some x, s') \<Rightarrow> Some (Inr (s', acc + x))
      | (None, s') \<Rightarrow> Some (Inr (s', acc)))"

text \<open>The front pointer is dereferenced without a test.\<close>

fun direct_front :: "(u64 \<Rightarrow> 's \<Rightarrow> 's option) \<Rightarrow> ('s \<Rightarrow> bool \<times> 's) \<Rightarrow> ('s \<Rightarrow> u64) \<Rightarrow> ('s \<Rightarrow> 's) \<Rightarrow> 's direct_body" where
  "direct_front push front item pop i (s, acc) =
     (case push i s of
        None \<Rightarrow> None
      | Some s1 \<Rightarrow>
          (case front s1 of
             (False, s2) \<Rightarrow> Some (Inl NullPointer)
           | (True, s2) \<Rightarrow> Some (Inr (pop s2, acc + item s2))))"

fun direct_view :: "(u64 \<Rightarrow> 's \<Rightarrow> bool \<times> 's) \<Rightarrow> ('s \<Rightarrow> bool \<times> 's) \<Rightarrow> ('s \<Rightarrow> u64) \<Rightarrow> ('s \<Rightarrow> 's) \<Rightarrow> 's direct_body" where
  "direct_view push front item pop i (s, acc) =
     (case front (snd (push i s)) of
        (True, s') \<Rightarrow> Some (Inr (pop s', acc + item s'))
      | (False, s') \<Rightarrow> Some (Inr (s', acc)))"

fun direct_loop :: "'s direct_body \<Rightarrow> u64 list \<Rightarrow> 's \<times> u64 \<Rightarrow> ('s \<times> u64) exec option" where
  "direct_loop body [] st = Some (Inr st)"
| "direct_loop body (i # is) st =
     (case body i st of
        Some (Inr st') \<Rightarrow> direct_loop body is st'
      | r \<Rightarrow> r)"

definition direct_size :: u64 where "direct_size = 100000"

text \<open>One iteration of the state loop, and the first \<open>k\<close> of them.\<close>

definition direct_iteration :: "'s direct_body \<Rightarrow> 's \<Rightarrow> 's exec option" where
  "direct_iteration body s =
     (case direct_loop body (map word_of_nat [0..<unat direct_size]) (s, 0) of
        None \<Rightarrow> None
      | Some (Inl f) \<Rightarrow> Some (Inl f)
      | Some (Inr (s', acc)) \<Rightarrow>
          if acc = direct_size * (direct_size - 1) div 2 then Some (Inr s')
          else Some (Inl (AssertFailed ''sum == (queue_size * (queue_size - 1)) / 2'')))"

fun direct_runs :: "nat \<Rightarrow> 's \<times> 's direct_body \<Rightarrow> 's exec option" where
  "direct_runs 0 (s, body) = Some (Inr s)"
| "direct_runs (Suc k) (s, body) =
     (case direct_iteration body s of
        Some (Inr s') \<Rightarrow> direct_runs k (s', body)
      | r \<Rightarrow> r)"

section \<open>The benchmarks\<close>

definition boost_spsc_queue_stack where
  "boost_spsc_queue_stack mk push pop = (mk direct_size, direct_pop push pop)"

definition boost_spsc_queue_heap where
  "boost_spsc_queue_heap mk push pop = (mk direct_size, direct_pop push pop)"

definition rigtorp_SPSCQueue_stack where
  "rigtorp_SPSCQueue_stack mk push front item pop = (mk direct_size, direct_front push front item pop)"

definition rigtorp_SPSCQueue_heap where
  "rigtorp_SPSCQueue_heap mk push front item pop = (mk direct_size, direct_front push front item pop)"

definition moodycamel_ReaderWriterQueue_stack where
  "moodycamel_ReaderWriterQueue_stack mk rw_enqueue try_dequeue = (mk direct_size, direct_pop rw_enqueue try_dequeue)"

definition moodycamel_ReaderWriterQueue_heap where
  "moodycamel_ReaderWriterQueue_heap mk rw_enqueue try_dequeue = (mk direct_size, direct_pop rw_enqueue try_dequeue)"

text \<open>The message borrows the loop counter, at \<open>i_addr\<close>.\<close>

definition own_SPSCQueue_heap :: "addr \<Rightarrow> addr \<Rightarrow> (SPSCStorage \<times> MessageView) \<times> (SPSCStorage \<times> MessageView) direct_body" where
  "own_SPSCQueue_heap mem_ptr i_addr =
     (let storage = own_storage direct_size; queue = SPSCQueue_new mem_ptr storage in
      ((storage, MessageView_default),
       direct_view (own_push queue (Message_new i_addr 8 False)) (own_front queue) (own_item queue) own_pop))"

lemmas direct_defs = boost_spsc_queue_stack_def boost_spsc_queue_heap_def rigtorp_SPSCQueue_stack_def
  rigtorp_SPSCQueue_heap_def moodycamel_ReaderWriterQueue_stack_def moodycamel_ReaderWriterQueue_heap_def

section \<open>Properties\<close>

text \<open>A loop body that sends the number through an empty queue and leaves the queue empty.\<close>

definition relays :: "('s \<Rightarrow> bool) \<Rightarrow> 's direct_body \<Rightarrow> bool" where
  "relays idle body \<longleftrightarrow>
     (\<forall>s i acc. idle s \<longrightarrow> (\<exists>s'. body i (s, acc) = Some (Inr (s', acc + i)) \<and> idle s'))"

lemma relays_loop:
  assumes "relays idle body" and "idle s"
  shows "\<exists>s'. direct_loop body is (s, acc) = Some (Inr (s', acc + sum_list is)) \<and> idle s'"
  using assms(2)
proof (induction "is" arbitrary: s acc)
  case (Cons i "is")
  then obtain s' where step: "body i (s, acc) = Some (Inr (s', acc + i))" and "idle s'"
    using assms(1) unfolding relays_def by blast
  from Cons.IH [OF this(2), of "acc + i"] step show ?case by (auto simp: add.assoc)
qed simp

lemma direct_sum:
  "sum_list (map word_of_nat [0..<unat direct_size]) = direct_size * (direct_size - 1) div 2"
proof -
  have "unat direct_size * (unat direct_size - 1) < 2 ^ 64" by (simp add: direct_size_def)
  from sum_upto_half [OF this] show ?thesis
    using sum_sent [of "unat direct_size"] by (simp add: sent_def mult.commute)
qed

lemma relays_runs:
  assumes "relays idle body" and "idle s"
  shows "\<exists>s'. direct_runs k (s, body) = Some (Inr s') \<and> idle s'"
  using assms(2)
proof (induction k arbitrary: s)
  case (Suc k)
  obtain s' where "direct_iteration body s = Some (Inr s')" and "idle s'"
    using relays_loop [OF assms(1) Suc.prems, of "map word_of_nat [0..<unat direct_size]" 0]
    unfolding direct_iteration_def direct_sum by auto
  with Suc.IH show ?case by simp
qed simp

lemma pop_relays:
  assumes "accepting_channel rep push pop"
  shows "relays (\<lambda>s. rep s []) (direct_pop push pop)"
  unfolding relays_def
proof (intro allI impI)
  fix s i acc assume "rep s []"
  then obtain s' where push: "push i s = (True, s')" "rep s' [i]"
    using accepting_channel.push_empty [OF assms] accepting_channel.push_rep' [OF assms, of s "[]" i True]
    by fastforce
  then show "\<exists>s'. direct_pop push pop i (s, acc) = Some (Inr (s', acc + i)) \<and> rep s' []"
    using fifo_channel.pop_first [OF accepting_channel.axioms(1) [OF assms]] by fastforce
qed

text \<open>What a push to an empty queue and a look at its front give.\<close>

lemma front_channel_relay:
  assumes "front_channel rep held push front item pop" and "rep s []"
  obtains s1 s2 where "push i s = (True, s1)" and "front s1 = (True, s2)" and "item s2 = i" and "rep (pop s2) []"
proof -
  obtain s1 where push: "push i s = (True, s1)" "rep s1 [i]"
    using front_channel.push_room [OF assms] front_channel.push_rep [OF assms, of i True] by fastforce
  obtain s2 where "front s1 = (True, s2)" "rep s2 [i]" "held s2"
    using front_channel.front_some [OF assms(1) push(2)] by blast
  with push(1) show thesis
    using that front_channel.item_first [OF assms(1)] front_channel.pop_rest [OF assms(1)] by blast
qed

lemma view_relays:
  assumes "front_channel rep held push front item pop"
  shows "relays (\<lambda>s. rep s []) (direct_view push front item pop)"
  unfolding relays_def
proof (intro allI impI)
  fix s i acc assume "rep s []"
  then show "\<exists>s'. direct_view push front item pop i (s, acc) = Some (Inr (s', acc + i)) \<and> rep s' []"
    by (rule front_channel_relay [OF assms, of s i]) simp
qed

text \<open>A blocking push that behaves as the other one when there is room.\<close>

lemma front_relays:
  assumes "front_channel rep held push front item pop"
    and "\<And>s m s'. push m s = (True, s') \<Longrightarrow> block m s = Some s'"
  shows "relays (\<lambda>s. rep s []) (direct_front block front item pop)"
  unfolding relays_def
proof (intro allI impI)
  fix s i acc assume "rep s []"
  then show "\<exists>s'. direct_front block front item pop i (s, acc) = Some (Inr (s', acc + i)) \<and> rep s' []"
    by (rule front_channel_relay [OF assms(1), of s i]) (simp add: assms(2))
qed

text \<open>
  The benchmark of the queue of the library returns from any number of iterations, without a fault and
  without a failing assertion; so do those of other libraries' queues, if these keep their elements in
  order and accept an element when empty, and the blocking \<^verbatim>\<open>push\<close> then does what \<^verbatim>\<open>try_push\<close> does.
\<close>

theorem direct_benchmarks_pass:
  assumes pop: "accepting_channel rep push pop" "rep (mk direct_size) []"
    and front: "front_channel rep' held try_push front item pop'" "rep' (mk' direct_size) []"
    and block: "\<And>s m s'. try_push m s = (True, s') \<Longrightarrow> block m s = Some s'"
  shows "(\<exists>s. direct_runs k (own_SPSCQueue_heap mem_ptr i_addr) = Some (Inr s)) \<and>
    (\<exists>s. direct_runs k (boost_spsc_queue_stack mk push pop) = Some (Inr s)) \<and>
    (\<exists>s. direct_runs k (boost_spsc_queue_heap mk push pop) = Some (Inr s)) \<and>
    (\<exists>s. direct_runs k (moodycamel_ReaderWriterQueue_stack mk push pop) = Some (Inr s)) \<and>
    (\<exists>s. direct_runs k (moodycamel_ReaderWriterQueue_heap mk push pop) = Some (Inr s)) \<and>
    (\<exists>s. direct_runs k (rigtorp_SPSCQueue_stack mk' block front item pop') = Some (Inr s)) \<and>
    (\<exists>s. direct_runs k (rigtorp_SPSCQueue_heap mk' block front item pop') = Some (Inr s))"
proof -
  have "\<exists>s. direct_runs k (mk direct_size, direct_pop push pop) = Some (Inr s)"
    using relays_runs [OF pop_relays [OF pop(1)] pop(2)] by blast
  moreover have relay: "relays (\<lambda>s. rep' s []) (direct_front block front item pop')"
    using front(1) block by (rule front_relays)
  from relays_runs [OF relay front(2), of k]
  have "\<exists>s. direct_runs k (mk' direct_size, direct_front block front item pop') = Some (Inr s)"
    by blast
  moreover have "own_rep (SPSCQueue_new mem_ptr (own_storage direct_size)) (8 * unat direct_size)
      (own_storage direct_size, MessageView_default) []"
    by (rule own_storage_rep) (simp_all add: direct_size_def)
  from relays_runs [OF view_relays [OF own_queue.front_channel_axioms [where p = i_addr and owned = False]] this, of k]
  have "\<exists>s. direct_runs k (own_SPSCQueue_heap mem_ptr i_addr) = Some (Inr s)"
    unfolding own_SPSCQueue_heap_def Let_def by (elim exE conjE) (rule exI)
  ultimately show ?thesis
    unfolding direct_defs by blast
qed

theorem direct_benchmarks_pass_witness:
  "(\<exists>s. direct_runs 3 (own_SPSCQueue_heap 4096 8192) = Some (Inr s)) \<and>
     (\<exists>s. direct_runs 3 (rigtorp_SPSCQueue_heap (\<lambda>_. []) (\<lambda>m q. Some (q @ [m])) deque_front hd tl) = Some (Inr s))"
proof -
  have "2 \<le> unat direct_size" by (simp add: direct_size_def)
  then have "2 \<le> unat direct_size \<and> rb3_rep (unat direct_size)
      (ringbuffer3_new (replicate (unat direct_size) 0) direct_size) []"
    using rb_fresh(4) [of direct_size "replicate (unat direct_size) 0"] by simp
  moreover have "Some (q @ [m]) = Some q'" if "deque_push m q = (True, q')" for m q q'
    using that by (simp add: deque_push_def)
  ultimately show ?thesis
    using direct_benchmarks_pass [where mk = "\<lambda>c. ringbuffer3_new (replicate (unat c) 0) c"
      and rep' = "(=)" and mk' = "\<lambda>_. []" and block = "\<lambda>m q. Some (q @ [m])" and k = 3,
      OF rb3_accepting.accepting_channel_axioms _ deque_queue.front_channel_axioms refl]
    by blast
qed

end
