(* ===== verification/Counting_Benchmarks.thy ===== *)
theory Counting_Benchmarks
  imports Thread_Benchmarks
begin

text \<open>
  The benchmarks that only count: \<^verbatim>\<open>bench\<close> of \<^verbatim>\<open>examples/SPSC.cpp\<close>, which compares the ring buffers of that
  file, and \<^verbatim>\<open>bench\<close> of \<^verbatim>\<open>bench/bm_SPSCQueue.cpp\<close>, which sends time stamps through the queue of the library
  and now and then prints one that it received. The loops are those of \<open>Queue_Benchmarks\<close>. Pinning of
  threads, durations and rates are left out.
\<close>

section \<open>Ring buffers\<close>

text \<open>
  \<open>q\<close> is the new ring buffer. The elements are the loop counters, of the element type, and the consumer
  keeps the last one in \<^verbatim>\<open>val\<close>, which it does not initialise.
\<close>

definition ring_bench ::
    "'w::len word \<Rightarrow> 's \<Rightarrow> ('w word \<Rightarrow> 's \<Rightarrow> bool \<times> 's) \<Rightarrow> ('s \<Rightarrow> 'w word option \<times> 's) \<Rightarrow>
       ('s, 'w word option) bench \<times> (('s, 'w word option) bench \<Rightarrow> ('s, 'w word option) bench \<Rightarrow> bool)" where
  "ring_bench iters q push pop =
     (bench_start None q, bench_step False ucast None push (consumer_spin (\<lambda>val _. Some val) pop) (ucast iters))"

section \<open>Time stamps\<close>

text \<open>The consumer's counter, and the received stamps from which a latency is printed.\<close>

fun print_latency :: "u64 \<Rightarrow> u64 \<times> u64 list \<Rightarrow> u64 \<times> u64 list" where
  "print_latency srv (counter, printed) =
     (if counter = 30000000 then (0 + 1, printed @ [srv]) else (counter + 1, printed))"

text \<open>
  \<open>mem\<close> is what the allocated buffer happens to hold, \<open>data\<close> the address of the producer's variable,
  \<open>read i\<close> the time stamp taken for the \<open>i\<close>-th message.
\<close>

definition stamp_bench ::
    "byte list \<Rightarrow> addr \<Rightarrow> addr \<Rightarrow> (u64 \<Rightarrow> u64) \<Rightarrow> u64 \<Rightarrow> u64 \<Rightarrow>
       (SPSCStorage \<times> MessageView, u64 \<times> u64 list) bench \<times>
       ((SPSCStorage \<times> MessageView, u64 \<times> u64 list) bench \<Rightarrow>
         (SPSCStorage \<times> MessageView, u64 \<times> u64 list) bench \<Rightarrow> bool)" where
  "stamp_bench mem mem_ptr data read iters buf_size =
     (let storage = SPSCStorage_new (buf_size + BUFFER_OFFSET) mem; q = SPSCQueue_new mem_ptr storage in
      (bench_start (0, []) (storage, MessageView_default),
       bench_step False read (0, []) (own_push q (Message_borrows data 8))
         (consumer_front print_latency (own_front q) (own_item q) own_pop) iters))"

section \<open>Properties\<close>

text \<open>
  A benchmark delivers: whenever the consumer has finished, it has received all elements in order, and
  from every state the threads can get into they can finish.
\<close>

definition delivers ::
    "(u64 \<Rightarrow> 'm) \<Rightarrow> 'a \<Rightarrow> ('m \<Rightarrow> 'a \<Rightarrow> 'a) \<Rightarrow> u64 \<Rightarrow>
       ('s, 'a) bench \<times> (('s, 'a) bench \<Rightarrow> ('s, 'a) bench \<Rightarrow> bool) \<Rightarrow> bool" where
  "delivers elem a use n bm \<longleftrightarrow> (\<forall>b. (snd bm)\<^sup>*\<^sup>* (fst bm) b \<longrightarrow>
     (b_pc b = Finished \<longrightarrow> b_acc b = fold use (map (\<lambda>k. elem (word_of_nat k)) [0..<unat n]) a) \<and>
     (\<exists>b'. (snd bm)\<^sup>*\<^sup>* b b' \<and> b_pc b' = Finished))"

lemma deliversI:
  assumes "\<And>b. step\<^sup>*\<^sup>* (bench_start a s) b \<Longrightarrow>
    bench_inv elem a use strict rep held n b \<and> (\<exists>b'. step\<^sup>*\<^sup>* b b' \<and> b_pc b' = Finished)"
  shows "delivers elem a use n (bench_start a s, step)"
  using assms by (auto simp: delivers_def bench_inv_def sent_def)

lemma ring_bench_delivers:
  assumes "accepting_channel rep push pop" and "rep q []"
  shows "delivers ucast None (\<lambda>val _. Some val) (ucast iters) (ring_bench iters q push pop)"
  unfolding ring_bench_def
  by (rule deliversI [OF accepting_channel.spin_reach [OF assms]])



end
