(* ===== verification/Mpmc_Queue.thy ===== *)
theory Mpmc_Queue
  imports Ipc_Prelude
begin

text \<open>
  \<^verbatim>\<open>examples/mpmc.hpp\<close>: the bounded multi-producer multi-consumer queue of the examples. A producer
  takes a ticket from \<^verbatim>\<open>head_\<close>, a consumer one from \<^verbatim>\<open>tail_\<close>; ticket \<open>i\<close> belongs to slot \<open>i mod capacity\<close>,
  whose \<^verbatim>\<open>turn\<close> says whose access is due. Any number of threads, each with a program counter at its next
  access to shared memory, run interleaved; an access is one step of a sequentially consistent memory.
\<close>

section \<open>Slots\<close>

text \<open>The storage of a slot is raw (\<open>None\<close>) or holds a live object.\<close>

record 'a Slot =
  slot_turn :: u64
  slot_storage :: "'a option"

definition Slot_new :: "'a Slot" where
  "Slot_new = \<lparr>slot_turn = 0, slot_storage = None\<rparr>"

text \<open>
  Constructing over a live object loses it, moving from or destroying raw storage is undefined:
  \<open>None\<close>.
\<close>

definition construct :: "'a \<Rightarrow> 'a Slot \<Rightarrow> 'a Slot option" where
  "construct v s =
     (case slot_storage s of None \<Rightarrow> Some (s\<lparr>slot_storage := Some v\<rparr>) | Some _ \<Rightarrow> None)"

definition destroy :: "'a Slot \<Rightarrow> 'a Slot option" where
  "destroy s =
     (case slot_storage s of None \<Rightarrow> None | Some _ \<Rightarrow> Some (s\<lparr>slot_storage := None\<rparr>))"

definition move :: "'a Slot \<Rightarrow> 'a option" where
  "move s = slot_storage s"

definition Slot_destroy :: "'a Slot \<Rightarrow> 'a Slot option" where
  "Slot_destroy s = (if slot_turn s AND 1 \<noteq> 0 then destroy s else Some s)"

section \<open>The queue\<close>

record 'a Queue =
  mq_capacity :: u64
  mq_slots :: "'a Slot list"
  mq_head :: u64
  mq_tail :: u64

datatype mpmc_exception = invalid_argument string | bad_alloc

text \<open>
  The allocator answers with an address or fails. The one extra slot it allocates is never used and
  left out here.
\<close>

definition Queue_new :: "u64 \<Rightarrow> addr option \<Rightarrow> mpmc_exception + 'a Queue" where
  "Queue_new capacity allocated =
     (if capacity < 1 then Inl (invalid_argument ''capacity < 1'')
      else case allocated of
        None \<Rightarrow> Inl bad_alloc
      | Some p \<Rightarrow>
          if p mod 64 \<noteq> 0 then Inl bad_alloc
          else Inr \<lparr>mq_capacity = capacity, mq_slots = replicate (unat capacity) Slot_new,
                    mq_head = 0, mq_tail = 0\<rparr>)"

text \<open>
  The destructor destroys the slots, giving their last states here, before the memory goes back to
  the allocator.
\<close>

definition Queue_destroy :: "'a Queue \<Rightarrow> 'a Slot list option" where
  "Queue_destroy q = those (map Slot_destroy (mq_slots q))"

definition idx :: "'a Queue \<Rightarrow> u64 \<Rightarrow> u64" where
  "idx q i = i mod mq_capacity q"

definition turn :: "'a Queue \<Rightarrow> u64 \<Rightarrow> u64" where
  "turn q i = i div mq_capacity q"

definition mpmc_size :: "'a Queue \<Rightarrow> int" where
  "mpmc_size q = sint (mq_head q - mq_tail q)"

definition mpmc_empty :: "'a Queue \<Rightarrow> bool" where
  "mpmc_empty q \<longleftrightarrow> mpmc_size q \<le> 0"

section \<open>The operations, access by access\<close>

datatype 'a mpmc_result = Nothing | Pushed bool | Popped "'a option"

datatype 'a mpmc_pc =
    Returned "'a mpmc_result"
  | Emplace 'a
  | Emplace_Wait 'a u64
  | Construct 'a u64
  | Publish u64
  | Try_Emplace 'a
  | Try_Emplace_Check 'a u64
  | Try_Emplace_Cas 'a u64
  | Try_Emplace_Reload 'a u64
  | Pop
  | Pop_Wait u64
  | Move u64
  | Destroy u64 'a
  | Release u64 'a
  | Try_Pop
  | Try_Pop_Check u64
  | Try_Pop_Cas u64
  | Try_Pop_Reload u64

definition with_slot :: "'a Queue \<Rightarrow> u64 \<Rightarrow> 'a Slot \<Rightarrow> 'a Queue" where
  "with_slot q i s = q\<lparr>mq_slots := (mq_slots q)[unat (idx q i) := s]\<rparr>"

definition slot_at :: "'a Queue \<Rightarrow> u64 \<Rightarrow> 'a Slot" where
  "slot_at q i = mq_slots q ! unat (idx q i)"

text \<open>
  \<open>None\<close> is undefined behaviour. A successful \<^verbatim>\<open>compare_exchange_strong\<close> leaves the local \<^verbatim>\<open>head\<close> as it
  is, a failed one loads the current value into it.
\<close>

fun mpmc_act :: "'a mpmc_pc \<Rightarrow> 'a Queue \<Rightarrow> ('a mpmc_pc \<times> 'a Queue) option" where
  "mpmc_act (Returned r) q = Some (Returned r, q)"
| "mpmc_act (Emplace v) q = Some (Emplace_Wait v (mq_head q), q\<lparr>mq_head := mq_head q + 1\<rparr>)"
| "mpmc_act (Emplace_Wait v head) q =
     Some (if turn q head * 2 \<noteq> slot_turn (slot_at q head) then Emplace_Wait v head
           else Construct v head, q)"
| "mpmc_act (Construct v head) q =
     (case construct v (slot_at q head) of
        None \<Rightarrow> None
      | Some s \<Rightarrow> Some (Publish head, with_slot q head s))"
| "mpmc_act (Publish head) q =
     Some (Returned (Pushed True),
           with_slot q head ((slot_at q head)\<lparr>slot_turn := turn q head * 2 + 1\<rparr>))"
| "mpmc_act (Try_Emplace v) q = Some (Try_Emplace_Check v (mq_head q), q)"
| "mpmc_act (Try_Emplace_Check v head) q =
     Some (if turn q head * 2 = slot_turn (slot_at q head) then Try_Emplace_Cas v head
           else Try_Emplace_Reload v head, q)"
| "mpmc_act (Try_Emplace_Cas v head) q =
     Some (if mq_head q = head then (Construct v head, q\<lparr>mq_head := head + 1\<rparr>)
           else (Try_Emplace_Check v (mq_head q), q))"
| "mpmc_act (Try_Emplace_Reload v prevHead) q =
     Some (if mq_head q = prevHead then Returned (Pushed False)
           else Try_Emplace_Check v (mq_head q), q)"
| "mpmc_act Pop q = Some (Pop_Wait (mq_tail q), q\<lparr>mq_tail := mq_tail q + 1\<rparr>)"
| "mpmc_act (Pop_Wait tail) q =
     Some (if turn q tail * 2 + 1 \<noteq> slot_turn (slot_at q tail) then Pop_Wait tail else Move tail, q)"
| "mpmc_act (Move tail) q =
     (case move (slot_at q tail) of None \<Rightarrow> None | Some v \<Rightarrow> Some (Destroy tail v, q))"
| "mpmc_act (Destroy tail v) q =
     (case destroy (slot_at q tail) of
        None \<Rightarrow> None
      | Some s \<Rightarrow> Some (Release tail v, with_slot q tail s))"
| "mpmc_act (Release tail v) q =
     Some (Returned (Popped (Some v)),
           with_slot q tail ((slot_at q tail)\<lparr>slot_turn := turn q tail * 2 + 2\<rparr>))"
| "mpmc_act Try_Pop q = Some (Try_Pop_Check (mq_tail q), q)"
| "mpmc_act (Try_Pop_Check tail) q =
     Some (if turn q tail * 2 + 1 = slot_turn (slot_at q tail) then Try_Pop_Cas tail
           else Try_Pop_Reload tail, q)"
| "mpmc_act (Try_Pop_Cas tail) q =
     Some (if mq_tail q = tail then (Move tail, q\<lparr>mq_tail := tail + 1\<rparr>)
           else (Try_Pop_Check (mq_tail q), q))"
| "mpmc_act (Try_Pop_Reload prevTail) q =
     Some (if mq_tail q = prevTail then Returned (Popped None) else Try_Pop_Check (mq_tail q), q)"

text \<open>The public operations: \<^verbatim>\<open>push\<close> and \<^verbatim>\<open>try_push\<close> forward to \<^verbatim>\<open>emplace\<close> and \<^verbatim>\<open>try_emplace\<close>.\<close>

datatype 'a mpmc_call = Call_push 'a | Call_try_push 'a | Call_pop | Call_try_pop

fun mpmc_begin :: "'a mpmc_call \<Rightarrow> 'a mpmc_pc" where
  "mpmc_begin (Call_push v) = Emplace v"
| "mpmc_begin (Call_try_push v) = Try_Emplace v"
| "mpmc_begin Call_pop = Pop"
| "mpmc_begin Call_try_pop = Try_Pop"

section \<open>Threads\<close>

text \<open>
  Besides the queue and the program counters: the pushed values by ticket, the number of tickets the
  consumers have taken, and the tickets and values of the finished pops.
\<close>

record 'a mpmc_system =
  ms_queue :: "'a Queue"
  ms_pcs :: "nat \<Rightarrow> 'a mpmc_pc"
  ms_sent :: "'a list"
  ms_taken :: nat
  ms_log :: "(u64 \<times> 'a) list"

definition mpmc_start :: "'a Queue \<Rightarrow> 'a mpmc_system" where
  "mpmc_start q =
     \<lparr>ms_queue = q, ms_pcs = \<lambda>_. Returned Nothing, ms_sent = [], ms_taken = 0, ms_log = []\<rparr>"

definition sends :: "'a mpmc_pc \<Rightarrow> 'a Queue \<Rightarrow> 'a list" where
  "sends pc q =
     (case pc of
        Emplace v \<Rightarrow> [v]
      | Try_Emplace_Cas v head \<Rightarrow> if mq_head q = head then [v] else []
      | _ \<Rightarrow> [])"

definition takes :: "'a mpmc_pc \<Rightarrow> 'a Queue \<Rightarrow> nat" where
  "takes pc q =
     (case pc of
        Pop \<Rightarrow> 1
      | Try_Pop_Cas tail \<Rightarrow> if mq_tail q = tail then 1 else 0
      | _ \<Rightarrow> 0)"

definition logs :: "'a mpmc_pc \<Rightarrow> (u64 \<times> 'a) list" where
  "logs pc = (case pc of Release tail v \<Rightarrow> [(tail, v)] | _ \<Rightarrow> [])"

inductive mpmc_step :: "'a mpmc_system \<Rightarrow> 'a mpmc_system \<Rightarrow> bool" where
  call: "ms_pcs c k = Returned r \<Longrightarrow>
    mpmc_step c (c\<lparr>ms_pcs := (ms_pcs c)(k := mpmc_begin op)\<rparr>)"
| act: "mpmc_act (ms_pcs c k) (ms_queue c) = Some (pc, q) \<Longrightarrow>
    mpmc_step c
      (c\<lparr>ms_queue := q, ms_pcs := (ms_pcs c)(k := pc),
         ms_sent := ms_sent c @ sends (ms_pcs c k) (ms_queue c),
         ms_taken := ms_taken c + takes (ms_pcs c k) (ms_queue c),
         ms_log := ms_log c @ logs (ms_pcs c k)\<rparr>)"

section \<open>Tickets as natural numbers\<close>

abbreviation "cap q \<equiv> unat (mq_capacity q)"

definition tv :: "'a Queue \<Rightarrow> nat \<Rightarrow> nat" where
  "tv q t = unat (slot_turn (mq_slots q ! (t mod cap q)))"

definition st :: "'a Queue \<Rightarrow> nat \<Rightarrow> 'a option" where
  "st q t = slot_storage (mq_slots q ! (t mod cap q))"

definition rnd :: "'a Queue \<Rightarrow> nat \<Rightarrow> nat" where
  "rnd q t = t div cap q"

definition same_slot :: "'a Queue \<Rightarrow> nat \<Rightarrow> nat \<Rightarrow> bool" where
  "same_slot q t t' \<longleftrightarrow> t mod cap q = t' mod cap q"

definition shaped :: "'a Queue \<Rightarrow> bool" where
  "shaped q \<longleftrightarrow> 0 < cap q \<and> length (mq_slots q) = cap q"

lemma ticket_eq: "same_slot q t t' \<Longrightarrow> rnd q t = rnd q t' \<Longrightarrow> t = t'"
  unfolding same_slot_def rnd_def by (metis div_mult_mod_eq)

lemma same_slot_refl [simp]: "same_slot q t t"
  by (simp add: same_slot_def)

lemma same_slot_values: "same_slot q t t' \<Longrightarrow> tv q t = tv q t' \<and> st q t = st q t'"
  by (simp add: same_slot_def tv_def st_def)

lemma unat_idx: "unat (idx q i) = unat i mod cap q"
  by (simp add: idx_def unat_mod_u64)

lemma slot_at_values [simp]: "unat (slot_turn (slot_at q h)) = tv q (unat h)"
  "slot_storage (slot_at q h) = st q (unat h)"
  by (simp_all add: slot_at_def tv_def st_def unat_idx)

lemma unat_turn:
  assumes "unat h < 2 ^ 62"
  shows "unat (turn q h * 2) = 2 * rnd q (unat h)" "unat (turn q h * 2 + 1) = 2 * rnd q (unat h) + 1"
    "unat (turn q h * 2 + 2) = 2 * rnd q (unat h) + 2"
proof -
  have "unat (turn q h) = rnd q (unat h)"
    by (simp add: turn_def rnd_def unat_div_u64)
  moreover have "rnd q (unat h) \<le> unat h"
    by (simp add: rnd_def)
  ultimately show "unat (turn q h * 2) = 2 * rnd q (unat h)"
    "unat (turn q h * 2 + 1) = 2 * rnd q (unat h) + 1" "unat (turn q h * 2 + 2) = 2 * rnd q (unat h) + 2"
    using assms by (simp_all add: unat_word_ariths)
qed

lemma turn_eq_iff:
  assumes "unat h < 2 ^ 62"
  shows "turn q h * 2 = slot_turn (slot_at q h) \<longleftrightarrow> tv q (unat h) = 2 * rnd q (unat h)"
    and "turn q h * 2 + 1 = slot_turn (slot_at q h) \<longleftrightarrow> tv q (unat h) = 2 * rnd q (unat h) + 1"
  using unat_turn [OF assms, of q] by (auto simp: u64_eq_iff)

lemma with_slot_simps [simp]:
  "mq_capacity (with_slot q h s) = mq_capacity q" "mq_head (with_slot q h s) = mq_head q"
  "mq_tail (with_slot q h s) = mq_tail q" "rnd (with_slot q h s) = rnd q"
  "shaped (with_slot q h s) = shaped q" "same_slot (with_slot q h s) = same_slot q"
  by (simp_all add: with_slot_def rnd_def fun_eq_iff shaped_def same_slot_def)

lemma with_slot_values:
  assumes "shaped q"
  shows "tv (with_slot q h s) t = (if same_slot q t (unat h) then unat (slot_turn s) else tv q t)"
    and "st (with_slot q h s) t = (if same_slot q t (unat h) then slot_storage s else st q t)"
  using assms by (auto simp: tv_def st_def with_slot_def unat_idx shaped_def same_slot_def nth_list_update)

lemma head_tail_values [simp]:
  "tv (q\<lparr>mq_head := h\<rparr>) = tv q" "st (q\<lparr>mq_head := h\<rparr>) = st q" "rnd (q\<lparr>mq_head := h\<rparr>) = rnd q"
  "tv (q\<lparr>mq_tail := h\<rparr>) = tv q" "st (q\<lparr>mq_tail := h\<rparr>) = st q" "rnd (q\<lparr>mq_tail := h\<rparr>) = rnd q"
  "shaped (q\<lparr>mq_head := h\<rparr>) = shaped q" "shaped (q\<lparr>mq_tail := h\<rparr>) = shaped q"
  "same_slot (q\<lparr>mq_head := h\<rparr>) = same_slot q" "same_slot (q\<lparr>mq_tail := h\<rparr>) = same_slot q"
  by (simp_all add: tv_def st_def rnd_def fun_eq_iff shaped_def same_slot_def)

section \<open>The invariant\<close>

fun push_ticket :: "'a mpmc_pc \<Rightarrow> nat option" where
  "push_ticket (Emplace_Wait v t) = Some (unat t)"
| "push_ticket (Construct v t) = Some (unat t)"
| "push_ticket (Publish t) = Some (unat t)"
| "push_ticket _ = None"

fun pop_ticket :: "'a mpmc_pc \<Rightarrow> nat option" where
  "pop_ticket (Pop_Wait t) = Some (unat t)"
| "pop_ticket (Move t) = Some (unat t)"
| "pop_ticket (Destroy t v) = Some (unat t)"
| "pop_ticket (Release t v) = Some (unat t)"
| "pop_ticket _ = None"

text \<open>What a thread at a program counter relies on, of the tickets issued and of its slot.\<close>

fun thread_ok :: "'a Queue \<Rightarrow> 'a list \<Rightarrow> nat \<Rightarrow> 'a mpmc_pc \<Rightarrow> bool" where
  "thread_ok q sent taken (Emplace_Wait v t) \<longleftrightarrow>
     unat t < length sent \<and> v = sent ! unat t \<and> tv q (unat t) \<le> 2 * rnd q (unat t)"
| "thread_ok q sent taken (Construct v t) \<longleftrightarrow>
     unat t < length sent \<and> v = sent ! unat t \<and> tv q (unat t) = 2 * rnd q (unat t) \<and>
     st q (unat t) = None"
| "thread_ok q sent taken (Publish t) \<longleftrightarrow>
     unat t < length sent \<and> tv q (unat t) = 2 * rnd q (unat t) \<and> st q (unat t) = Some (sent ! unat t)"
| "thread_ok q sent taken (Try_Emplace_Check v t) \<longleftrightarrow> unat t \<le> length sent"
| "thread_ok q sent taken (Try_Emplace_Cas v t) \<longleftrightarrow>
     unat t \<le> length sent \<and> 2 * rnd q (unat t) \<le> tv q (unat t)"
| "thread_ok q sent taken (Try_Emplace_Reload v t) \<longleftrightarrow> unat t \<le> length sent"
| "thread_ok q sent taken (Pop_Wait t) \<longleftrightarrow> unat t < taken \<and> tv q (unat t) \<le> 2 * rnd q (unat t) + 1"
| "thread_ok q sent taken (Move t) \<longleftrightarrow>
     unat t < taken \<and> unat t < length sent \<and> tv q (unat t) = 2 * rnd q (unat t) + 1 \<and>
     st q (unat t) = Some (sent ! unat t)"
| "thread_ok q sent taken (Destroy t v) \<longleftrightarrow>
     unat t < taken \<and> unat t < length sent \<and> tv q (unat t) = 2 * rnd q (unat t) + 1 \<and>
     v = sent ! unat t \<and> st q (unat t) = Some v"
| "thread_ok q sent taken (Release t v) \<longleftrightarrow>
     unat t < taken \<and> unat t < length sent \<and> tv q (unat t) = 2 * rnd q (unat t) + 1 \<and>
     v = sent ! unat t \<and> st q (unat t) = None"
| "thread_ok q sent taken (Try_Pop_Check t) \<longleftrightarrow> unat t \<le> taken"
| "thread_ok q sent taken (Try_Pop_Cas t) \<longleftrightarrow>
     unat t \<le> taken \<and> 2 * rnd q (unat t) + 1 \<le> tv q (unat t)"
| "thread_ok q sent taken (Try_Pop_Reload t) \<longleftrightarrow> unat t \<le> taken"
| "thread_ok q sent taken _ \<longleftrightarrow> True"

definition unique :: "('k \<Rightarrow> 't option) \<Rightarrow> bool" where
  "unique f \<longleftrightarrow> (\<forall>j k t. f j = Some t \<longrightarrow> f k = Some t \<longrightarrow> j = k)"

text \<open>A turn only passes a ticket that was issued, and each ticket is held or done.\<close>

definition turns_ok :: "'a Queue \<Rightarrow> nat \<Rightarrow> nat \<Rightarrow> bool" where
  "turns_ok q issued taken \<longleftrightarrow>
     (\<forall>t. 2 * rnd q t < tv q t \<longrightarrow> t < issued) \<and> (\<forall>t. 2 * rnd q t + 1 < tv q t \<longrightarrow> t < taken)"

definition held_or_done :: "'a Queue \<Rightarrow> (nat \<Rightarrow> 'a mpmc_pc) \<Rightarrow> nat \<Rightarrow> nat \<Rightarrow> bool" where
  "held_or_done q pcs issued taken \<longleftrightarrow>
     (\<forall>t < issued. (\<exists>k. push_ticket (pcs k) = Some t) \<or> 2 * rnd q t < tv q t) \<and>
     (\<forall>t < taken. (\<exists>k. pop_ticket (pcs k) = Some t) \<or> 2 * rnd q t + 1 < tv q t)"

text \<open>
  Storage is live exactly when the turn is odd, except for the slots of threads between their
  access and the store of the new turn.
\<close>

definition storage_ok :: "'a Queue \<Rightarrow> (nat \<Rightarrow> 'a mpmc_pc) \<Rightarrow> 'a list \<Rightarrow> bool" where
  "storage_ok q pcs sent \<longleftrightarrow>
     (\<forall>t. tv q t = 2 * rnd q t \<longrightarrow> st q t = None \<or> (\<exists>k h. pcs k = Publish h \<and> unat h = t)) \<and>
     (\<forall>t. tv q t = 2 * rnd q t + 1 \<longrightarrow>
        st q t = Some (sent ! t) \<or> (\<exists>k h v. pcs k = Release h v \<and> unat h = t))"

definition log_ok :: "'a Queue \<Rightarrow> 'a list \<Rightarrow> (u64 \<times> 'a) list \<Rightarrow> bool" where
  "log_ok q sent log \<longleftrightarrow> distinct (map fst log) \<and>
     (\<forall>(h, v) \<in> set log. unat h < length sent \<and> v = sent ! unat h \<and>
        2 * rnd q (unat h) + 1 < tv q (unat h)) \<and>
     (\<forall>t. 2 * rnd q t + 1 < tv q t \<longrightarrow> (\<exists>h v. (h, v) \<in> set log \<and> unat h = t))"

definition mpmc_inv :: "'a mpmc_system \<Rightarrow> bool" where
  "mpmc_inv c \<longleftrightarrow>
     shaped (ms_queue c) \<and>
     unat (mq_head (ms_queue c)) = length (ms_sent c) \<and> unat (mq_tail (ms_queue c)) = ms_taken c \<and>
     (\<forall>k. thread_ok (ms_queue c) (ms_sent c) (ms_taken c) (ms_pcs c k)) \<and>
     unique (push_ticket \<circ> ms_pcs c) \<and> unique (pop_ticket \<circ> ms_pcs c) \<and>
     turns_ok (ms_queue c) (length (ms_sent c)) (ms_taken c) \<and>
     held_or_done (ms_queue c) (ms_pcs c) (length (ms_sent c)) (ms_taken c) \<and>
     storage_ok (ms_queue c) (ms_pcs c) (ms_sent c) \<and>
     log_ok (ms_queue c) (ms_sent c) (ms_log c)"

lemma head_tail_irrelevant [simp]:
  "turns_ok (q\<lparr>mq_head := h\<rparr>) = turns_ok q" "turns_ok (q\<lparr>mq_tail := h\<rparr>) = turns_ok q"
  "held_or_done (q\<lparr>mq_head := h\<rparr>) = held_or_done q" "held_or_done (q\<lparr>mq_tail := h\<rparr>) = held_or_done q"
  "storage_ok (q\<lparr>mq_head := h\<rparr>) = storage_ok q" "storage_ok (q\<lparr>mq_tail := h\<rparr>) = storage_ok q"
  "log_ok (q\<lparr>mq_head := h\<rparr>) = log_ok q" "log_ok (q\<lparr>mq_tail := h\<rparr>) = log_ok q"
  by (simp_all add: fun_eq_iff turns_ok_def held_or_done_def storage_ok_def log_ok_def)

lemma thread_ok_head_tail [simp]:
  "thread_ok (q\<lparr>mq_head := h\<rparr>) sent taken p = thread_ok q sent taken p"
  "thread_ok (q\<lparr>mq_tail := h\<rparr>) sent taken p = thread_ok q sent taken p"
  by (cases p; simp)+

section \<open>Steps that only move a thread\<close>

definition in_slot :: "'a mpmc_pc \<Rightarrow> bool" where
  "in_slot pc \<longleftrightarrow> (\<exists>t. pc = Publish t) \<or> (\<exists>t v. pc = Release t v)"

lemma unique_cong: "f \<circ> pcs' = f \<circ> pcs \<Longrightarrow> unique (f \<circ> pcs) \<Longrightarrow> unique (f \<circ> pcs')"
  by simp

lemma fun_upd_same_ticket:
  "f p = f (pcs k) \<Longrightarrow> f \<circ> pcs(k := p) = f \<circ> pcs"
  by (auto simp: fun_eq_iff)

lemma storage_ok_upd:
  assumes "storage_ok q pcs sent" and "\<not> in_slot (pcs k)"
  shows "storage_ok q (pcs(k := p)) sent"
proof -
  have "\<exists>j h. (pcs(k := p)) j = Publish h \<and> unat h = t" if "\<exists>j h. pcs j = Publish h \<and> unat h = t" for t
    using that assms(2) by (fastforce simp: in_slot_def)
  moreover have "\<exists>j h v. (pcs(k := p)) j = Release h v \<and> unat h = t"
    if "\<exists>j h v. pcs j = Release h v \<and> unat h = t" for t
    using that assms(2) by (fastforce simp: in_slot_def)
  ultimately show ?thesis
    using assms(1) unfolding storage_ok_def by blast
qed

lemma held_or_done_upd:
  assumes "held_or_done q pcs issued taken"
    and "push_ticket p = push_ticket (pcs k)" and "pop_ticket p = pop_ticket (pcs k)"
  shows "held_or_done q (pcs(k := p)) issued taken"
proof -
  have "push_ticket ((pcs(k := p)) j) = push_ticket (pcs j)" "pop_ticket ((pcs(k := p)) j) = pop_ticket (pcs j)" for j
    using assms(2,3) by auto
  then show ?thesis using assms(1) by (simp add: held_or_done_def)
qed

lemma mpmc_inv_local:
  assumes inv: "mpmc_inv c"
    and tk: "push_ticket p = push_ticket (ms_pcs c k)" "pop_ticket p = pop_ticket (ms_pcs c k)"
    and out: "\<not> in_slot (ms_pcs c k)"
    and ok: "thread_ok (ms_queue c) (ms_sent c) (ms_taken c) p"
  shows "mpmc_inv (c\<lparr>ms_pcs := (ms_pcs c)(k := p)\<rparr>)"
  using inv ok storage_ok_upd [where pcs = "ms_pcs c" and k = k, OF _ out]
    held_or_done_upd [where pcs = "ms_pcs c" and k = k, OF _ tk]
    fun_upd_same_ticket [where pcs = "ms_pcs c" and k = k, OF tk(1)]
    fun_upd_same_ticket [where pcs = "ms_pcs c" and k = k, OF tk(2)]
  by (auto simp: mpmc_inv_def)

text \<open>A slot whose turn is due for a ticket that a waiting thread holds is in the right state.\<close>

lemma due_push:
  assumes inv: "mpmc_inv c" and k: "push_ticket (ms_pcs c k) = Some t" and out: "\<not> in_slot (ms_pcs c k)"
    and due: "tv (ms_queue c) t = 2 * rnd (ms_queue c) t"
  shows "st (ms_queue c) t = None"
proof (rule ccontr)
  assume "st (ms_queue c) t \<noteq> None"
  then obtain j h where "ms_pcs c j = Publish h" "unat h = t"
    using inv due by (auto simp: mpmc_inv_def storage_ok_def)
  moreover from this have "j = k"
    using inv k by (auto simp: mpmc_inv_def unique_def)
  ultimately show False using out by (simp add: in_slot_def)
qed

lemma due_pop:
  assumes inv: "mpmc_inv c" and k: "pop_ticket (ms_pcs c k) = Some t" and out: "\<not> in_slot (ms_pcs c k)"
    and due: "tv (ms_queue c) t = 2 * rnd (ms_queue c) t + 1"
  shows "st (ms_queue c) t = Some (ms_sent c ! t) \<and> t < length (ms_sent c)"
proof
  show "t < length (ms_sent c)"
    using inv due by (simp add: mpmc_inv_def turns_ok_def)
  show "st (ms_queue c) t = Some (ms_sent c ! t)"
  proof (rule ccontr)
    assume "st (ms_queue c) t \<noteq> Some (ms_sent c ! t)"
    then obtain j h v where "ms_pcs c j = Release h v" "unat h = t"
      using inv due by (auto simp: mpmc_inv_def storage_ok_def)
    moreover from this have "j = k"
      using inv k by (auto simp: mpmc_inv_def unique_def)
    ultimately show False using out by (simp add: in_slot_def)
  qed
qed

section \<open>Steps that take a ticket\<close>

lemma unique_upd_new:
  assumes "unique (f \<circ> pcs)" and "\<And>j. f (pcs j) \<noteq> Some t" and "f p = Some t"
  shows "unique (f \<circ> pcs(k := p))"
  using assms unfolding unique_def comp_def by (auto split: if_splits)

lemma unique_upd_none:
  assumes "unique (f \<circ> pcs)" and "f p = None"
  shows "unique (f \<circ> pcs(k := p))"
  using assms unfolding unique_def comp_def by (auto split: if_splits)

lemma held_upd:
  "\<exists>j. f (pcs j) = Some t \<Longrightarrow> f (pcs k) = None \<Longrightarrow> \<exists>j. f ((pcs(k := p)) j) = Some t"
  by (metis fun_upd_other option.distinct(1))

text \<open>A thread without tickets takes the next one of one kind.\<close>

lemma held_or_done_ticket:
  assumes "held_or_done q pcs n m" and "push_ticket (pcs k) = None" and "pop_ticket (pcs k) = None"
  shows "push_ticket p = Some n \<Longrightarrow> held_or_done q (pcs(k := p)) (Suc n) m"
    and "pop_ticket p = Some m \<Longrightarrow> held_or_done q (pcs(k := p)) n (Suc m)"
proof -
  have push: "\<exists>j. push_ticket ((pcs(k := p)) j) = Some t" if "\<exists>j. push_ticket (pcs j) = Some t" for t
    using held_upd [of push_ticket pcs t k p] that assms(2) by simp
  have pop: "\<exists>j. pop_ticket ((pcs(k := p)) j) = Some t" if "\<exists>j. pop_ticket (pcs j) = Some t" for t
    using held_upd [of pop_ticket pcs t k p] that assms(3) by simp
  have new: "\<exists>j. f ((pcs(k := p)) j) = Some t" if "f p = Some t" for f :: "'a mpmc_pc \<Rightarrow> nat option" and t
    using that by (intro exI [of _ k]) simp
  show "held_or_done q (pcs(k := p)) (Suc n) m" if "push_ticket p = Some n"
    using assms(1) push pop new [of push_ticket, OF that] unfolding held_or_done_def less_Suc_eq by blast
  show "held_or_done q (pcs(k := p)) n (Suc m)" if "pop_ticket p = Some m"
    using assms(1) push pop new [of pop_ticket, OF that] unfolding held_or_done_def less_Suc_eq by blast
qed

lemma thread_ok_sent: "thread_ok q sent taken pc \<Longrightarrow> thread_ok q (sent @ [v]) taken pc"
  by (cases pc) (auto simp: nth_append)

lemma thread_ok_taken: "thread_ok q sent taken pc \<Longrightarrow> thread_ok q sent (Suc taken) pc"
  by (cases pc) auto

lemma storage_ok_sent:
  "storage_ok q pcs sent \<Longrightarrow> turns_ok q (length sent) taken \<Longrightarrow> storage_ok q pcs (sent @ [v])"
  by (auto simp: storage_ok_def turns_ok_def nth_append)

lemma push_ticket_bound: "thread_ok q sent taken pc \<Longrightarrow> push_ticket pc = Some t \<Longrightarrow> t < length sent"
  by (cases pc) auto

lemma pop_ticket_bound: "thread_ok q sent taken pc \<Longrightarrow> pop_ticket pc = Some t \<Longrightarrow> t < taken"
  by (cases pc) auto

lemma mpmc_inv_push_ticket:
  assumes inv: "mpmc_inv c" and small: "length (ms_sent c) < 2 ^ 62"
    and none: "push_ticket (ms_pcs c k) = None" "pop_ticket (ms_pcs c k) = None"
    and p: "push_ticket p = Some (length (ms_sent c))" "pop_ticket p = None"
      "thread_ok (ms_queue c) (ms_sent c @ [v]) (ms_taken c) p"
  shows "mpmc_inv (c\<lparr>ms_queue := (ms_queue c)\<lparr>mq_head := mq_head (ms_queue c) + 1\<rparr>,
    ms_pcs := (ms_pcs c)(k := p), ms_sent := ms_sent c @ [v]\<rparr>)"
proof -
  let ?q = "ms_queue c" and ?pcs = "(ms_pcs c)(k := p)"
  have ok: "thread_ok ?q (ms_sent c) (ms_taken c) (ms_pcs c j)" for j
    using inv by (simp add: mpmc_inv_def)
  have out: "\<not> in_slot (ms_pcs c k)" using none by (auto simp: in_slot_def)
  have small': "unat (mq_head ?q + 1) = length (ms_sent c @ [v])"
    using inv small by (simp add: mpmc_inv_def unat_word_ariths)
  have ok': "thread_ok ?q (ms_sent c @ [v]) (ms_taken c) (?pcs j)" for j
    using p(3) thread_ok_sent [OF ok] by simp
  have un: "unique (push_ticket \<circ> ?pcs)" "unique (pop_ticket \<circ> ?pcs)"
    using inv push_ticket_bound [OF ok] p(1,2)
    by (fastforce simp: mpmc_inv_def intro: unique_upd_new [where t = "length (ms_sent c)"] unique_upd_none)+
  have "turns_ok ?q (length (ms_sent c @ [v])) (ms_taken c)"
    using inv by (fastforce simp: mpmc_inv_def turns_ok_def)
  moreover have "held_or_done ?q ?pcs (length (ms_sent c @ [v])) (ms_taken c)"
    using inv held_or_done_ticket [of ?q "ms_pcs c" _ _ k p] none p(1,2) by (simp add: mpmc_inv_def)
  moreover have "storage_ok ?q ?pcs (ms_sent c @ [v])"
    using inv storage_ok_upd [of ?q "ms_pcs c" _ k p] out storage_ok_sent
    by (fastforce simp: mpmc_inv_def)
  moreover have "log_ok ?q (ms_sent c @ [v]) (ms_log c)"
    using inv by (fastforce simp: mpmc_inv_def log_ok_def nth_append)
  ultimately show ?thesis
    using inv small' ok' un by (simp add: mpmc_inv_def)
qed

lemma mpmc_inv_pop_ticket:
  assumes inv: "mpmc_inv c" and small: "ms_taken c < 2 ^ 62"
    and none: "push_ticket (ms_pcs c k) = None" "pop_ticket (ms_pcs c k) = None"
    and p: "pop_ticket p = Some (ms_taken c)" "push_ticket p = None"
      "thread_ok (ms_queue c) (ms_sent c) (Suc (ms_taken c)) p"
  shows "mpmc_inv (c\<lparr>ms_queue := (ms_queue c)\<lparr>mq_tail := mq_tail (ms_queue c) + 1\<rparr>,
    ms_pcs := (ms_pcs c)(k := p), ms_taken := Suc (ms_taken c)\<rparr>)"
proof -
  let ?q = "ms_queue c" and ?pcs = "(ms_pcs c)(k := p)"
  have ok: "thread_ok ?q (ms_sent c) (ms_taken c) (ms_pcs c j)" for j
    using inv by (simp add: mpmc_inv_def)
  have out: "\<not> in_slot (ms_pcs c k)" using none by (auto simp: in_slot_def)
  have small': "unat (mq_tail ?q + 1) = Suc (ms_taken c)"
    using inv small by (simp add: mpmc_inv_def unat_word_ariths)
  have ok': "thread_ok ?q (ms_sent c) (Suc (ms_taken c)) (?pcs j)" for j
    using p(3) thread_ok_taken [OF ok] by simp
  have un: "unique (push_ticket \<circ> ?pcs)" "unique (pop_ticket \<circ> ?pcs)"
    using inv pop_ticket_bound [OF ok] p(1,2)
    by (fastforce simp: mpmc_inv_def intro: unique_upd_new [where t = "ms_taken c"] unique_upd_none)+
  have "turns_ok ?q (length (ms_sent c)) (Suc (ms_taken c))"
    using inv by (fastforce simp: mpmc_inv_def turns_ok_def)
  moreover have "held_or_done ?q ?pcs (length (ms_sent c)) (Suc (ms_taken c))"
    using inv held_or_done_ticket [of ?q "ms_pcs c" _ _ k p] none p(1,2) by (simp add: mpmc_inv_def)
  moreover have "storage_ok ?q ?pcs (ms_sent c)"
    using inv storage_ok_upd [of ?q "ms_pcs c" _ k p] out by (simp add: mpmc_inv_def)
  ultimately show ?thesis
    using inv small' ok' un by (simp add: mpmc_inv_def)
qed

section \<open>Steps that change a slot\<close>

lemma parity_simps [simp]: "2 * (a::nat) \<noteq> Suc (2 * b)" "Suc (2 * b) \<noteq> 2 * (a::nat)"
  by presburger+

text \<open>The ticket of a thread that has its turn in a slot.\<close>

fun working :: "'a mpmc_pc \<Rightarrow> nat option" where
  "working (Construct v t) = Some (unat t)"
| "working (Publish t) = Some (unat t)"
| "working (Move t) = Some (unat t)"
| "working (Destroy t v) = Some (unat t)"
| "working (Release t v) = Some (unat t)"
| "working _ = None"

lemma working_cases:
  assumes "thread_ok q sent taken pc" and "working pc = Some t"
  shows "push_ticket pc = Some t \<and> tv q t = 2 * rnd q t \<or> pop_ticket pc = Some t \<and> tv q t = 2 * rnd q t + 1"
  using assms by (cases pc) auto

lemma working_exclusive:
  assumes inv: "mpmc_inv c" and j: "working (ms_pcs c j) = Some t" and k: "working (ms_pcs c k) = Some u"
    and slot: "same_slot (ms_queue c) t u"
  shows "j = k"
proof -
  let ?q = "ms_queue c"
  have "thread_ok ?q (ms_sent c) (ms_taken c) (ms_pcs c i)" for i
    using inv by (simp add: mpmc_inv_def)
  note w = working_cases [OF this]
  have tv: "tv ?q t = tv ?q u" using same_slot_values [OF slot] by simp
  have same: "t = u" if "rnd ?q t = rnd ?q u"
    using ticket_eq [OF slot that] .
  show ?thesis
  proof (cases "tv ?q t = 2 * rnd ?q t")
    case True
    then have "push_ticket (ms_pcs c j) = Some t" "push_ticket (ms_pcs c k) = Some u" "rnd ?q t = rnd ?q u"
      using w [OF j] w [OF k] tv by auto
    then show ?thesis using inv same by (auto simp: mpmc_inv_def unique_def)
  next
    case False
    then have "pop_ticket (ms_pcs c j) = Some t" "pop_ticket (ms_pcs c k) = Some u" "rnd ?q t = rnd ?q u"
      using w [OF j] w [OF k] tv by auto
    then show ?thesis using inv same by (auto simp: mpmc_inv_def unique_def)
  qed
qed

lemma thread_ok_storage:
  assumes "thread_ok q sent taken pc" and "shaped q" and "slot_turn s = slot_turn (slot_at q h)"
    and "\<And>t. working pc = Some t \<Longrightarrow> \<not> same_slot q t (unat h)"
  shows "thread_ok (with_slot q h s) sent taken pc"
proof -
  have "tv (with_slot q h s) t = tv q t" for t
    using assms(3) same_slot_values [of q t "unat h"] by (simp add: with_slot_values [OF assms(2)])
  then show ?thesis
    using assms(1,4) by (cases pc) (auto simp: with_slot_values(2) [OF assms(2)])
qed

lemma thread_ok_turn:
  assumes "thread_ok q sent taken pc" and "shaped q" and turn: "unat (slot_turn s) = Suc (tv q (unat h))"
    and work: "\<And>t. working pc = Some t \<Longrightarrow> \<not> same_slot q t (unat h)"
    and push: "\<And>t. push_ticket pc = Some t \<Longrightarrow> same_slot q t (unat h) \<Longrightarrow> tv q t < 2 * rnd q t"
    and pop: "\<And>t. pop_ticket pc = Some t \<Longrightarrow> same_slot q t (unat h) \<Longrightarrow> tv q t < 2 * rnd q t + 1"
  shows "thread_ok (with_slot q h s) sent taken pc"
proof -
  have tv: "tv (with_slot q h s) t = (if same_slot q t (unat h) then Suc (tv q t) else tv q t)" for t
    using turn same_slot_values [of q t "unat h"] by (simp add: with_slot_values [OF assms(2)])
  show ?thesis
    using assms(1) work push pop
    by (cases pc) (auto simp: tv with_slot_values(2) [OF assms(2)])
qed

lemma storage_ok_slot:
  assumes ok: "storage_ok q pcs sent" and sh: "shaped q"
    and even: "\<And>t. same_slot q t (unat h) \<Longrightarrow> unat (slot_turn s) = 2 * rnd q t \<Longrightarrow>
      slot_storage s = None \<or> p = Publish h \<and> unat h = t"
    and odd: "\<And>t. same_slot q t (unat h) \<Longrightarrow> unat (slot_turn s) = 2 * rnd q t + 1 \<Longrightarrow>
      slot_storage s = Some (sent ! t) \<or> (\<exists>v. p = Release h v \<and> unat h = t)"
    and mine: "\<And>t. in_slot (pcs k) \<Longrightarrow> working (pcs k) = Some t \<Longrightarrow> t = unat h"
  shows "storage_ok (with_slot q h s) (pcs(k := p)) sent"
proof -
  have keep1: "\<exists>j g. (pcs(k := p)) j = Publish g \<and> unat g = t"
    if ex: "\<exists>j g. pcs j = Publish g \<and> unat g = t" and other: "\<not> same_slot q t (unat h)" for t
  proof -
    obtain j g where g: "pcs j = Publish g" "unat g = t" using ex by blast
    moreover have "j \<noteq> k" using mine [of t] other g by (auto simp: in_slot_def)
    ultimately show ?thesis by (intro exI [of _ j] exI [of _ g]) simp
  qed
  have keep2: "\<exists>j g v. (pcs(k := p)) j = Release g v \<and> unat g = t"
    if ex: "\<exists>j g v. pcs j = Release g v \<and> unat g = t" and other: "\<not> same_slot q t (unat h)" for t
  proof -
    obtain j g v where g: "pcs j = Release g v" "unat g = t" using ex by blast
    moreover have "j \<noteq> k" using mine [of t] other g by (auto simp: in_slot_def)
    ultimately show ?thesis by (intro exI [of _ j] exI [of _ g] exI [of _ v]) simp
  qed
  show ?thesis
    unfolding storage_ok_def with_slot_values [OF sh] with_slot_simps
  proof (intro conjI allI impI)
    fix t assume *: "(if same_slot q t (unat h) then unat (slot_turn s) else tv q t) = 2 * rnd q t"
    show "(if same_slot q t (unat h) then slot_storage s else st q t) = None \<or>
        (\<exists>j g. (pcs(k := p)) j = Publish g \<and> unat g = t)"
    proof (cases "same_slot q t (unat h)")
      case True
      with * show ?thesis using even [of t] by (auto intro: exI [of _ k])
    next
      case False
      with * have "st q t = None \<or> (\<exists>j g. pcs j = Publish g \<and> unat g = t)"
        using ok by (simp add: storage_ok_def)
      then show ?thesis
        using keep1 [OF _ False] unfolding if_not_P [OF False] by blast
    qed
  next
    fix t assume *: "(if same_slot q t (unat h) then unat (slot_turn s) else tv q t) = 2 * rnd q t + 1"
    show "(if same_slot q t (unat h) then slot_storage s else st q t) = Some (sent ! t) \<or>
        (\<exists>j g v. (pcs(k := p)) j = Release g v \<and> unat g = t)"
    proof (cases "same_slot q t (unat h)")
      case True
      with * show ?thesis using odd [of t] by (auto intro: exI [of _ k])
    next
      case False
      with * have "st q t = Some (sent ! t) \<or> (\<exists>j g v. pcs j = Release g v \<and> unat g = t)"
        using ok by (simp add: storage_ok_def)
      then show ?thesis
        using keep2 [OF _ False] unfolding if_not_P [OF False] by blast
    qed
  qed
qed

text \<open>Constructing and destroying the object leave the turn of the slot alone.\<close>

lemma mpmc_inv_storage:
  assumes inv: "mpmc_inv c" and k: "working (ms_pcs c k) = Some (unat h)" "working p = Some (unat h)"
    and tk: "push_ticket p = push_ticket (ms_pcs c k)" "pop_ticket p = pop_ticket (ms_pcs c k)"
    and out: "\<not> in_slot (ms_pcs c k)" and turn: "slot_turn s = slot_turn (slot_at (ms_queue c) h)"
    and p: "if slot_storage s = None then \<exists>v. p = Release h v else p = Publish h"
    and ok: "thread_ok (with_slot (ms_queue c) h s) (ms_sent c) (ms_taken c) p"
  shows "mpmc_inv (c\<lparr>ms_queue := with_slot (ms_queue c) h s, ms_pcs := (ms_pcs c)(k := p)\<rparr>)"
proof -
  let ?q = "ms_queue c"
  have sh: "shaped ?q" using inv by (simp add: mpmc_inv_def)
  have tv: "tv (with_slot ?q h s) = tv ?q"
  proof
    show "tv (with_slot ?q h s) t = tv ?q t" for t
      using turn same_slot_values [of ?q t "unat h"] by (simp add: with_slot_values [OF sh])
  qed
  have th: "thread_ok ?q (ms_sent c) (ms_taken c) (ms_pcs c j)" for j
    using inv by (simp add: mpmc_inv_def)
  have "thread_ok (with_slot ?q h s) (ms_sent c) (ms_taken c) (((ms_pcs c)(k := p)) j)" for j
  proof (cases "j = k")
    case False
    then have "\<not> same_slot ?q t (unat h)" if "working (ms_pcs c j) = Some t" for t
      using working_exclusive [OF inv that k(1)] by blast
    then show ?thesis using False thread_ok_storage [OF th sh turn] by simp
  qed (use ok in simp)
  moreover have "storage_ok (with_slot ?q h s) ((ms_pcs c)(k := p)) (ms_sent c)"
  proof (rule storage_ok_slot [OF _ sh])
    show "storage_ok ?q (ms_pcs c) (ms_sent c)" using inv by (simp add: mpmc_inv_def)
    have own: "push_ticket (ms_pcs c k) = Some (unat h) \<and> tv ?q (unat h) = 2 * rnd ?q (unat h) \<or>
        pop_ticket (ms_pcs c k) = Some (unat h) \<and> tv ?q (unat h) = 2 * rnd ?q (unat h) + 1"
      using working_cases [OF th k(1)] .
    fix t assume slot: "same_slot ?q t (unat h)"
    show "slot_storage s = None \<or> p = Publish h \<and> unat h = t" if "unat (slot_turn s) = 2 * rnd ?q t"
      using that own p ticket_eq [OF slot] turn by (auto split: if_splits)
    show "slot_storage s = Some (ms_sent c ! t) \<or> (\<exists>v. p = Release h v \<and> unat h = t)"
      if "unat (slot_turn s) = 2 * rnd ?q t + 1"
      using that own p tk ticket_eq [OF slot] turn by (auto split: if_splits)
  qed (use out in simp)
  moreover have "held_or_done (with_slot ?q h s) ((ms_pcs c)(k := p)) (length (ms_sent c)) (ms_taken c)"
  proof -
    have "held_or_done (with_slot ?q h s) = held_or_done ?q"
      by (simp add: fun_eq_iff held_or_done_def tv)
    then show ?thesis
      using inv held_or_done_upd [of ?q "ms_pcs c" _ _ p k] tk by (simp add: mpmc_inv_def)
  qed
  ultimately show ?thesis
    using inv tv fun_upd_same_ticket [of push_ticket p "ms_pcs c" k] tk
      fun_upd_same_ticket [of pop_ticket p "ms_pcs c" k]
    by (simp add: mpmc_inv_def turns_ok_def log_ok_def)
qed

text \<open>Handing the turn on: the slot of ticket \<open>h\<close> gets the next turn and the thread returns.\<close>

definition turn_passed :: "'a mpmc_system \<Rightarrow> nat \<Rightarrow> u64 \<Rightarrow> 'a Slot \<Rightarrow> bool" where
  "turn_passed c k h s \<longleftrightarrow>
     mpmc_inv c \<and> working (ms_pcs c k) = Some (unat h) \<and>
     unat (slot_turn s) = Suc (tv (ms_queue c) (unat h)) \<and> slot_storage s = st (ms_queue c) (unat h)"

lemma turn_passedD:
  assumes "turn_passed c k h s"
  shows "mpmc_inv c" "working (ms_pcs c k) = Some (unat h)"
    "unat (slot_turn s) = Suc (tv (ms_queue c) (unat h))" "shaped (ms_queue c)"
    "thread_ok (ms_queue c) (ms_sent c) (ms_taken c) (ms_pcs c j)"
  using assms by (simp_all add: turn_passed_def mpmc_inv_def)

lemma turn_owner:
  assumes "turn_passed c k h s"
  shows "push_ticket (ms_pcs c k) = Some (unat h) \<and>
      tv (ms_queue c) (unat h) = 2 * rnd (ms_queue c) (unat h) \<or>
    pop_ticket (ms_pcs c k) = Some (unat h) \<and>
      tv (ms_queue c) (unat h) = 2 * rnd (ms_queue c) (unat h) + 1"
  using working_cases [OF turn_passedD(5) [OF assms] turn_passedD(2) [OF assms]] .

lemma tv_passed:
  assumes "turn_passed c k h s"
  shows "tv (with_slot (ms_queue c) h s) t =
    (if same_slot (ms_queue c) t (unat h) then Suc (tv (ms_queue c) t) else tv (ms_queue c) t)"
  using turn_passedD(3) [OF assms] same_slot_values [of "ms_queue c" t "unat h"]
  by (simp add: with_slot_values [OF turn_passedD(4) [OF assms]])

lemma others_passed:
  assumes tp: "turn_passed c k h s" and "j \<noteq> k"
  shows "thread_ok (with_slot (ms_queue c) h s) (ms_sent c) (ms_taken c) (ms_pcs c j)"
proof (rule thread_ok_turn [OF turn_passedD(5,4,3) [OF tp]])
  let ?q = "ms_queue c"
  note inv = turn_passedD(1) [OF tp] and own = turn_owner [OF tp] and th = turn_passedD(5) [OF tp]
  show "\<not> same_slot ?q t (unat h)" if "working (ms_pcs c j) = Some t" for t
    using working_exclusive [OF inv that turn_passedD(2) [OF tp]] assms(2) by blast
  have un: "unique (push_ticket \<circ> ms_pcs c)" "unique (pop_ticket \<circ> ms_pcs c)"
    using inv by (simp_all add: mpmc_inv_def)
  show "tv ?q t < 2 * rnd ?q t" if t: "push_ticket (ms_pcs c j) = Some t" "same_slot ?q t (unat h)" for t
  proof -
    have "tv ?q t \<le> 2 * rnd ?q t" using th [of j] t(1) by (cases "ms_pcs c j") auto
    moreover have "tv ?q t \<noteq> 2 * rnd ?q t"
      using own same_slot_values [OF t(2)] ticket_eq [OF t(2)] t(1) un(1) assms(2)
      by (auto simp: unique_def)
    ultimately show ?thesis by simp
  qed
  show "tv ?q t < 2 * rnd ?q t + 1" if t: "pop_ticket (ms_pcs c j) = Some t" "same_slot ?q t (unat h)" for t
  proof -
    have "tv ?q t \<le> 2 * rnd ?q t + 1" using th [of j] t(1) by (cases "ms_pcs c j") auto
    moreover have "tv ?q t \<noteq> 2 * rnd ?q t + 1"
      using own same_slot_values [OF t(2)] ticket_eq [OF t(2)] t(1) un(2) assms(2)
      by (auto simp: unique_def)
    ultimately show ?thesis by simp
  qed
qed

lemma newly_passed:
  assumes tp: "turn_passed c k h s"
  shows "2 * rnd (ms_queue c) t < tv (with_slot (ms_queue c) h s) t \<Longrightarrow>
      2 * rnd (ms_queue c) t < tv (ms_queue c) t \<or> t = unat h \<and> push_ticket (ms_pcs c k) = Some (unat h)"
    and "2 * rnd (ms_queue c) t + 1 < tv (with_slot (ms_queue c) h s) t \<Longrightarrow>
      2 * rnd (ms_queue c) t + 1 < tv (ms_queue c) t \<or> t = unat h \<and> pop_ticket (ms_pcs c k) = Some (unat h)"
  using turn_owner [OF tp] same_slot_values [of "ms_queue c" t "unat h"] ticket_eq [of "ms_queue c" t "unat h"]
  by (auto simp: tv_passed [OF tp] less_Suc_eq split: if_splits)

lemma turns_passed:
  assumes tp: "turn_passed c k h s"
  shows "turns_ok (with_slot (ms_queue c) h s) (length (ms_sent c)) (ms_taken c)"
proof -
  have "turns_ok (ms_queue c) (length (ms_sent c)) (ms_taken c)"
    using turn_passedD(1) [OF tp] by (simp add: mpmc_inv_def)
  then show ?thesis
    using newly_passed [OF tp] push_ticket_bound [OF turn_passedD(5) [OF tp]]
      pop_ticket_bound [OF turn_passedD(5) [OF tp]]
    unfolding turns_ok_def with_slot_simps by blast
qed

lemma held_passed:
  assumes tp: "turn_passed c k h s"
  shows "held_or_done (with_slot (ms_queue c) h s) ((ms_pcs c)(k := Returned r))
    (length (ms_sent c)) (ms_taken c)"
proof -
  let ?pcs = "(ms_pcs c)(k := Returned r)" and ?q = "ms_queue c"
  let ?q' = "with_slot ?q h s"
  have old: "held_or_done ?q (ms_pcs c) (length (ms_sent c)) (ms_taken c)"
    using turn_passedD(1) [OF tp] by (simp add: mpmc_inv_def)
  have mono: "tv ?q t \<le> tv ?q' t" for t by (simp add: tv_passed [OF tp])
  have keep: "(\<exists>j. f (?pcs j) = Some t) \<or> f (ms_pcs c k) = Some t"
    if "\<exists>j. f (ms_pcs c j) = Some t" for f :: "'a mpmc_pc \<Rightarrow> nat option" and t
    using that by (metis fun_upd_other)
  have push: "2 * rnd ?q t < tv ?q' t" if "push_ticket (ms_pcs c k) = Some t" for t
    using turn_owner [OF tp] that turn_passedD(2) [OF tp]
    by (cases "ms_pcs c k") (auto simp: tv_passed [OF tp])
  have pop: "2 * rnd ?q t + 1 < tv ?q' t" if "pop_ticket (ms_pcs c k) = Some t" for t
    using turn_owner [OF tp] that turn_passedD(2) [OF tp]
    by (cases "ms_pcs c k") (auto simp: tv_passed [OF tp])
  show ?thesis
    unfolding held_or_done_def with_slot_simps
  proof (intro conjI allI impI)
    show "(\<exists>j. push_ticket (?pcs j) = Some t) \<or> 2 * rnd ?q t < tv ?q' t" if "t < length (ms_sent c)" for t
      using old that keep [of push_ticket t] push [of t] mono [of t]
      unfolding held_or_done_def by (meson less_le_trans)
    show "(\<exists>j. pop_ticket (?pcs j) = Some t) \<or> 2 * rnd ?q t + 1 < tv ?q' t" if "t < ms_taken c" for t
      using old that keep [of pop_ticket t] pop [of t] mono [of t]
      unfolding held_or_done_def by (meson less_le_trans)
  qed
qed

lemma storage_passed:
  assumes tp: "turn_passed c k h s" and pc: "ms_pcs c k = Publish h \<or> ms_pcs c k = Release h v"
  shows "storage_ok (with_slot (ms_queue c) h s) ((ms_pcs c)(k := Returned r)) (ms_sent c)"
proof (rule storage_ok_slot [OF _ turn_passedD(4) [OF tp]])
  let ?q = "ms_queue c"
  show "storage_ok ?q (ms_pcs c) (ms_sent c)"
    using turn_passedD(1) [OF tp] by (simp add: mpmc_inv_def)
  have st: "slot_storage s = (if \<exists>v. ms_pcs c k = Release h v then None else Some (ms_sent c ! unat h))"
    "tv ?q (unat h) = 2 * rnd ?q (unat h) + (if \<exists>v. ms_pcs c k = Release h v then 1 else 0)"
    using turn_passedD(5) [OF tp, of k] tp pc by (auto simp: turn_passed_def)
  fix t assume slot: "same_slot ?q t (unat h)"
  show "slot_storage s = None \<or> Returned r = Publish h \<and> unat h = t" if "unat (slot_turn s) = 2 * rnd ?q t"
    using that st turn_passedD(3) [OF tp] by (auto split: if_splits)
  show "slot_storage s = Some (ms_sent c ! t) \<or> (\<exists>v. Returned r = Release h v \<and> unat h = t)"
    if "unat (slot_turn s) = 2 * rnd ?q t + 1"
    using that st turn_passedD(3) [OF tp] ticket_eq [OF slot] by (auto split: if_splits)
next
  show "t = unat h" if "in_slot (ms_pcs c k)" "working (ms_pcs c k) = Some t" for t
    using that(2) turn_passedD(2) [OF tp] by simp
qed

lemma log_passed:
  assumes tp: "turn_passed c k h s" and pc: "ms_pcs c k = Publish h \<or> ms_pcs c k = Release h v"
  shows "log_ok (with_slot (ms_queue c) h s) (ms_sent c) (ms_log c @ logs (ms_pcs c k))"
proof -
  let ?q = "ms_queue c"
  let ?q' = "with_slot ?q h s"
  have old: "log_ok ?q (ms_sent c) (ms_log c)"
    using turn_passedD(1) [OF tp] by (simp add: mpmc_inv_def)
  have mono: "tv ?q t \<le> tv ?q' t" for t by (simp add: tv_passed [OF tp])
  have new: "unat g < length (ms_sent c) \<and> x = ms_sent c ! unat g \<and> tv ?q (unat g) = 2 * rnd ?q (unat g) + 1 \<and>
      2 * rnd ?q (unat g) + 1 < tv ?q' (unat g)" if "(g, x) \<in> set (logs (ms_pcs c k))" for g x
    using that pc turn_passedD(5) [OF tp, of k] by (auto simp: logs_def tv_passed [OF tp])
  have "distinct (map fst (ms_log c @ logs (ms_pcs c k)))"
    using old pc new by (fastforce simp: log_ok_def logs_def)
  moreover have "unat g < length (ms_sent c) \<and> x = ms_sent c ! unat g \<and>
      2 * rnd ?q (unat g) + 1 < tv ?q' (unat g)" if "(g, x) \<in> set (ms_log c @ logs (ms_pcs c k))" for g x
    using that old new [of g x] mono [of "unat g"] by (fastforce simp: log_ok_def)
  moreover have "\<exists>g x. (g, x) \<in> set (ms_log c @ logs (ms_pcs c k)) \<and> unat g = t"
    if "2 * rnd ?q t + 1 < tv ?q' t" for t
    using newly_passed(2) [OF tp that]
  proof
    assume "2 * rnd ?q t + 1 < tv ?q t"
    then show ?thesis using old by (fastforce simp: log_ok_def)
  next
    assume "t = unat h \<and> pop_ticket (ms_pcs c k) = Some (unat h)"
    then show ?thesis using pc by (auto simp: logs_def intro!: exI [of _ h])
  qed
  ultimately show ?thesis
    unfolding log_ok_def with_slot_simps by blast
qed

lemma mpmc_inv_turn:
  assumes tp: "turn_passed c k h s" and pc: "ms_pcs c k = Publish h \<or> ms_pcs c k = Release h v"
  shows "mpmc_inv (c\<lparr>ms_queue := with_slot (ms_queue c) h s, ms_pcs := (ms_pcs c)(k := Returned r),
    ms_log := ms_log c @ logs (ms_pcs c k)\<rparr>)"
proof -
  have "thread_ok (with_slot (ms_queue c) h s) (ms_sent c) (ms_taken c) (((ms_pcs c)(k := Returned r)) j)" for j
    using others_passed [OF tp, of j] by simp
  moreover have "unique (push_ticket \<circ> (ms_pcs c)(k := Returned r))"
    "unique (pop_ticket \<circ> (ms_pcs c)(k := Returned r))"
    using turn_passedD(1) [OF tp] by (auto simp: mpmc_inv_def intro!: unique_upd_none)
  ultimately show ?thesis
    using turn_passedD(1) [OF tp] turns_passed [OF tp] held_passed [OF tp] storage_passed [OF tp pc]
      log_passed [OF tp pc]
    by (simp add: mpmc_inv_def)
qed

section \<open>Every step keeps the invariant\<close>

text \<open>Fewer tickets than this have been issued; the turns of the slots are then far from overflowing.\<close>

definition few_tickets :: "'a mpmc_system \<Rightarrow> bool" where
  "few_tickets c \<longleftrightarrow> length (ms_sent c) < 2 ^ 62 \<and> ms_taken c < 2 ^ 62"

text \<open>The slot of the next ticket: nobody has passed it yet.\<close>

lemma next_push:
  assumes inv: "mpmc_inv c" and t: "t = length (ms_sent c)"
  shows "tv (ms_queue c) t \<le> 2 * rnd (ms_queue c) t"
    and "2 * rnd (ms_queue c) t \<le> tv (ms_queue c) t \<Longrightarrow> st (ms_queue c) t = None"
proof -
  let ?q = "ms_queue c"
  show le: "tv ?q t \<le> 2 * rnd ?q t"
    using inv t by (fastforce simp: mpmc_inv_def turns_ok_def not_less [symmetric])
  assume "2 * rnd ?q t \<le> tv ?q t"
  with le have due: "tv ?q t = 2 * rnd ?q t" by simp
  have "unat h \<noteq> t" if "ms_pcs c k = Publish h" for k h
    using inv that t by (auto simp: mpmc_inv_def dest!: spec [of _ k])
  moreover have "storage_ok ?q (ms_pcs c) (ms_sent c)"
    using inv by (simp add: mpmc_inv_def)
  ultimately show "st ?q t = None"
    using due unfolding storage_ok_def by blast
qed

lemma next_pop:
  assumes inv: "mpmc_inv c" and t: "t = ms_taken c"
  shows "tv (ms_queue c) t \<le> 2 * rnd (ms_queue c) t + 1"
    and "2 * rnd (ms_queue c) t + 1 \<le> tv (ms_queue c) t \<Longrightarrow>
      t < length (ms_sent c) \<and> st (ms_queue c) t = Some (ms_sent c ! t)"
proof -
  let ?q = "ms_queue c"
  show le: "tv ?q t \<le> 2 * rnd ?q t + 1"
    using inv t by (fastforce simp: mpmc_inv_def turns_ok_def not_less [symmetric])
  assume "2 * rnd ?q t + 1 \<le> tv ?q t"
  with le have due: "tv ?q t = 2 * rnd ?q t + 1" by simp
  have "unat h \<noteq> t" if "ms_pcs c k = Release h v" for k h v
    using inv that t by (auto simp: mpmc_inv_def dest!: spec [of _ k])
  moreover have "storage_ok ?q (ms_pcs c) (ms_sent c)"
    using inv by (simp add: mpmc_inv_def)
  ultimately have "st ?q t = Some (ms_sent c ! t)"
    using due unfolding storage_ok_def by blast
  then show "t < length (ms_sent c) \<and> st ?q t = Some (ms_sent c ! t)"
    using inv due by (simp add: mpmc_inv_def turns_ok_def)
qed

lemmas ghost_defs = sends_def takes_def logs_def in_slot_def

lemma mpmc_act_inv:
  assumes inv: "mpmc_inv c" and few: "few_tickets c"
  shows "\<exists>pc q. mpmc_act (ms_pcs c k) (ms_queue c) = Some (pc, q) \<and>
    mpmc_inv (c\<lparr>ms_queue := q, ms_pcs := (ms_pcs c)(k := pc),
      ms_sent := ms_sent c @ sends (ms_pcs c k) (ms_queue c),
      ms_taken := ms_taken c + takes (ms_pcs c k) (ms_queue c),
      ms_log := ms_log c @ logs (ms_pcs c k)\<rparr>)"
proof -
  let ?q = "ms_queue c"
  have th: "thread_ok ?q (ms_sent c) (ms_taken c) (ms_pcs c k)" and sh: "shaped ?q"
    and head: "unat (mq_head ?q) = length (ms_sent c)" and tail: "unat (mq_tail ?q) = ms_taken c"
    using inv by (simp_all add: mpmc_inv_def)
  have small: "length (ms_sent c) < 2 ^ 62" "ms_taken c < 2 ^ 62"
    using few by (simp_all add: few_tickets_def)
  note lcl = mpmc_inv_local [OF inv, where k = k]
  show ?thesis
  proof (cases "ms_pcs c k")
    case (Returned r)
    then show ?thesis using lcl [of "Returned r"] by (simp add: ghost_defs)
  next
    case (Emplace v)
    then show ?thesis
      using mpmc_inv_push_ticket [OF inv small(1), of k "Emplace_Wait v (mq_head ?q)" v] head
        next_push(1) [OF inv refl]
      by (simp add: ghost_defs)
  next
    case (Emplace_Wait v t)
    then have t: "unat t < 2 ^ 62" using th small by simp
    show ?thesis
    proof (cases "tv ?q (unat t) = 2 * rnd ?q (unat t)")
      case True
      then show ?thesis
        using Emplace_Wait th lcl [of "Construct v t"] due_push [OF inv, of k "unat t"] turn_eq_iff [OF t, of ?q]
        by (simp add: ghost_defs)
    next
      case False
      then show ?thesis
        using Emplace_Wait th lcl [of "Emplace_Wait v t"] turn_eq_iff [OF t, of ?q] by (simp add: ghost_defs)
    qed
  next
    case (Construct v t)
    then show ?thesis
      using th mpmc_inv_storage [OF inv, of k t "Publish t" "(slot_at ?q t)\<lparr>slot_storage := Some v\<rparr>"]
      by (simp add: ghost_defs construct_def with_slot_values [OF sh])
  next
    case (Publish t)
    then have t: "unat t < 2 ^ 62" using th small by simp
    have "turn_passed c k t ((slot_at ?q t)\<lparr>slot_turn := turn ?q t * 2 + 1\<rparr>)"
      using Publish th inv unat_turn [OF t, of ?q] by (simp add: turn_passed_def)
    from mpmc_inv_turn [OF this, where r = "Pushed True"] Publish show ?thesis
      by (simp add: ghost_defs)
  next
    case (Try_Emplace v)
    then show ?thesis
      using lcl [of "Try_Emplace_Check v (mq_head ?q)"] head by (simp add: ghost_defs)
  next
    case (Try_Emplace_Check v t)
    then have t: "unat t < 2 ^ 62" using th small by simp
    show ?thesis
      using Try_Emplace_Check th lcl [of "Try_Emplace_Cas v t"] lcl [of "Try_Emplace_Reload v t"]
        turn_eq_iff [OF t, of ?q]
      by (simp add: ghost_defs)
  next
    case (Try_Emplace_Cas v t)
    show ?thesis
    proof (cases "mq_head ?q = t")
      case True
      then have t: "unat t = length (ms_sent c)" using head by simp
      then show ?thesis
        using True Try_Emplace_Cas th mpmc_inv_push_ticket [OF inv small(1), of k "Construct v t" v]
          next_push [OF inv t]
        by (simp add: ghost_defs)
    next
      case False
      then show ?thesis
        using Try_Emplace_Cas lcl [of "Try_Emplace_Check v (mq_head ?q)"] head by (simp add: ghost_defs)
    qed
  next
    case (Try_Emplace_Reload v t)
    then show ?thesis
      using lcl [of "Try_Emplace_Check v (mq_head ?q)"] lcl [of "Returned (Pushed False)"] head
      by (simp add: ghost_defs)
  next
    case Pop
    then show ?thesis
      using mpmc_inv_pop_ticket [OF inv small(2), of k "Pop_Wait (mq_tail ?q)"] tail
        next_pop(1) [OF inv refl]
      by (simp add: ghost_defs)
  next
    case (Pop_Wait t)
    then have t: "unat t < 2 ^ 62" using th small by simp
    show ?thesis
    proof (cases "tv ?q (unat t) = 2 * rnd ?q (unat t) + 1")
      case True
      then show ?thesis
        using Pop_Wait th lcl [of "Move t"] due_pop [OF inv, of k "unat t"] turn_eq_iff [OF t, of ?q]
        by (simp add: ghost_defs)
    next
      case False
      then show ?thesis
        using Pop_Wait th lcl [of "Pop_Wait t"] turn_eq_iff [OF t, of ?q] by (simp add: ghost_defs)
    qed
  next
    case (Move t)
    then show ?thesis
      using th lcl [of "Destroy t (ms_sent c ! unat t)"] by (simp add: ghost_defs move_def)
  next
    case (Destroy t v)
    then show ?thesis
      using th mpmc_inv_storage [OF inv, of k t "Release t v" "(slot_at ?q t)\<lparr>slot_storage := None\<rparr>"]
      by (simp add: ghost_defs destroy_def with_slot_values [OF sh])
  next
    case (Release t v)
    then have t: "unat t < 2 ^ 62" using th small by simp
    have "turn_passed c k t ((slot_at ?q t)\<lparr>slot_turn := turn ?q t * 2 + 2\<rparr>)"
      using Release th inv unat_turn [OF t, of ?q] by (simp add: turn_passed_def)
    from mpmc_inv_turn [OF this, where r = "Popped (Some v)"] Release show ?thesis
      by (simp add: ghost_defs)
  next
    case Try_Pop
    then show ?thesis
      using lcl [of "Try_Pop_Check (mq_tail ?q)"] tail by (simp add: ghost_defs)
  next
    case (Try_Pop_Check t)
    then have t: "unat t < 2 ^ 62" using th small by simp
    show ?thesis
      using Try_Pop_Check th lcl [of "Try_Pop_Cas t"] lcl [of "Try_Pop_Reload t"] turn_eq_iff [OF t, of ?q]
      by (simp add: ghost_defs)
  next
    case (Try_Pop_Cas t)
    show ?thesis
    proof (cases "mq_tail ?q = t")
      case True
      then have t: "unat t = ms_taken c" using tail by simp
      then show ?thesis
        using True Try_Pop_Cas th mpmc_inv_pop_ticket [OF inv small(2), of k "Move t"] next_pop [OF inv t]
        by (simp add: ghost_defs)
    next
      case False
      then show ?thesis
        using Try_Pop_Cas lcl [of "Try_Pop_Check (mq_tail ?q)"] tail by (simp add: ghost_defs)
    qed
  next
    case (Try_Pop_Reload t)
    then show ?thesis
      using lcl [of "Try_Pop_Check (mq_tail ?q)"] lcl [of "Returned (Popped None)"] tail
      by (simp add: ghost_defs)
  qed
qed

lemma few_tickets_step: "mpmc_step c c' \<Longrightarrow> few_tickets c' \<Longrightarrow> few_tickets c"
  by (induction rule: mpmc_step.induct) (auto simp: few_tickets_def)

lemma mpmc_step_inv:
  assumes "mpmc_step c c'" and "mpmc_inv c" and "few_tickets c"
  shows "mpmc_inv c'"
  using assms(1)
proof cases
  case (call k r op)
  then show ?thesis
    using mpmc_inv_local [OF assms(2), of "mpmc_begin op" k] by (cases op) (simp_all add: in_slot_def)
next
  case (act k pc q)
  then show ?thesis using mpmc_act_inv [OF assms(2,3), of k] by auto
qed

abbreviation mpmc_reach :: "'a Queue \<Rightarrow> 'a mpmc_system \<Rightarrow> bool" where
  "mpmc_reach q c \<equiv> mpmc_step\<^sup>*\<^sup>* (mpmc_start q) c"

lemma mpmc_start_inv:
  assumes "Queue_new capacity p = Inr q"
  shows "mpmc_inv (mpmc_start q)"
proof -
  have q: "0 < unat (mq_capacity q)" "mq_slots q = replicate (unat (mq_capacity q)) Slot_new"
    "mq_head q = 0" "mq_tail q = 0"
    using assms by (auto simp: Queue_new_def word_less_nat_alt split: if_splits option.splits)
  then have "tv q t = 0" "st q t = None" for t
    by (simp_all add: tv_def st_def Slot_new_def)
  with q show ?thesis
    by (simp add: mpmc_inv_def mpmc_start_def shaped_def unique_def turns_ok_def held_or_done_def
        storage_ok_def log_ok_def)
qed

lemma mpmc_reach_inv:
  assumes "Queue_new capacity p = Inr q" and "mpmc_reach q c" and "few_tickets c"
  shows "mpmc_inv c"
  using assms(2,3)
proof (induction rule: rtranclp_induct)
  case (step c1 c2)
  then show ?case using few_tickets_step mpmc_step_inv by blast
qed (rule mpmc_start_inv [OF assms(1)])

section \<open>Schedules\<close>

text \<open>A given interleaving: the next thread, with the call it makes or \<open>None\<close> for its next access.\<close>

fun mpmc_run :: "(nat \<times> 'a mpmc_call option) list \<Rightarrow> 'a mpmc_system \<Rightarrow> 'a mpmc_system option" where
  "mpmc_run [] c = Some c"
| "mpmc_run ((k, Some op) # as) c =
     (case ms_pcs c k of
        Returned r \<Rightarrow> mpmc_run as (c\<lparr>ms_pcs := (ms_pcs c)(k := mpmc_begin op)\<rparr>)
      | _ \<Rightarrow> None)"
| "mpmc_run ((k, None) # as) c =
     (case mpmc_act (ms_pcs c k) (ms_queue c) of
        None \<Rightarrow> None
      | Some (pc, q) \<Rightarrow>
          mpmc_run as
            (c\<lparr>ms_queue := q, ms_pcs := (ms_pcs c)(k := pc),
               ms_sent := ms_sent c @ sends (ms_pcs c k) (ms_queue c),
               ms_taken := ms_taken c + takes (ms_pcs c k) (ms_queue c),
               ms_log := ms_log c @ logs (ms_pcs c k)\<rparr>))"

lemma mpmc_run_reach: "mpmc_run as c = Some c' \<Longrightarrow> mpmc_step\<^sup>*\<^sup>* c c'"
proof (induction as c rule: mpmc_run.induct)
  case (2 k op as c)
  then obtain r where "ms_pcs c k = Returned r"
    by (auto split: mpmc_pc.splits)
  with 2 show ?case
    using mpmc_step.call [of c k r op] by (auto intro: converse_rtranclp_into_rtranclp)
next
  case (3 k as c)
  then obtain pc q where "mpmc_act (ms_pcs c k) (ms_queue c) = Some (pc, q)"
    by (auto split: option.splits)
  with 3 show ?case
    using mpmc_step.act [of c k pc q] by (auto intro: converse_rtranclp_into_rtranclp)
qed simp

text \<open>
  A queue of capacity 1: a consumer takes its ticket before there is anything to take, two producers
  push one after the other, and the second value stays in the queue.
\<close>

definition demo_mpmc :: "nat Queue" where
  "demo_mpmc = \<lparr>mq_capacity = 1, mq_slots = [Slot_new], mq_head = 0, mq_tail = 0\<rparr>"

definition demo_schedule :: "(nat \<times> nat mpmc_call option) list" where
  "demo_schedule =
     (0, Some Call_pop) # replicate 2 (0, None) @ (1, Some (Call_push 7)) # (2, Some (Call_push 8)) #
     replicate 4 (1, None) @ replicate 2 (2, None) @ replicate 4 (0, None) @ replicate 3 (2, None)"

definition demo_end :: "nat mpmc_system" where
  "demo_end = the (mpmc_run demo_schedule (mpmc_start demo_mpmc))"

lemma demo_run:
  "map_option (\<lambda>c. (ms_sent c, ms_taken c, ms_log c, map (ms_pcs c) [0, 1, 2], map slot_storage (mq_slots (ms_queue c))))
     (mpmc_run demo_schedule (mpmc_start demo_mpmc)) =
   Some ([7, 8], 1, [(0, 7)], [Returned (Popped (Some 7)), Returned (Pushed True), Returned (Pushed True)], [Some 8])"
  by code_simp

lemma demo_new: "Queue_new 1 (Some 4096) = Inr demo_mpmc"
  by (simp add: Queue_new_def demo_mpmc_def)

lemma demo_end:
  "mpmc_reach demo_mpmc demo_end" "ms_sent demo_end = [7, 8]" "ms_taken demo_end = 1"
  "ms_log demo_end = [(0, 7)]" "few_tickets demo_end"
  using demo_run mpmc_run_reach [of demo_schedule "mpmc_start demo_mpmc" demo_end]
  by (auto simp: demo_end_def few_tickets_def)

lemma mpmc_run_other:
  "mpmc_run as c = Some c' \<Longrightarrow> k \<notin> fst ` set as \<Longrightarrow> ms_pcs c' k = ms_pcs c k"
  by (induction as c rule: mpmc_run.induct) (auto split: option.splits mpmc_pc.splits)

definition all_returned :: "'a mpmc_system \<Rightarrow> bool" where
  "all_returned c \<longleftrightarrow> (\<forall>k. \<exists>r. ms_pcs c k = Returned r)"

lemma demo_returned: "all_returned demo_end"
proof -
  have run: "mpmc_run demo_schedule (mpmc_start demo_mpmc) = Some demo_end"
    using demo_run by (auto simp: demo_end_def)
  have "\<exists>r. ms_pcs demo_end k = Returned r" if "k \<in> {0, 1, 2}" for k
    using that demo_run by (auto simp: demo_end_def)
  moreover have "ms_pcs demo_end k = Returned Nothing" if "k \<notin> {0, 1, 2}" for k
    using that mpmc_run_other [OF run, of k] by (auto simp: demo_schedule_def mpmc_start_def)
  ultimately show ?thesis unfolding all_returned_def by blast
qed

section \<open>Properties\<close>

lemma returned_done:
  assumes inv: "mpmc_inv c" and ret: "all_returned c"
  shows "t < length (ms_sent c) \<longleftrightarrow> 2 * rnd (ms_queue c) t < tv (ms_queue c) t"
    and "t < ms_taken c \<longleftrightarrow> 2 * rnd (ms_queue c) t + 1 < tv (ms_queue c) t"
proof -
  have "push_ticket (ms_pcs c k) = None \<and> pop_ticket (ms_pcs c k) = None" for k
    using ret by (auto simp: all_returned_def dest!: spec [of _ k])
  then show "t < length (ms_sent c) \<longleftrightarrow> 2 * rnd (ms_queue c) t < tv (ms_queue c) t"
    "t < ms_taken c \<longleftrightarrow> 2 * rnd (ms_queue c) t + 1 < tv (ms_queue c) t"
    using inv by (auto simp: mpmc_inv_def held_or_done_def turns_ok_def)
qed

lemma returned_storage:
  assumes inv: "mpmc_inv c" and ret: "all_returned c" and s: "s \<in> set (mq_slots (ms_queue c))"
  shows "(slot_storage s \<noteq> None) = odd (unat (slot_turn s))"
proof -
  let ?q = "ms_queue c"
  have sh: "shaped ?q" and st: "storage_ok ?q (ms_pcs c) (ms_sent c)"
    using inv by (simp_all add: mpmc_inv_def)
  obtain i where i: "i < cap ?q" "s = mq_slots ?q ! i"
    using s sh by (auto simp: in_set_conv_nth shaped_def)
  define t where "t = (unat (slot_turn s) div 2) * cap ?q + i"
  have t: "rnd ?q t = unat (slot_turn s) div 2" "tv ?q t = unat (slot_turn s)" "st ?q t = slot_storage s"
    using i by (simp_all add: t_def rnd_def tv_def st_def)
  have idle: "ms_pcs c k \<noteq> Publish h" "ms_pcs c k \<noteq> Release h v" for k h v
    using ret by (auto simp: all_returned_def dest!: spec [of _ k])
  have "tv ?q t = 2 * rnd ?q t \<Longrightarrow> st ?q t = None"
    and "tv ?q t = 2 * rnd ?q t + 1 \<Longrightarrow> st ?q t = Some (ms_sent c ! t)"
    using st idle unfolding storage_ok_def by blast+
  then show ?thesis
    using t by (cases "odd (unat (slot_turn s))") (auto elim!: oddE evenE)
qed

lemma turn_parity: "(slot_turn s AND 1 \<noteq> 0) = odd (unat (slot_turn s))"
  unfolding and_one_eq u64_eq_iff unat_mod_u64 by (simp add: even_iff_mod_2_eq_zero)

lemma Queue_destroy_returned:
  assumes "mpmc_inv c" and "all_returned c"
  shows "Queue_destroy (ms_queue c) =
    Some (map (\<lambda>s. s\<lparr>slot_storage := None\<rparr>) (mq_slots (ms_queue c)))"
proof -
  have "Slot_destroy s = Some (s\<lparr>slot_storage := None\<rparr>)" if "s \<in> set (mq_slots (ms_queue c))" for s
    using returned_storage [OF assms that] turn_parity [of s]
    by (cases s) (auto simp: Slot_destroy_def destroy_def split: option.splits)
  moreover have "(\<And>x. x \<in> set xs \<Longrightarrow> f x = Some (g x)) \<Longrightarrow> those (map f xs) = Some (map g xs)"
    for f :: "'a Slot \<Rightarrow> 'a Slot option" and g xs
    by (induction xs) auto
  ultimately show ?thesis by (simp add: Queue_destroy_def)
qed

text \<open>
  C22: every element is delivered to the consumer that holds its ticket, once. Whatever the number
  of threads and their interleaving, with fewer than 2 to the 62 tickets, the finished pops have
  different tickets and each received the element pushed with its ticket; and when all calls have
  returned, no more elements were received than pushed, and exactly the first ones were.
\<close>

theorem mpmc_delivers:
  assumes "Queue_new capacity p = Inr q" and "mpmc_reach q c" and "few_tickets c"
  shows "distinct (map fst (ms_log c)) \<and>
    (\<forall>h v. (h, v) \<in> set (ms_log c) \<longrightarrow> unat h < length (ms_sent c) \<and> v = ms_sent c ! unat h) \<and>
    (all_returned c \<longrightarrow> ms_taken c \<le> length (ms_sent c) \<and>
       (\<forall>t < ms_taken c. \<exists>h. unat h = t \<and> (h, ms_sent c ! t) \<in> set (ms_log c)))"
proof -
  have inv: "mpmc_inv c" using mpmc_reach_inv [OF assms] .
  then have log: "log_ok (ms_queue c) (ms_sent c) (ms_log c)" by (simp add: mpmc_inv_def)
  have "ms_taken c \<le> length (ms_sent c) \<and>
      (\<forall>t < ms_taken c. \<exists>h. unat h = t \<and> (h, ms_sent c ! t) \<in> set (ms_log c))" if ret: "all_returned c"
  proof (intro conjI allI impI)
    show "\<exists>h. unat h = t \<and> (h, ms_sent c ! t) \<in> set (ms_log c)" if "t < ms_taken c" for t
      using that returned_done(2) [OF inv ret, of t] log by (fastforce simp: log_ok_def)
    show "ms_taken c \<le> length (ms_sent c)"
    proof (rule ccontr)
      assume "\<not> ms_taken c \<le> length (ms_sent c)"
      then have "length (ms_sent c) < ms_taken c" by simp
      then have "length (ms_sent c) < length (ms_sent c)"
        using returned_done [OF inv ret, of "length (ms_sent c)"] by simp
      then show False by simp
    qed
  qed
  then show ?thesis
    using log by (auto simp: log_ok_def)
qed

theorem mpmc_delivers_witness:
  "\<exists>h. unat h = 0 \<and> (h, [7, 8] ! 0) \<in> set (ms_log demo_end)"
  using mpmc_delivers [OF demo_new demo_end(1,5)] demo_returned by (simp add: demo_end)

text \<open>
  C23: no two threads use a slot at the same time, and none meets a slot in the wrong state.
  Constructing never hits a live object, moving and destroying always find one, two threads that
  have their turn are in different slots, and when all calls have returned the destructor destroys
  exactly the objects that are still in the queue.
\<close>

theorem mpmc_slots_exclusive:
  assumes "Queue_new capacity p = Inr q" and "mpmc_reach q c" and "few_tickets c"
  shows "mpmc_act (ms_pcs c k) (ms_queue c) \<noteq> None \<and>
    (working (ms_pcs c j) = Some t \<and> working (ms_pcs c k) = Some u \<and> j \<noteq> k \<longrightarrow>
       t mod unat (mq_capacity (ms_queue c)) \<noteq> u mod unat (mq_capacity (ms_queue c))) \<and>
    (all_returned c \<longrightarrow>
       Queue_destroy (ms_queue c) =
         Some (map (\<lambda>s. s\<lparr>slot_storage := None\<rparr>) (mq_slots (ms_queue c))) \<and>
       (\<forall>s \<in> set (mq_slots (ms_queue c)). (slot_storage s \<noteq> None) = odd (unat (slot_turn s))))"
proof -
  have inv: "mpmc_inv c" using mpmc_reach_inv [OF assms] .
  then show ?thesis
    using mpmc_act_inv [OF inv assms(3), of k] working_exclusive [OF inv, of j t k u]
      Queue_destroy_returned [OF inv] returned_storage [OF inv]
    by (auto simp: same_slot_def)
qed

theorem mpmc_slots_exclusive_witness:
  "Queue_destroy (ms_queue demo_end) =
     Some (map (\<lambda>s. s\<lparr>slot_storage := None\<rparr>) (mq_slots (ms_queue demo_end)))"
  using mpmc_slots_exclusive [OF demo_new demo_end(1,5)] demo_returned by simp

end
