(* ===== verification/Client_Server.thy ===== *)
theory Client_Server
  imports Ipc_Prelude
begin

text \<open>
  The two servers of the examples and their clients. In \<^verbatim>\<open>examples/condvar_client_server.cpp\<close> the threads
  meet under a mutex with two condition variables; the mutex is held from one wait or unlock to the next,
  so that each such section is one step. In \<^verbatim>\<open>examples/atomic_client_server.cpp\<close> they meet at an atomic
  pointer; each atomic access is one step. Clients are numbered, and a pointer to a client's request is
  the number of the client. What is counted and printed by the servers is left out. The counters
  \<open>_sent\<close> and \<open>_served\<close> of a state are no data of the programs: they count requests, for the statements.
\<close>

type_synonym i32 = "32 word"

section \<open>Condition variables\<close>

text \<open>
  Where a thread is between its sections: about to lock the mutex, or in a wait. The flag of a wait tells
  whether the thread has been woken and is about to take the mutex again.
\<close>

datatype clt_pc = Clt_Lock | Wait_Free bool | Wait_Reply bool
datatype srv_pc = Srv_Lock | Wait_Request bool

record condvar_state =
  cv_request :: "nat option"
  cv_value :: "nat \<Rightarrow> i32"
  cv_processed :: "nat \<Rightarrow> bool"
  cv_srv :: srv_pc
  cv_clt :: "nat \<Rightarrow> clt_pc"
  cv_sent :: "nat \<Rightarrow> nat"
  cv_served :: "nat \<Rightarrow> nat"

fun clt_blocked :: "clt_pc \<Rightarrow> bool" where
  "clt_blocked Clt_Lock = False"
| "clt_blocked (Wait_Free woken) = (\<not> woken)"
| "clt_blocked (Wait_Reply woken) = (\<not> woken)"

fun clt_wake :: "clt_pc \<Rightarrow> clt_pc" where
  "clt_wake Clt_Lock = Clt_Lock"
| "clt_wake (Wait_Free _) = Wait_Free True"
| "clt_wake (Wait_Reply _) = Wait_Reply True"

fun srv_blocked :: "srv_pc \<Rightarrow> bool" where
  "srv_blocked Srv_Lock = False"
| "srv_blocked (Wait_Request woken) = (\<not> woken)"

fun srv_wake :: "srv_pc \<Rightarrow> srv_pc" where
  "srv_wake Srv_Lock = Srv_Lock"
| "srv_wake (Wait_Request _) = Wait_Request True"

text \<open>
  The section of the server. \<open>woken\<close> are the clients that \<^verbatim>\<open>pthread_cond_signal\<close> unblocks.
\<close>

definition server_section :: "nat set \<Rightarrow> condvar_state \<Rightarrow> condvar_state" where
  "server_section woken s =
     (case cv_request s of
        None \<Rightarrow> s\<lparr>cv_srv := Wait_Request False\<rparr>
      | Some r \<Rightarrow>
          s\<lparr>cv_value := (cv_value s)(r := cv_value s r + 1),
            cv_processed := (cv_processed s)(r := True),
            cv_request := None,
            cv_clt := (\<lambda>c. if c \<in> woken then clt_wake (cv_clt s c) else cv_clt s c),
            cv_srv := Srv_Lock,
            cv_served := (cv_served s)(r := cv_served s r + 1)\<rparr>)"

text \<open>The section of a client: up to the first wait, from there to the second, from there to the unlock.\<close>

definition client_request :: "nat \<Rightarrow> condvar_state \<Rightarrow> condvar_state" where
  "client_request c s =
     (if cv_request s \<noteq> None then s\<lparr>cv_clt := (cv_clt s)(c := Wait_Free False)\<rparr>
      else s\<lparr>cv_request := Some c, cv_srv := srv_wake (cv_srv s),
             cv_clt := (cv_clt s)(c := Wait_Reply False),
             cv_sent := (cv_sent s)(c := cv_sent s c + 1)\<rparr>)"

definition client_section :: "nat \<Rightarrow> condvar_state \<Rightarrow> condvar_state" where
  "client_section c s =
     (case cv_clt s c of
        Wait_Reply _ \<Rightarrow>
          if cv_request s \<noteq> None then s\<lparr>cv_clt := (cv_clt s)(c := Wait_Reply False)\<rparr>
          else s\<lparr>cv_clt := (cv_clt s)(c := Clt_Lock)\<rparr>
      | _ \<Rightarrow> client_request c s)"

text \<open>
  \<^verbatim>\<open>pthread_cond_signal\<close> unblocks at least one of the threads that wait, if any do. The server's counter
  part \<^verbatim>\<open>cond_srv\<close> has only the server waiting.
\<close>

definition signalled :: "nat \<Rightarrow> condvar_state \<Rightarrow> nat set \<Rightarrow> bool" where
  "signalled n s woken \<longleftrightarrow>
     woken \<subseteq> {c. c < n \<and> clt_blocked (cv_clt s c)} \<and>
     ((\<exists>c < n. clt_blocked (cv_clt s c)) \<longrightarrow> woken \<noteq> {})"

inductive condvar_run :: "nat \<Rightarrow> condvar_state \<Rightarrow> condvar_state \<Rightarrow> bool" for n where
  serve: "\<not> srv_blocked (cv_srv s) \<Longrightarrow> signalled n s woken \<Longrightarrow> condvar_run n s (server_section woken s)"
| client: "c < n \<Longrightarrow> \<not> clt_blocked (cv_clt s c) \<Longrightarrow> condvar_run n s (client_section c s)"

text \<open>A wait may also return without a signal.\<close>

inductive condvar_step :: "nat \<Rightarrow> condvar_state \<Rightarrow> condvar_state \<Rightarrow> bool" for n where
  run: "condvar_run n s s' \<Longrightarrow> condvar_step n s s'"
| spurious_server: "condvar_step n s (s\<lparr>cv_srv := srv_wake (cv_srv s)\<rparr>)"
| spurious_client: "c < n \<Longrightarrow> condvar_step n s (s\<lparr>cv_clt := (cv_clt s)(c := clt_wake (cv_clt s c))\<rparr>)"

text \<open>\<^verbatim>\<open>main\<close>: the flags \<^verbatim>\<open>processed\<close> are not initialised.\<close>

definition condvar_start :: "(nat \<Rightarrow> bool) \<Rightarrow> condvar_state" where
  "condvar_start processed =
     \<lparr>cv_request = None, cv_value = word_of_nat, cv_processed = processed, cv_srv = Srv_Lock,
      cv_clt = (\<lambda>_. Clt_Lock), cv_sent = (\<lambda>_. 0), cv_served = (\<lambda>_. 0)\<rparr>"

definition NUM_CLIENTS :: nat where "NUM_CLIENTS = 50"

section \<open>What the condition variables achieve\<close>

definition pending :: "condvar_state \<Rightarrow> nat \<Rightarrow> nat" where
  "pending s c = (if cv_request s = Some c then 1 else 0)"

definition in_reply :: "clt_pc \<Rightarrow> bool" where
  "in_reply pc \<longleftrightarrow> (\<exists>w. pc = Wait_Reply w)"

definition condvar_inv :: "nat \<Rightarrow> condvar_state \<Rightarrow> bool" where
  "condvar_inv n s \<longleftrightarrow>
     (\<forall>r. cv_request s = Some r \<longrightarrow> r < n \<and> in_reply (cv_clt s r) \<and> \<not> srv_blocked (cv_srv s)) \<and>
     (\<forall>c. cv_sent s c = cv_served s c + pending s c) \<and>
     (\<forall>c. cv_value s c = word_of_nat (c + cv_served s c)) \<and>
     (cv_request s = None \<longrightarrow> (\<exists>c < n. \<not> clt_blocked (cv_clt s c)))"

lemma in_reply_simps [simp]:
  "in_reply (Wait_Reply w)" "\<not> in_reply Clt_Lock" "\<not> in_reply (Wait_Free w)"
  "in_reply (clt_wake pc) = in_reply pc"
  by (auto simp: in_reply_def, (cases pc; simp)+)

lemma wake_blocked [simp]: "\<not> clt_blocked (clt_wake pc)" "\<not> srv_blocked (srv_wake spc)"
  by (cases pc; simp) (cases spc; simp)

lemma inv_server:
  assumes inv: "condvar_inv n s" and woken: "signalled n s woken"
  shows "condvar_inv n (server_section woken s)"
proof (cases "cv_request s")
  case None
  with inv show ?thesis by (simp add: condvar_inv_def server_section_def pending_def)
next
  case (Some r)
  with inv have r: "r < n" "in_reply (cv_clt s r)" by (auto simp: condvar_inv_def)
  have run: "\<exists>c < n. \<not> clt_blocked (cv_clt (server_section woken s) c)"
  proof (cases "clt_blocked (cv_clt s r)")
    case True
    then obtain c where "c \<in> woken" "c < n" using woken r(1) by (auto simp: signalled_def)
    then show ?thesis using Some by (auto simp: server_section_def)
  next
    case False
    then show ?thesis using Some r(1) by (auto simp: server_section_def)
  qed
  show ?thesis
    using inv run Some by (auto simp: condvar_inv_def server_section_def pending_def)
qed

lemma inv_client:
  assumes inv: "condvar_inv n s" and "c < n"
  shows "condvar_inv n (client_section c s)"
proof (cases "cv_request s")
  case None
  have "condvar_inv n (client_request c s)"
    using inv None assms(2) by (simp add: condvar_inv_def client_request_def pending_def)
  moreover have "condvar_inv n (s\<lparr>cv_clt := (cv_clt s)(c := Clt_Lock)\<rparr>)"
    using inv None assms(2) by (auto simp: condvar_inv_def pending_def)
  ultimately show ?thesis
    using None by (simp add: client_section_def split: clt_pc.split)
next
  case (Some r)
  then show ?thesis
    using inv by (auto simp: condvar_inv_def client_section_def client_request_def pending_def
        split: clt_pc.split)
qed

lemma inv_step: "condvar_step n s s' \<Longrightarrow> condvar_inv n s \<Longrightarrow> condvar_inv n s'"
proof (induction rule: condvar_step.induct)
  case (run s s')
  then show ?case by (auto elim!: condvar_run.cases intro: inv_server inv_client)
next
  case (spurious_server s)
  then show ?case by (simp add: condvar_inv_def pending_def)
next
  case (spurious_client c s)
  then show ?case by (auto simp: condvar_inv_def pending_def)
qed

lemma inv_reach:
  assumes "0 < n" and "(condvar_step n)\<^sup>*\<^sup>* (condvar_start processed) s"
  shows "condvar_inv n s"
  using assms(2)
proof (induction rule: rtranclp_induct)
  case base
  then show ?case using assms(1) by (auto simp: condvar_inv_def condvar_start_def pending_def)
qed (rule inv_step)

text \<open>A pending request can be served at once.\<close>

lemma serve_pending:
  assumes "condvar_inv n s" and "cv_request s = Some r"
  shows "condvar_run n s (server_section {c. c < n \<and> clt_blocked (cv_clt s c)} s)"
    and "cv_served (server_section woken s) = (cv_served s)(r := cv_served s r + 1)"
  using assms by (auto simp: condvar_inv_def signalled_def intro: condvar_run.serve)
    (simp add: server_section_def)

lemma request_and_serve:
  assumes inv: "condvar_inv n s" and free: "cv_request s = None" and c: "c < n" "\<not> clt_blocked (cv_clt s c)"
    and "\<not> in_reply (cv_clt s c)"
  shows "\<exists>s'. (condvar_run n)\<^sup>*\<^sup>* s s' \<and> cv_served s' = (cv_served s)(c := cv_served s c + 1)"
proof -
  define t where "t = client_section c s"
  have "cv_request t = Some c" "cv_served t = cv_served s"
    using free assms(5) by (auto simp: t_def client_section_def client_request_def in_reply_def split: clt_pc.splits)
  moreover have "condvar_run n s t" "condvar_inv n t"
    using c inv by (auto simp: t_def intro: condvar_run.client inv_client)
  ultimately show ?thesis
    using serve_pending [of n t c] by (metis rtranclp.rtrancl_into_rtrancl r_into_rtranclp)
qed

lemma serve_one:
  assumes inv: "condvar_inv n s"
  shows "\<exists>s' c. (condvar_run n)\<^sup>*\<^sup>* s s' \<and> c < n \<and> cv_served s' = (cv_served s)(c := cv_served s c + 1)"
proof (cases "cv_request s")
  case (Some r)
  then show ?thesis
    using serve_pending [OF inv Some] inv by (metis condvar_inv_def r_into_rtranclp)
next
  case None
  then obtain c where c: "c < n" "\<not> clt_blocked (cv_clt s c)"
    using inv by (auto simp: condvar_inv_def)
  show ?thesis
  proof (cases "in_reply (cv_clt s c)")
    case False
    then show ?thesis using request_and_serve [OF inv None c] c by blast
  next
    case True
    define t where "t = client_section c s"
    have t: "cv_request t = None" "cv_clt t c = Clt_Lock" "cv_served t = cv_served s"
      using True None by (auto simp: t_def client_section_def in_reply_def)
    have "condvar_run n s t" "condvar_inv n t"
      using c inv by (auto simp: t_def intro: condvar_run.client inv_client)
    then show ?thesis
      using request_and_serve [of n t c] t c(1)
      by (metis clt_blocked.simps(1) in_reply_simps(2) converse_rtranclp_into_rtranclp)
  qed
qed

text \<open>
  C29: however the threads of the condition variable example interleave, and with wake-ups that nobody
  asked for: the request of a client is served exactly once, its value has been incremented as often, the
  request pointer refers only to a client that waits for the reply (so that its data, a local variable,
  is alive and not in use), and a client that does not wait for a reply has had all its requests served.
\<close>

theorem condvar_served_once:
  assumes "(condvar_step NUM_CLIENTS)\<^sup>*\<^sup>* (condvar_start processed) s"
  shows "cv_value s c = word_of_nat (c + cv_served s c) \<and>
    cv_sent s c = cv_served s c + (if cv_request s = Some c then 1 else 0) \<and>
    (\<forall>r. cv_request s = Some r \<longrightarrow> r < NUM_CLIENTS \<and> (\<exists>w. cv_clt s r = Wait_Reply w)) \<and>
    ((\<nexists>w. cv_clt s c = Wait_Reply w) \<longrightarrow> cv_sent s c = cv_served s c)"
proof -
  have "condvar_inv NUM_CLIENTS s"
    using inv_reach [OF _ assms] by (simp add: NUM_CLIENTS_def)
  then show ?thesis by (auto simp: condvar_inv_def pending_def in_reply_def)
qed

text \<open>
  C30: no wake-up is lost in the condition variable example: from every state the threads can get into, and
  without wake-ups that nobody asked for, another request gets served.
\<close>

theorem condvar_progress:
  assumes "(condvar_step NUM_CLIENTS)\<^sup>*\<^sup>* (condvar_start processed) s"
  shows "\<exists>s' c. (condvar_run NUM_CLIENTS)\<^sup>*\<^sup>* s s' \<and> c < NUM_CLIENTS \<and>
    cv_served s' = (cv_served s)(c := cv_served s c + 1)"
  using inv_reach [OF _ assms] by (intro serve_one) (simp add: NUM_CLIENTS_def)

text \<open>One request from the start to its reply.\<close>

lemma condvar_example:
  assumes "0 < n"
  shows "(condvar_step n)\<^sup>*\<^sup>* (condvar_start processed) (server_section {0} (client_section 0 (condvar_start processed)))"
proof -
  let ?s = "client_section 0 (condvar_start processed)"
  have "condvar_run n (condvar_start processed) ?s"
    using assms by (intro condvar_run.client) (simp_all add: condvar_start_def)
  moreover have "condvar_run n ?s (server_section {0} ?s)"
    using assms by (intro condvar_run.serve)
      (simp_all add: condvar_start_def client_section_def client_request_def signalled_def)
  ultimately show ?thesis
    by (meson condvar_step.run r_into_rtranclp rtranclp.rtrancl_into_rtrancl)
qed

theorem condvar_served_once_witness:
  "cv_value (server_section {0} (client_section 0 (condvar_start (\<lambda>_. False)))) 0 = 1 \<and>
   cv_sent (server_section {0} (client_section 0 (condvar_start (\<lambda>_. False)))) 0 = 1"
  using condvar_served_once [OF condvar_example [of NUM_CLIENTS "\<lambda>_. False"], of 0]
  by (simp add: NUM_CLIENTS_def condvar_start_def client_section_def client_request_def server_section_def)

theorem condvar_progress_witness:
  "\<exists>s' c. (condvar_run NUM_CLIENTS)\<^sup>*\<^sup>* (server_section {0} (client_section 0 (condvar_start (\<lambda>_. False)))) s' \<and>
     c < NUM_CLIENTS \<and> 0 < cv_served s' c"
proof -
  have "(condvar_step NUM_CLIENTS)\<^sup>*\<^sup>* (condvar_start (\<lambda>_. False))
      (server_section {0} (client_section 0 (condvar_start (\<lambda>_. False))))"
    by (rule condvar_example) (simp add: NUM_CLIENTS_def)
  from condvar_progress [OF this] show ?thesis by (metis fun_upd_same add_gr_0 zero_less_one)
qed

text \<open>
  A client that has been served may nevertheless never return: it waits for a moment in which no request
  is pending and does not look at its own flag, and one signal is not enough to wake both it and a client
  that waits for the slot. Here client 1 is served again and again while the reply to client 0 is ready
  and unread.
\<close>

definition overtaken :: "nat \<Rightarrow> condvar_state \<Rightarrow> bool" where
  "overtaken k s \<longleftrightarrow> cv_request s = None \<and> cv_srv s = Srv_Lock \<and> cv_processed s 0 \<and> cv_served s 0 = 1 \<and>
     cv_clt s 0 = Wait_Reply False \<and> cv_clt s 1 = (if k = 0 then Wait_Free True else Clt_Lock) \<and> cv_served s 1 = k"

lemma overtaken_again:
  assumes "2 \<le> n" and "overtaken k s"
  shows "\<exists>s'. (condvar_run n)\<^sup>*\<^sup>* s s' \<and> overtaken (Suc k) s'"
proof -
  define t where "t = client_section 1 s"
  define u where "u = server_section {1} t"
  have "condvar_run n s t"
    unfolding t_def using assms by (intro condvar_run.client) (auto simp: overtaken_def)
  moreover have t: "cv_request t = Some 1" "cv_srv t = Srv_Lock" "cv_clt t 1 = Wait_Reply False"
    "cv_clt t 0 = Wait_Reply False" "cv_served t = cv_served s" "cv_processed t = cv_processed s"
    using assms(2) by (auto simp: t_def overtaken_def client_section_def client_request_def)
  have "condvar_run n t u"
    unfolding u_def using assms(1) t by (intro condvar_run.serve) (auto simp: signalled_def)
  moreover have u: "cv_request u = None" "cv_srv u = Srv_Lock" "cv_clt u 1 = Wait_Reply True"
    "cv_clt u 0 = Wait_Reply False" "cv_served u = (cv_served s)(1 := cv_served s 1 + 1)" "cv_processed u 0"
    using t assms(2) by (auto simp: u_def server_section_def overtaken_def)
  have "condvar_run n u (client_section 1 u)"
    using assms(1) u(3) by (intro condvar_run.client) auto
  moreover have "overtaken (Suc k) (client_section 1 u)"
    using assms(2) u by (simp add: overtaken_def client_section_def)
  ultimately show ?thesis
    by (meson converse_rtranclp_into_rtranclp r_into_rtranclp)
qed

theorem condvar_reply_overtaken:
  assumes "2 \<le> n"
  shows "\<exists>s. (condvar_run n)\<^sup>*\<^sup>* (condvar_start processed) s \<and> overtaken k s"
proof (induction k)
  case 0
  let ?s = "client_section 1 (client_section 0 (condvar_start processed))"
  note defs = condvar_start_def client_section_def client_request_def
  have "condvar_run n (condvar_start processed) (client_section 0 (condvar_start processed))"
    using assms by (intro condvar_run.client) (simp_all add: condvar_start_def)
  moreover have "condvar_run n (client_section 0 (condvar_start processed)) ?s"
    using assms by (intro condvar_run.client) (simp_all add: defs)
  moreover have "condvar_run n ?s (server_section {1} ?s)"
    using assms by (intro condvar_run.serve) (simp_all add: defs signalled_def)
  moreover have "overtaken 0 (server_section {1} ?s)"
    by (simp add: overtaken_def condvar_start_def client_section_def client_request_def server_section_def)
  ultimately show ?case
    by (meson converse_rtranclp_into_rtranclp r_into_rtranclp)
next
  case (Suc k)
  then show ?case using overtaken_again [OF assms] by (meson rtranclp_trans)
qed

section \<open>The atomic pointer\<close>

text \<open>
  A client resets its flag, tries to put its request into the pointer, and waits for the flag. The server
  reads the pointer, increments the value, sets the flag, and clears the pointer.
\<close>

datatype at_clt_pc = At_Reset | At_Cas | At_Spin
datatype at_srv_pc = At_Load | At_Value nat | At_Flag nat | At_Clear nat

record atomic_state =
  at_request :: "nat option"
  at_value :: "nat \<Rightarrow> i32"
  at_processed :: "nat \<Rightarrow> bool"
  at_srv :: at_srv_pc
  at_clt :: "nat \<Rightarrow> at_clt_pc"
  at_sent :: "nat \<Rightarrow> nat"
  at_served :: "nat \<Rightarrow> nat"

definition at_server :: "atomic_state \<Rightarrow> atomic_state" where
  "at_server s =
     (case at_srv s of
        At_Load \<Rightarrow> (case at_request s of None \<Rightarrow> s | Some r \<Rightarrow> s\<lparr>at_srv := At_Value r\<rparr>)
      | At_Value r \<Rightarrow>
          s\<lparr>at_value := (at_value s)(r := at_value s r + 1),
            at_served := (at_served s)(r := at_served s r + 1), at_srv := At_Flag r\<rparr>
      | At_Flag r \<Rightarrow> s\<lparr>at_processed := (at_processed s)(r := True), at_srv := At_Clear r\<rparr>
      | At_Clear r \<Rightarrow> s\<lparr>at_request := None, at_srv := At_Load\<rparr>)"

definition at_client :: "nat \<Rightarrow> atomic_state \<Rightarrow> atomic_state" where
  "at_client c s =
     (case at_clt s c of
        At_Reset \<Rightarrow>
          s\<lparr>at_processed := (at_processed s)(c := False), at_clt := (at_clt s)(c := At_Cas)\<rparr>
      | At_Cas \<Rightarrow>
          (if at_request s = None
           then s\<lparr>at_request := Some c, at_clt := (at_clt s)(c := At_Spin),
                  at_sent := (at_sent s)(c := at_sent s c + 1)\<rparr>
           else s\<lparr>at_clt := (at_clt s)(c := At_Reset)\<rparr>)
      | At_Spin \<Rightarrow>
          (if at_processed s c then s\<lparr>at_clt := (at_clt s)(c := At_Reset)\<rparr> else s))"

inductive atomic_step :: "nat \<Rightarrow> atomic_state \<Rightarrow> atomic_state \<Rightarrow> bool" for n where
  server: "atomic_step n s (at_server s)"
| client: "c < n \<Longrightarrow> atomic_step n s (at_client c s)"

definition atomic_start :: "(nat \<Rightarrow> bool) \<Rightarrow> atomic_state" where
  "atomic_start processed =
     \<lparr>at_request = None, at_value = (\<lambda>_. 0), at_processed = processed, at_srv = At_Load,
      at_clt = (\<lambda>_. At_Reset), at_sent = (\<lambda>_. 0), at_served = (\<lambda>_. 0)\<rparr>"

section \<open>What the atomic pointer achieves\<close>

text \<open>The request the server has not yet served.\<close>

definition at_open :: "atomic_state \<Rightarrow> nat \<Rightarrow> bool" where
  "at_open s c \<longleftrightarrow> at_request s = Some c \<and> (at_srv s = At_Load \<or> at_srv s = At_Value c)"

definition atomic_inv :: "atomic_state \<Rightarrow> bool" where
  "atomic_inv s \<longleftrightarrow>
     (case at_srv s of
        At_Load \<Rightarrow> (\<forall>r. at_request s = Some r \<longrightarrow> at_clt s r = At_Spin \<and> \<not> at_processed s r)
      | At_Value r \<Rightarrow> at_request s = Some r \<and> at_clt s r = At_Spin \<and> \<not> at_processed s r
      | At_Flag r \<Rightarrow> at_request s = Some r \<and> at_clt s r = At_Spin \<and> \<not> at_processed s r
      | At_Clear r \<Rightarrow> at_request s = Some r) \<and>
     (\<forall>c. at_clt s c = At_Cas \<longrightarrow> \<not> at_processed s c) \<and>
     (\<forall>c. at_clt s c = At_Spin \<longrightarrow> at_processed s c \<or> at_open s c \<or> at_srv s = At_Flag c) \<and>
     (\<forall>c. at_value s c = word_of_nat (at_served s c)) \<and>
     (\<forall>c. at_sent s c = at_served s c + (if at_open s c then 1 else 0))"

lemma atomic_inv_server: "atomic_inv s \<Longrightarrow> atomic_inv (at_server s)"
  by (auto simp: atomic_inv_def at_server_def at_open_def split: at_srv_pc.splits option.splits)

lemma at_open_update [simp]:
  "at_open (s\<lparr>at_processed := p\<rparr>) = at_open s" "at_open (s\<lparr>at_clt := f\<rparr>) = at_open s"
  by (auto simp: at_open_def fun_eq_iff)

lemma atomic_inv_client:
  assumes "atomic_inv s"
  shows "atomic_inv (at_client c s)"
proof (cases "at_clt s c = At_Cas \<and> at_request s = None")
  case True
  with assms show ?thesis
    by (cases "at_srv s") (auto simp: atomic_inv_def at_client_def at_open_def)
next
  case False
  with assms show ?thesis
    by (cases "at_srv s"; cases "at_clt s c") (auto simp: atomic_inv_def at_client_def)
qed

lemma atomic_inv_step: "atomic_step n s s' \<Longrightarrow> atomic_inv s \<Longrightarrow> atomic_inv s'"
  by (auto elim!: atomic_step.cases intro: atomic_inv_server atomic_inv_client)

lemma atomic_inv_reach:
  assumes "(atomic_step n)\<^sup>*\<^sup>* (atomic_start processed) s"
  shows "atomic_inv s"
  using assms
proof (induction rule: rtranclp_induct)
  case base
  then show ?case by (simp add: atomic_inv_def atomic_start_def at_open_def)
qed (rule atomic_inv_step)

text \<open>The server, running alone, finishes the request it has: it sets the flag and clears the pointer.\<close>

fun at_todo :: "atomic_state \<Rightarrow> nat" where
  "at_todo s = (case at_srv s of At_Load \<Rightarrow> if at_request s = None then 0 else 4
     | At_Value _ \<Rightarrow> 3 | At_Flag _ \<Rightarrow> 2 | At_Clear _ \<Rightarrow> 1)"

lemma at_todo_server: "at_todo s \<noteq> 0 \<Longrightarrow> at_todo (at_server s) < at_todo s"
  by (auto simp: at_server_def split: at_srv_pc.split option.splits if_splits)

lemma at_server_clt: "at_clt (at_server s) = at_clt s" "at_processed s c \<Longrightarrow> at_processed (at_server s) c"
  by (auto simp: at_server_def split: at_srv_pc.split option.split)

lemma at_server_finishes:
  "\<exists>t. (atomic_step n)\<^sup>*\<^sup>* s t \<and> at_todo t = 0 \<and> at_clt t = at_clt s"
proof (induction "at_todo s" arbitrary: s rule: less_induct)
  case less
  show ?case
  proof (cases "at_todo s = 0")
    case False
    then obtain t where "(atomic_step n)\<^sup>*\<^sup>* (at_server s) t" "at_todo t = 0" "at_clt t = at_clt s"
      using less [OF at_todo_server [OF False]] at_server_clt(1) by auto
    then show ?thesis by (meson atomic_step.server converse_rtranclp_into_rtranclp)
  qed blast
qed

text \<open>
  C31: however the threads of the atomic example interleave: a request is served exactly once and its value
  incremented as often; the server increments a value only while the client waits for the flag; and a
  client that waits gets its flag and returns from the wait once the server has run.
\<close>

theorem atomic_served_once:
  assumes "(atomic_step n)\<^sup>*\<^sup>* (atomic_start processed) s"
  shows "at_value s c = word_of_nat (at_served s c) \<and> at_served s c \<le> at_sent s c \<and>
    (at_clt s c \<noteq> At_Spin \<longrightarrow> at_sent s c = at_served s c) \<and>
    (at_srv s = At_Value c \<longrightarrow> at_clt s c = At_Spin) \<and>
    (c < n \<and> at_clt s c = At_Spin \<longrightarrow>
      (\<exists>t. (atomic_step n)\<^sup>*\<^sup>* s t \<and> at_clt t c = At_Reset \<and> at_sent t c = at_served t c))"
proof -
  have inv: "atomic_inv s" using assms by (rule atomic_inv_reach)
  have sent: "at_sent u c = at_served u c" if "atomic_inv u" "at_clt u c \<noteq> At_Spin" for u
    using that by (auto simp: atomic_inv_def at_open_def split: at_srv_pc.splits)
  have return: "\<exists>t. (atomic_step n)\<^sup>*\<^sup>* s t \<and> at_clt t c = At_Reset \<and> at_sent t c = at_served t c"
    if c: "c < n" and spin: "at_clt s c = At_Spin"
  proof -
    obtain u where u: "(atomic_step n)\<^sup>*\<^sup>* s u" "at_todo u = 0" "at_clt u c = At_Spin"
      using at_server_finishes [of n s] spin by metis
    then have inv': "atomic_inv u" using assms atomic_inv_reach by (meson rtranclp_trans)
    with u have "at_processed u c"
      by (auto simp: atomic_inv_def at_open_def split: at_srv_pc.splits if_splits)
    then have "at_clt (at_client c u) c = At_Reset" using u(3) by (simp add: at_client_def)
    moreover have "(atomic_step n)\<^sup>*\<^sup>* s (at_client c u)"
      using u(1) c atomic_step.client by (meson rtranclp.rtrancl_into_rtrancl)
    ultimately show ?thesis using sent [OF atomic_inv_client [OF inv']] by auto
  qed
  show ?thesis
    using inv sent [OF inv] return by (auto simp: atomic_inv_def)
qed

theorem atomic_served_once_witness:
  "\<exists>t. (atomic_step 1)\<^sup>*\<^sup>* (at_client 0 (at_client 0 (atomic_start (\<lambda>_. True)))) t \<and>
     at_clt t 0 = At_Reset \<and> at_sent t 0 = at_served t 0"
proof -
  let ?s = "at_client 0 (at_client 0 (atomic_start (\<lambda>_. True)))"
  have "(atomic_step 1)\<^sup>*\<^sup>* (atomic_start (\<lambda>_. True)) ?s"
    by (meson atomic_step.client converse_rtranclp_into_rtranclp r_into_rtranclp zero_less_one)
  moreover have "at_clt ?s 0 = At_Spin"
    by (simp add: at_client_def atomic_start_def)
  ultimately show ?thesis
    using atomic_served_once [of 1 "\<lambda>_. True" ?s 0] by simp
qed

end
