(* ===== verification/Ping_Pong.thy ===== *)
theory Ping_Pong
  imports Main
begin

text \<open>
  The two threads of \<^verbatim>\<open>examples/condvar_test.cpp\<close>, which take turns under a mutex and one condition
  variable. A section from taking the mutex to releasing it, or to a wait, is one step. The time stamp that
  the first thread writes before it takes the mutex is a step of its own; its value is left out.
\<close>

datatype pp_pc = Stamp | Section | Blocked

record pingpong =
  pp_turn :: bool
  pp_ping :: pp_pc
  pp_i :: nat
  pp_pong :: pp_pc
  pp_j :: nat

definition NUM_ITERATIONS :: nat where "NUM_ITERATIONS = 1000000"

definition pp_notify :: "pp_pc \<Rightarrow> pp_pc" where
  "pp_notify pc = (if pc = Blocked then Section else pc)"

definition ping_thread :: "pingpong \<Rightarrow> pingpong" where
  "ping_thread s =
     (if pp_i s < NUM_ITERATIONS then
        (case pp_ping s of
           Stamp \<Rightarrow> s\<lparr>pp_ping := Section\<rparr>
         | Section \<Rightarrow>
             if pp_turn s
             then s\<lparr>pp_turn := False, pp_pong := pp_notify (pp_pong s), pp_i := pp_i s + 1, pp_ping := Stamp\<rparr>
             else s\<lparr>pp_ping := Blocked\<rparr>
         | Blocked \<Rightarrow> s)
      else s)"

definition pong_thread :: "pingpong \<Rightarrow> pingpong" where
  "pong_thread s =
     (if pp_j s < NUM_ITERATIONS \<and> pp_pong s = Section then
        (if \<not> pp_turn s
         then s\<lparr>pp_turn := True, pp_ping := pp_notify (pp_ping s), pp_j := pp_j s + 1\<rparr>
         else s\<lparr>pp_pong := Blocked\<rparr>)
      else s)"

definition pingpong_start :: pingpong where
  "pingpong_start = \<lparr>pp_turn = True, pp_ping = Stamp, pp_i = 0, pp_pong = Section, pp_j = 0\<rparr>"

inductive pingpong_run :: "pingpong \<Rightarrow> pingpong \<Rightarrow> bool" where
  ping: "pingpong_run s (ping_thread s)"
| pong: "pingpong_run s (pong_thread s)"

text \<open>With waits that return without a notification.\<close>

inductive pingpong_step :: "pingpong \<Rightarrow> pingpong \<Rightarrow> bool" where
  run: "pingpong_run s s' \<Longrightarrow> pingpong_step s s'"
| spurious_ping: "pingpong_step s (s\<lparr>pp_ping := pp_notify (pp_ping s)\<rparr>)"
| spurious_pong: "pingpong_step s (s\<lparr>pp_pong := pp_notify (pp_pong s)\<rparr>)"

definition pingpong_inv :: "pingpong \<Rightarrow> bool" where
  "pingpong_inv s \<longleftrightarrow>
     pp_i s = pp_j s + (if pp_turn s then 0 else 1) \<and> pp_i s \<le> NUM_ITERATIONS \<and> pp_pong s \<noteq> Stamp \<and>
     \<not> (pp_turn s \<and> pp_ping s = Blocked) \<and> \<not> (\<not> pp_turn s \<and> pp_pong s = Blocked)"

lemma run_inv: "pingpong_run s s' \<Longrightarrow> pingpong_inv s \<Longrightarrow> pingpong_inv s'"
  by (induction rule: pingpong_run.induct)
    (auto simp: pingpong_inv_def ping_thread_def pong_thread_def pp_notify_def split: pp_pc.split if_splits)

lemma reach_pingpong_inv: "pingpong_step\<^sup>*\<^sup>* pingpong_start s \<Longrightarrow> pingpong_inv s"
proof (induction rule: rtranclp_induct)
  case (step s s')
  from step(2,3) show ?case
    by (induction rule: pingpong_step.induct)
      (auto simp: run_inv, auto simp: pingpong_inv_def pp_notify_def)
qed (simp add: pingpong_inv_def pingpong_start_def)

text \<open>What is left to do decreases with every step of the thread whose turn it is.\<close>

definition pp_work :: "pingpong \<Rightarrow> nat" where
  "pp_work s = 4 * (NUM_ITERATIONS - pp_i s) + 4 * (NUM_ITERATIONS - pp_j s) +
     (case pp_ping s of Stamp \<Rightarrow> 2 | Section \<Rightarrow> 1 | Blocked \<Rightarrow> 0) + (if pp_pong s = Blocked then 0 else 1)"

lemma pingpong_progress:
  assumes "pingpong_inv s" and "pp_j s < NUM_ITERATIONS"
  shows "\<exists>s'. pingpong_run s s' \<and> pp_work s' < pp_work s"
proof (cases "pp_turn s")
  case True
  then have "pp_work (ping_thread s) < pp_work s"
    using assms by (auto simp: pingpong_inv_def ping_thread_def pp_work_def pp_notify_def split: pp_pc.split)
  then show ?thesis using pingpong_run.ping by metis
next
  case False
  then have "pp_work (pong_thread s) < pp_work s"
    using assms by (cases "pp_pong s")
      (auto simp: pingpong_inv_def pong_thread_def pp_work_def pp_notify_def split: pp_pc.split)
  then show ?thesis using pingpong_run.pong by metis
qed

lemma pingpong_finish:
  "pingpong_inv s \<Longrightarrow> \<exists>t. pingpong_run\<^sup>*\<^sup>* s t \<and> pp_i t = NUM_ITERATIONS \<and> pp_j t = NUM_ITERATIONS"
proof (induction "pp_work s" arbitrary: s rule: less_induct)
  case less
  show ?case
  proof (cases "pp_j s < NUM_ITERATIONS")
    case True
    then obtain u where u: "pingpong_run s u" "pp_work u < pp_work s"
      using pingpong_progress less.prems by blast
    from less.hyps [OF u(2) run_inv [OF u(1) less.prems]] u(1) show ?thesis
      by (meson converse_rtranclp_into_rtranclp)
  next
    case False
    then have "pp_i s = NUM_ITERATIONS \<and> pp_j s = NUM_ITERATIONS"
      using less.prems by (auto simp: pingpong_inv_def split: if_splits)
    then show ?thesis by blast
  qed
qed

text \<open>
  The two threads of the condition variable test strictly take turns, and no notification is lost: from
  every state they can get into, both finish all their iterations.
\<close>

theorem pingpong_alternates:
  assumes "pingpong_step\<^sup>*\<^sup>* pingpong_start s"
  shows "pp_i s = pp_j s + (if pp_turn s then 0 else 1) \<and>
    (\<exists>t. pingpong_run\<^sup>*\<^sup>* s t \<and> pp_i t = NUM_ITERATIONS \<and> pp_j t = NUM_ITERATIONS)"
  using reach_pingpong_inv [OF assms] pingpong_finish by (simp add: pingpong_inv_def)

theorem pingpong_alternates_witness:
  "pp_i (ping_thread (ping_thread pingpong_start)) = 1 \<and>
   (\<exists>t. pingpong_run\<^sup>*\<^sup>* (ping_thread (ping_thread pingpong_start)) t \<and> pp_j t = NUM_ITERATIONS)"
proof -
  have "pingpong_step\<^sup>*\<^sup>* pingpong_start (ping_thread (ping_thread pingpong_start))"
    by (meson pingpong_run.ping pingpong_step.run converse_rtranclp_into_rtranclp r_into_rtranclp)
  from pingpong_alternates [OF this] show ?thesis
    by (auto simp: ping_thread_def pingpong_start_def NUM_ITERATIONS_def)
qed

text \<open>
  The time stamp is not protected: the first thread can be about to write it while the second is about to
  read it in its section.
\<close>

theorem pingpong_stamp_race:
  "\<exists>s. pingpong_step\<^sup>*\<^sup>* pingpong_start s \<and> pp_ping s = Stamp \<and> pp_i s < NUM_ITERATIONS \<and>
     pp_pong s = Section \<and> \<not> pp_turn s"
proof -
  have "pingpong_step\<^sup>*\<^sup>* pingpong_start (ping_thread (ping_thread pingpong_start))"
    by (meson pingpong_run.ping pingpong_step.run converse_rtranclp_into_rtranclp r_into_rtranclp)
  moreover have "pp_ping s = Stamp \<and> pp_i s < NUM_ITERATIONS \<and> pp_pong s = Section \<and> \<not> pp_turn s"
    if "s = ping_thread (ping_thread pingpong_start)" for s
    by (simp add: that ping_thread_def pingpong_start_def NUM_ITERATIONS_def pp_notify_def)
  ultimately show ?thesis by blast
qed

end
