(* ===== verification/Lock_Benchmarks.thy ===== *)
theory Lock_Benchmarks
  imports Spin_Lock
begin

text \<open>
  The loops of \<^verbatim>\<open>bench/bm_thread_sync.cpp\<close>: one thread takes a lock, adds a time stamp to a sum and releases
  the lock, once per iteration. The stamps are a list, one for each iteration.
\<close>

text \<open>\<^verbatim>\<open>lock()\<close> of each class repeats its attempt until it succeeds.\<close>

partial_function (option) acquire :: "('l \<Rightarrow> bool \<times> 'l) \<Rightarrow> 'l \<Rightarrow> 'l option" where
  [code]: "acquire attempt l =
     (case attempt l of (ok, l') \<Rightarrow> if ok then Some l' else acquire attempt l')"

fun stamp_loop :: "('l \<Rightarrow> 'l option) \<Rightarrow> ('l \<Rightarrow> 'l) \<Rightarrow> u64 list \<Rightarrow> 'l \<times> u64 \<Rightarrow> ('l \<times> u64) option" where
  "stamp_loop lock unlock [] (l, at) = Some (l, at)"
| "stamp_loop lock unlock (stamp # stamps) (l, at) =
     (case lock l of
        None \<Rightarrow> None
      | Some l' \<Rightarrow> stamp_loop lock unlock stamps (unlock l', at + stamp))"

definition load_store :: "u64 list \<Rightarrow> (load_store_lock \<times> u64) option" where
  "load_store stamps = stamp_loop (acquire load_store_attempt) load_store_unlock stamps (\<lparr>ls_counter = False\<rparr>, 0)"

definition mutex :: "u64 list \<Rightarrow> (mutex_lock \<times> u64) option" where
  "mutex stamps = stamp_loop (acquire mutex_attempt) mutex_unlock stamps (\<lparr>mtx_owned = False\<rparr>, 0)"

definition atomic_flag :: "u64 list \<Rightarrow> (atomic_flag_lock \<times> u64) option" where
  "atomic_flag stamps = stamp_loop (acquire atomic_flag_attempt) atomic_flag_unlock stamps (\<lparr>af_lock = False\<rparr>, 0)"

lemma acquire_free: "attempt l = (True, l') \<Longrightarrow> acquire attempt l = Some l'"
  by (simp add: acquire.simps)

text \<open>A lock that is free whenever the loop takes it lets the loop through.\<close>

lemma stamp_loop_free:
  assumes "\<And>l. P l \<Longrightarrow> \<exists>l'. attempt l = (True, l') \<and> P (unlock l')" and "P l"
  shows "\<exists>l'. stamp_loop (acquire attempt) unlock stamps (l, at) = Some (l', at + sum_list stamps) \<and> P l'"
  using assms(2)
proof (induction stamps arbitrary: l at)
  case (Cons stamp stamps)
  then obtain l' where "acquire attempt l = Some l'" and "P (unlock l')"
    using assms(1) acquire_free by metis
  with Cons.IH [OF this(2), of "at + stamp"] show ?case by (simp add: add.assoc)
qed simp

context lock_contract
begin

lemma stamp_loop_returns:
  "\<exists>l. stamp_loop (acquire attempt) release stamps (fresh, at) = Some (l, at + sum_list stamps) \<and> \<not> held l"
proof (rule stamp_loop_free [where P = "\<lambda>l. \<not> held l"])
  show "\<exists>l'. attempt l = (True, l') \<and> \<not> held (release l')" if "\<not> held l" for l
    using attempt_iff [of l] released that by (cases "attempt l") auto
qed (rule initially)

end

text \<open>
  With each of the three locks the benchmark returns after any number of iterations, with the sum of the
  time stamps and the lock free.
\<close>

theorem lock_benchmarks_return:
  "(\<exists>l. load_store stamps = Some (l, sum_list stamps) \<and> \<not> ls_counter l) \<and>
   (\<exists>l. mutex stamps = Some (l, sum_list stamps) \<and> \<not> mtx_owned l) \<and>
   (\<exists>l. atomic_flag stamps = Some (l, sum_list stamps) \<and> \<not> af_lock l)"
  unfolding load_store_def mutex_def atomic_flag_def
  using stamp_loop_free [of "\<lambda>l. \<not> ls_counter l" load_store_attempt load_store_unlock "\<lparr>ls_counter = False\<rparr>" stamps 0]
    mtx.stamp_loop_returns [of stamps 0] flag.stamp_loop_returns [of stamps 0]
  by (simp add: load_store_attempt_def load_store_unlock_def)

end
