(* ===== verification/Signal_Reader.thy ===== *)
theory Signal_Reader
  imports SPSC_Correct Shared_Memory
begin

text \<open>
  \<^verbatim>\<open>examples/jl.cpp\<close>: a program that opens a shared memory object that another process has created, takes it
  for a queue, and prints the signals it finds there. Its endless loop is \<open>jl_poll\<close>, one round at a time;
  what is printed is an event.
\<close>

section \<open>Opening\<close>

text \<open>
  The region is taken for a storage object without any of the checks of \<^verbatim>\<open>SPSCStorage::map\<close>; the constructor
  of the queue reads its header.
\<close>

definition jl_open ::
    "'w posix_os \<Rightarrow> source_location \<Rightarrow> 'w \<Rightarrow> (PosixIpcError + SPSCQueue) exec \<times> 'w" where
  "jl_open os loc w =
     (case shm_open_existing os loc ''dummy_pubsub_signal'' w of
        (Inl e, w') \<Rightarrow> (Inr (Inl e), w')
      | (Inr shm, w') \<Rightarrow>
          (case sys_region os (shm_ptr shm) w' of
             None \<Rightarrow> (Inl OutOfBounds, w')
           | Some mem \<Rightarrow>
               if length mem < unat sizeof_SPSCStorage then (Inl OutOfBounds, w')
               else (Inr (Inr (SPSCQueue_new (shm_ptr shm) (SPSCStorage_at mem))), w')))"

section \<open>Polling\<close>

record jl_signal =
  inst_id :: u32
  data_time :: u64
  signal_time :: u64
  recv_time :: u64
  exe_time :: u64
  sig_value :: u64

datatype jl_event = Asleep | Message_Empty | Signal u64 jl_signal

text \<open>The fields are read at fixed offsets, whatever the size of the message. The last one holds the bits of a
  floating point number.\<close>

definition jl_fields :: "SPSCQueue \<Rightarrow> SPSCStorage \<Rightarrow> addr \<Rightarrow> jl_signal option" where
  "jl_fields q s ptr = do {
     b0 \<leftarrow> load_view q s ptr 4;
     b1 \<leftarrow> load_view q s (ptr + 8) 8;
     b2 \<leftarrow> load_view q s (ptr + 8 + 8) 8;
     b3 \<leftarrow> load_view q s (ptr + 8 + 8 + 8) 8;
     b4 \<leftarrow> load_view q s (ptr + 8 + 8 + 8 + 8) 8;
     b5 \<leftarrow> load_view q s (ptr + 8 + 8 + 8 + 8 + 8) 8;
     Some \<lparr>inst_id = u32_of_bytes b0, data_time = u64_of_bytes b1, signal_time = u64_of_bytes b2,
           recv_time = u64_of_bytes b3, exe_time = u64_of_bytes b4, sig_value = u64_of_bytes b5\<rparr>
   }"

definition jl_poll :: "SPSCQueue \<Rightarrow> SPSCStorage \<Rightarrow> (jl_event \<times> SPSCStorage) exec option" where
  "jl_poll q s =
     (if queue_size s > 0 then
        (case dequeue_begin q s of
           None \<Rightarrow> None
         | Some (Inl f) \<Rightarrow> Some (Inl f)
         | Some (Inr (msg, s')) \<Rightarrow>
             if \<not> view_empty msg then
               (case jl_fields q s' (view_payload msg) of
                  None \<Rightarrow> Some (Inl OutOfBounds)
                | Some sig \<Rightarrow> Some (Inr (Signal (view_size msg) sig, dequeue_commit msg s')))
             else Some (Inr (Message_Empty, s')))
      else Some (Inr (Asleep, s)))"

section \<open>Properties\<close>

definition signal_of :: "byte list \<Rightarrow> jl_signal" where
  "signal_of m =
     \<lparr>inst_id = u32_of_bytes (mem_slice m 0 4), data_time = u64_of_bytes (mem_slice m 8 8),
      signal_time = u64_of_bytes (mem_slice m 16 8), recv_time = u64_of_bytes (mem_slice m 24 8),
      exe_time = u64_of_bytes (mem_slice m 32 8), sig_value = u64_of_bytes (mem_slice m 40 8)\<rparr>"

lemma mem_slice_slice: "off + n \<le> k \<Longrightarrow> mem_slice (mem_slice mem a k) off n = mem_slice mem (a + off) n"
  by (simp add: mem_slice_def drop_take add.commute min_def)

text \<open>Where a load at an offset from the payload of the oldest message goes.\<close>

definition head_read :: "SPSCStorage \<Rightarrow> nat \<Rightarrow> nat \<Rightarrow> byte list option" where
  "head_read s off n = mem_read (st_buffer s) (unat (st_read_ix (skip_sentinel s)) + 8 + off) n"

lemma jl_load:
  assumes "ring_rep s (m # ms)" and "off \<le> 2 ^ 62"
  shows "load_view q (skip_sentinel s) (view_payload (head_view q s m) + word_of_nat off) n =
    head_read s off n"
proof -
  have "unat (st_read_ix (skip_sentinel s) + 8 + word_of_nat off) = unat (st_read_ix (skip_sentinel s)) + 8 + off"
    using head_view_simps(3) [OF assms(1)] assms(2) by (simp add: unat_word_ariths unat_of_nat)
  moreover have "view_payload (head_view q s m) + word_of_nat off - q_buffer q =
      st_read_ix (skip_sentinel s) + 8 + word_of_nat off"
    by (simp add: head_view_def MessageView_new_def)
  moreover have "st_buffer (skip_sentinel s) = st_buffer s"
    by (simp add: skip_sentinel_def)
  ultimately show ?thesis
    unfolding load_view_def head_read_def by presburger
qed

lemma jl_load_message:
  assumes "ring_rep s (m # ms)" and "off + n \<le> length m"
  shows "head_read s off n = Some (mem_slice m off n)"
proof -
  let ?r = "unat (st_read_ix (skip_sentinel s))"
  obtain j where seg: "seg (st_buffer s) ?r [m] j"
    using ring_rep_head [OF assms(1)] by blast
  then have "?r + 8 + length m \<le> length (st_buffer s)" "m = mem_slice (st_buffer s) (?r + 8) (length m)"
    by (auto simp: mem_slice_def)
  then show ?thesis
    using assms(2) mem_slice_slice [OF assms(2), of "st_buffer s" "?r + 8"] by (simp add: head_read_def mem_read_def)
qed

lemma jl_fields_reads:
  assumes ring: "ring_rep s (m # ms)"
  shows "jl_fields q (skip_sentinel s) (view_payload (head_view q s m)) = do {
     b0 \<leftarrow> head_read s 0 4; b1 \<leftarrow> head_read s 8 8; b2 \<leftarrow> head_read s 16 8; b3 \<leftarrow> head_read s 24 8; b4 \<leftarrow> head_read s 32 8; b5 \<leftarrow> head_read s 40 8;
     Some \<lparr>inst_id = u32_of_bytes b0, data_time = u64_of_bytes b1, signal_time = u64_of_bytes b2,
           recv_time = u64_of_bytes b3, exe_time = u64_of_bytes b4, sig_value = u64_of_bytes b5\<rparr> }"
  using jl_load [OF ring, of 0 q] jl_load [OF ring, of 8 q] jl_load [OF ring, of 16 q]
    jl_load [OF ring, of 24 q] jl_load [OF ring, of 32 q] jl_load [OF ring, of 40 q]
  by (simp add: jl_fields_def add.assoc)

lemma jl_poll_message:
  assumes "queue_rep s (m # ms)"
  shows "jl_poll q s =
    (case jl_fields q (skip_sentinel s) (view_payload (head_view q s m)) of
       None \<Rightarrow> Some (Inl OutOfBounds)
     | Some sig \<Rightarrow> Some (Inr (Signal (word_of_nat (length m)) sig, dequeue_commit (head_view q s m) (skip_sentinel s))))"
proof -
  have ring: "ring_rep s (m # ms)" using assms by (simp add: queue_rep_def)
  have "unat (queue_size s) = length (m # ms)" using queue_rep_count [OF assms] by (simp add: queue_size_def)
  then have "queue_size s > 0" by (simp add: word_less_nat_alt)
  then show ?thesis
    using dequeue_begin_head [OF ring, of q] head_view_nonempty [OF ring, of q]
    by (simp add: jl_poll_def) (simp add: head_view_def MessageView_new_def split: option.split)
qed

text \<open>
  A round of the reader on a queue whose oldest message has all fields prints its size and fields and
  removes it; on an empty queue it sleeps and changes nothing. With a shorter message the fields behind its
  end are read from whatever follows it, and where nothing follows the read leaves the shared memory.
\<close>

theorem jl_poll_correct:
  "(queue_rep s (m # ms) \<and> 48 \<le> length m \<longrightarrow>
      (\<exists>s'. jl_poll q s = Some (Inr (Signal (word_of_nat (length m)) (signal_of m), s')) \<and> queue_rep s' ms)) \<and>
   (queue_rep s [] \<longrightarrow> jl_poll q s = Some (Inr (Asleep, s))) \<and>
   (queue_rep s (m # ms) \<and> length (st_buffer s) < unat (st_read_ix (skip_sentinel s)) + 56 \<longrightarrow>
      jl_poll q s = Some (Inl OutOfBounds))"
proof (intro conjI impI)
  assume rep: "queue_rep s (m # ms) \<and> 48 \<le> length m"
  then have ring: "ring_rep s (m # ms)" by (simp add: queue_rep_def)
  have "jl_fields q (skip_sentinel s) (view_payload (head_view q s m)) = Some (signal_of m)"
    using rep unfolding jl_fields_reads [OF ring] by (simp add: jl_load_message [OF ring] signal_of_def)
  then show "\<exists>s'. jl_poll q s = Some (Inr (Signal (word_of_nat (length m)) (signal_of m), s')) \<and> queue_rep s' ms"
    using dequeue_commit_queue [of s m ms q] rep jl_poll_message [of s m ms q] by simp
next
  assume "queue_rep s []"
  then show "jl_poll q s = Some (Inr (Asleep, s))"
    using queue_rep_count [of s "[]"] by (simp add: jl_poll_def queue_size_def word_less_nat_alt)
next
  assume rep: "queue_rep s (m # ms) \<and> length (st_buffer s) < unat (st_read_ix (skip_sentinel s)) + 56"
  then have ring: "ring_rep s (m # ms)" by (simp add: queue_rep_def)
  have "head_read s 40 8 = None"
    using rep by (simp add: head_read_def mem_read_def)
  then have "jl_fields q (skip_sentinel s) (view_payload (head_view q s m)) = None"
    unfolding jl_fields_reads [OF ring] by (auto split: Option.bind_splits)
  then show "jl_poll q s = Some (Inl OutOfBounds)"
    using rep jl_poll_message [of s m ms q] by simp
qed

end
