(* ===== verification/Time_Stamps.thy ===== *)
theory Time_Stamps
  imports Complex_Main "HOL-Library.Multiset" Ipc_Prelude
begin

text \<open>
  The time stamp counter of \<^verbatim>\<open>rdtsc.hpp\<close>: \<^verbatim>\<open>read\<close>, and the calibration
  \<^verbatim>\<open>measure_cycles_per_ns\<close> that every benchmark runs first. The counter and
  \<^verbatim>\<open>CLOCK_MONOTONIC\<close> are the machine's, so both are functions of an arbitrary hardware state;
  the double precision operations are a record of functions on an arbitrary linear order, so that
  what is proved holds for IEEE arithmetic without NaN as well as for exact arithmetic. Integers
  are kept at 64 bits with the signedness of the code. The busy wait is a partial function:
  \<^term>\<open>None\<close> is a wait that never ends.
\<close>

section \<open>The machine and its arithmetic\<close>

type_synonym i64 = "64 word"

record timespec =
  tv_sec :: i64
  tv_nsec :: i64

text \<open>\<^verbatim>\<open>tp.tv_sec * 1000000000 + tp.tv_nsec\<close>\<close>

definition ns_of :: "timespec \<Rightarrow> i64" where
  "ns_of tp = tv_sec tp * 1000000000 + tv_nsec tp"

text \<open>\<^verbatim>\<open>__rdtsc()\<close> and \<^verbatim>\<open>clock_gettime(CLOCK_MONOTONIC, &tp)\<close>\<close>

record 'h machine =
  hw_rdtsc :: "'h \<Rightarrow> u64 \<times> 'h"
  hw_clock :: "'h \<Rightarrow> timespec \<times> 'h"

text \<open>The conversions to \<^verbatim>\<open>double\<close> and the operations on it that the code uses.\<close>

record 'd arith =
  of_i64 :: "i64 \<Rightarrow> 'd"
  of_u64 :: "u64 \<Rightarrow> 'd"
  fp_sub :: "'d \<Rightarrow> 'd \<Rightarrow> 'd"
  fp_div :: "'d \<Rightarrow> 'd \<Rightarrow> 'd"

section \<open>The code\<close>

text \<open>The conversion of the counter to \<^verbatim>\<open>int64_t\<close> keeps its bits.\<close>

definition read :: "'h machine \<Rightarrow> 'h \<Rightarrow> i64 \<times> 'h" where
  "read hw h = hw_rdtsc hw h"

text \<open>\<^verbatim>\<open>for (...) clock_gettime(CLOCK_MONOTONIC, &tp);\<close>\<close>

primrec clock_calls :: "'h machine \<Rightarrow> nat \<Rightarrow> timespec \<Rightarrow> 'h \<Rightarrow> timespec \<times> 'h" where
  "clock_calls hw 0 tp h = (tp, h)"
| "clock_calls hw (Suc n) tp h = (let (tp, h) = hw_clock hw h in clock_calls hw n tp h)"

definition measure_overhead :: "'d arith \<Rightarrow> 'h machine \<Rightarrow> 'h \<Rightarrow> 'd \<times> 'h" where
  "measure_overhead fp hw h = (let
     (tp, h) = hw_clock hw h;
     start_t = ns_of tp;
     (tp, h) = clock_calls hw 10000 tp h;
     end_t = ns_of tp
   in (fp_div fp (of_i64 fp (end_t - start_t)) (of_i64 fp 10000), h))"

primrec warm_up :: "'h machine \<Rightarrow> nat \<Rightarrow> 'h \<Rightarrow> 'h" where
  "warm_up hw 0 h = h"
| "warm_up hw (Suc n) h = (let (_, h) = read hw h; (_, h) = hw_clock hw h in warm_up hw n h)"

text \<open>\<^verbatim>\<open>for (; tp < end; clock_gettime(CLOCK_MONOTONIC, &tp));\<close>, a comparison of signed integers\<close>

partial_function (option) busy_wait :: "'h machine \<Rightarrow> i64 \<Rightarrow> timespec \<Rightarrow> 'h \<Rightarrow> 'h option" where
  "busy_wait hw end_ns tp h =
     (if sint (ns_of tp) < sint end_ns
      then (let (tp, h) = hw_clock hw h in busy_wait hw end_ns tp h)
      else Some h)"

definition measurement :: "'d arith \<Rightarrow> 'h machine \<Rightarrow> 'd \<Rightarrow> 'h \<Rightarrow> ('d \<times> 'h) option" where
  "measurement fp hw overhead_per_call h = (let
     (start_cycles, h) = read hw h;
     (tp, h) = hw_clock hw h;
     start = ns_of tp;
     end_ns = start + 10000
   in do {
     h \<leftarrow> busy_wait hw end_ns tp h;
     let (end_cycles, h) = read hw h;
     Some (fp_div fp (of_u64 fp (end_cycles - start_cycles))
                     (fp_sub fp (of_i64 fp (end_ns - start)) overhead_per_call), h)
   })"

primrec measurements :: "'d arith \<Rightarrow> 'h machine \<Rightarrow> 'd \<Rightarrow> nat \<Rightarrow> 'h \<Rightarrow> ('d list \<times> 'h) option" where
  "measurements fp hw ov 0 h = Some ([], h)"
| "measurements fp hw ov (Suc n) h = do {
     (m, h) \<leftarrow> measurement fp hw ov h;
     (ms, h) \<leftarrow> measurements fp hw ov n h;
     Some (m # ms, h)
   }"

text \<open>
  \<^verbatim>\<open>std::nth_element\<close> permutes the range so that the element at the given position is the one
  sorting would put there; the position is all that is read afterwards.
\<close>

definition nth_element :: "'d::linorder list \<Rightarrow> nat \<Rightarrow> 'd" where
  "nth_element xs n = sort xs ! n"

definition measure_cycles_per_ns :: "'d::linorder arith \<Rightarrow> 'h machine \<Rightarrow> 'h \<Rightarrow> ('d \<times> 'h) option" where
  "measure_cycles_per_ns fp hw h = (let
     (overhead_per_call, h) = measure_overhead fp hw h;
     h = warm_up hw 1000 h
   in do {
     (ms, h) \<leftarrow> measurements fp hw overhead_per_call 1001 h;
     Some (nth_element ms (1001 div 2), h)
   })"

section \<open>The result is the median\<close>

lemma measurements_length:
  "measurements fp hw ov n h = Some (ms, h') \<Longrightarrow> length ms = n"
  by (induction n arbitrary: h ms) (auto split: bind_splits)

lemma count_sort:
  fixes xs :: "'a::linorder list"
  shows "length (filter P (sort xs)) = length (filter P xs)"
  by (metis mset_filter mset_sort size_mset)

lemma nth_element_mem: "n < length xs \<Longrightarrow> nth_element xs n \<in> set xs"
  unfolding nth_element_def using nth_mem [of n "sort xs"] by simp

lemma nth_element_below:
  assumes "n < length xs"
  shows "Suc n \<le> length (filter (\<lambda>x. x \<le> nth_element xs n) xs)"
proof -
  let ?P = "\<lambda>x. x \<le> sort xs ! n"
  have "length (filter ?P (take (Suc n) (sort xs))) \<le> length (filter ?P (sort xs))"
    by (metis append_take_drop_id filter_append le_add1 length_append)
  moreover have "filter ?P (take (Suc n) (sort xs)) = take (Suc n) (sort xs)"
    using assms by (auto simp: filter_id_conv in_set_conv_nth intro!: sorted_nth_mono)
  ultimately show ?thesis
    using assms by (simp add: nth_element_def count_sort)
qed

lemma nth_element_above:
  assumes "n < length xs"
  shows "length xs - n \<le> length (filter (\<lambda>x. nth_element xs n \<le> x) xs)"
proof -
  let ?P = "\<lambda>x. sort xs ! n \<le> x"
  have "length (filter ?P (drop n (sort xs))) \<le> length (filter ?P (sort xs))"
    by (metis append_take_drop_id filter_append le_add2 length_append)
  moreover have "filter ?P (drop n (sort xs)) = drop n (sort xs)"
    using assms by (auto simp: filter_id_conv in_set_conv_nth intro!: sorted_nth_mono)
  ultimately show ?thesis
    using assms by (simp add: nth_element_def count_sort)
qed

lemma nth_element_replicate: "n < k \<Longrightarrow> nth_element (replicate k x) n = x"
  using nth_element_mem [of n "replicate k x"] by simp

text \<open>
  The calibration returns the median of its 1001 measurements: one of them, with at least 501 of
  them not above it and at least 501 not below it.
\<close>

theorem measure_cycles_median:
  assumes "measure_cycles_per_ns fp hw h = Some (r, h')"
  shows "\<exists>ms. measurements fp hw (fst (measure_overhead fp hw h)) 1001
                (warm_up hw 1000 (snd (measure_overhead fp hw h))) = Some (ms, h') \<and>
              length ms = 1001 \<and> r \<in> set ms \<and>
              501 \<le> length (filter (\<lambda>x. x \<le> r) ms) \<and> 501 \<le> length (filter (\<lambda>x. r \<le> x) ms)"
proof -
  obtain ms where ms: "measurements fp hw (fst (measure_overhead fp hw h)) 1001
      (warm_up hw 1000 (snd (measure_overhead fp hw h))) = Some (ms, h')"
    and r: "r = nth_element ms 500"
    using assms unfolding measure_cycles_per_ns_def
    by (auto simp: split_beta Let_def split: bind_splits)
  have len: "length ms = 1001"
    using measurements_length [OF ms] .
  then show ?thesis
    using ms r nth_element_mem [of 500 ms] nth_element_below [of 500 ms]
      nth_element_above [of 500 ms] by auto
qed

section \<open>The calibration returns\<close>

lemma sint_now: "n < 2 ^ 63 \<Longrightarrow> sint (word_of_nat n :: i64) = int n"
  by (simp add: signed_of_nat signed_take_bit_int_eq_self)

text \<open>
  What the busy wait relies on: every call of the clock takes at least one and at most \<open>d\<close>
  nanoseconds and reads the time it ends at, and reading the counter takes at most \<open>d\<close>.
\<close>

locale steady_clock =
  fixes hw :: "'h machine" and now :: "'h \<Rightarrow> nat" and d :: nat
  assumes clock_reads: "hw_clock hw h = (tp, h') \<Longrightarrow> ns_of tp = word_of_nat (now h')"
    and clock_advances: "hw_clock hw h = (tp, h') \<Longrightarrow> now h < now h'"
    and clock_delay: "hw_clock hw h = (tp, h') \<Longrightarrow> now h' \<le> now h + d"
    and read_advances: "hw_rdtsc hw h = (c, h') \<Longrightarrow> now h \<le> now h'"
    and read_delay: "hw_rdtsc hw h = (c, h') \<Longrightarrow> now h' \<le> now h + d"
begin

lemma busy_wait_returns:
  assumes "ns_of tp = word_of_nat (now h)" "now h \<le> e + d" "e + d < 2 ^ 63"
  shows "\<exists>h'. busy_wait hw (word_of_nat e) tp h = Some h' \<and> e \<le> now h' \<and> now h' \<le> e + d"
  using assms
proof (induction "e - now h" arbitrary: tp h rule: less_induct)
  case less
  have sint: "sint (ns_of tp) = int (now h)" "sint (word_of_nat e :: i64) = int e"
    using less.prems by (simp_all add: sint_now)
  show ?case
  proof (cases "now h < e")
    case True
    obtain tp' h1 where c: "hw_clock hw h = (tp', h1)"
      by force
    from clock_advances [OF c] clock_delay [OF c] True
    have "e - now h1 < e - now h" "now h1 \<le> e + d"
      by simp_all
    with less.hyps [of h1 tp'] clock_reads [OF c] less.prems(3) obtain h' where
      "busy_wait hw (word_of_nat e) tp' h1 = Some h'" "e \<le> now h'" "now h' \<le> e + d"
      by fastforce
    then show ?thesis
      using True sint c by (subst busy_wait.simps) simp
  next
    case False
    then show ?thesis
      using sint less.prems by (subst busy_wait.simps) simp
  qed
qed

lemma clock_calls_now:
  assumes "clock_calls hw n tp h = (tp', h')"
  shows "now h \<le> now h' \<and> now h' \<le> now h + n * d"
  using assms
proof (induction n arbitrary: tp h)
  case (Suc n)
  obtain tp1 h1 where c: "hw_clock hw h = (tp1, h1)"
    by force
  with Suc.prems Suc.IH [of tp1 h1] clock_advances [OF c] clock_delay [OF c] show ?case
    by simp
qed simp

lemma warm_up_now: "now h \<le> now (warm_up hw n h) \<and> now (warm_up hw n h) \<le> now h + n * (2 * d)"
proof (induction n arbitrary: h)
  case (Suc n)
  obtain c h1 where r: "hw_rdtsc hw h = (c, h1)"
    by force
  obtain tp h2 where c: "hw_clock hw h1 = (tp, h2)"
    by force
  from Suc.IH [of h2] read_advances [OF r] read_delay [OF r] clock_advances [OF c]
    clock_delay [OF c] r c show ?case
    by (simp add: read_def)
qed simp

lemma measurement_returns:
  assumes "now h + 10000 + 3 * d < 2 ^ 63"
  shows "\<exists>m h'. measurement fp hw ov h = Some (m, h') \<and>
    now h + 10000 \<le> now h' \<and> now h' \<le> now h + 10000 + 4 * d"
proof -
  obtain c h1 where r: "hw_rdtsc hw h = (c, h1)"
    by force
  obtain tp h2 where k: "hw_clock hw h1 = (tp, h2)"
    by force
  have "\<exists>h3. busy_wait hw (word_of_nat (now h2 + 10000)) tp h2 = Some h3 \<and>
      now h2 + 10000 \<le> now h3 \<and> now h3 \<le> now h2 + 10000 + d"
    using assms read_delay [OF r] clock_delay [OF k] clock_reads [OF k]
    by (intro busy_wait_returns) simp_all
  then obtain h3 where w: "busy_wait hw (word_of_nat (now h2 + 10000)) tp h2 = Some h3"
      "now h2 + 10000 \<le> now h3" "now h3 \<le> now h2 + 10000 + d"
    by blast
  obtain c' h4 where r': "hw_rdtsc hw h3 = (c', h4)"
    by force
  show ?thesis
    using w r k r' clock_reads [OF k] read_advances [OF r] read_delay [OF r]
      clock_advances [OF k] clock_delay [OF k] read_advances [OF r'] read_delay [OF r']
    by (simp add: measurement_def read_def)
qed

lemma measurements_return:
  assumes "now h + n * (10000 + 4 * d) < 2 ^ 63"
  shows "\<exists>ms h'. measurements fp hw ov n h = Some (ms, h') \<and>
    now h + n * 10000 \<le> now h' \<and> now h' \<le> now h + n * (10000 + 4 * d)"
  using assms
proof (induction n arbitrary: h)
  case (Suc n)
  then obtain m h1 where m: "measurement fp hw ov h = Some (m, h1)"
      "now h + 10000 \<le> now h1" "now h1 \<le> now h + 10000 + 4 * d"
    using measurement_returns [of h fp ov] by auto
  with Suc.IH [of h1] Suc.prems obtain ms h2 where "measurements fp hw ov n h1 = Some (ms, h2)"
      "now h1 + n * 10000 \<le> now h2" "now h2 \<le> now h1 + n * (10000 + 4 * d)"
    by auto
  with m show ?case
    by auto
qed simp

lemma calibration_returns:
  assumes "now h + 10010000 + 16005 * d < 2 ^ 63"
  shows "\<exists>r h'. measure_cycles_per_ns fp hw h = Some (r, h') \<and>
    now h + 10010000 \<le> now h' \<and> now h' \<le> now h + 10010000 + 16005 * d"
proof -
  obtain tp h1 where k: "hw_clock hw h = (tp, h1)"
    by force
  obtain tp' h2 where c: "clock_calls hw 10000 tp h1 = (tp', h2)"
    by force
  let ?h = "warm_up hw 1000 h2"
  have ov: "snd (measure_overhead fp hw h) = h2"
    using k c by (simp add: measure_overhead_def)
  have up: "now h \<le> now ?h" "now ?h \<le> now h + 12001 * d"
    using warm_up_now [of h2 1000] clock_calls_now [OF c] clock_advances [OF k] clock_delay [OF k]
    by simp_all
  with assms have "now ?h + 1001 * (10000 + 4 * d) < 2 ^ 63"
    by simp
  from measurements_return [OF this, of fp "fst (measure_overhead fp hw h)"] ov up show ?thesis
    by (auto simp: measure_cycles_per_ns_def split_beta)
qed

end


section \<open>An ideal machine\<close>

text \<open>
  The reference machine the calibration should be exact on: a counter that runs at exactly \<open>c\<close>
  cycles per nanosecond, a clock whose calls each take exactly \<open>d\<close> nanoseconds, and exact
  arithmetic. Its state is the time.
\<close>

definition timespec_at :: "nat \<Rightarrow> timespec" where
  "timespec_at t = \<lparr>tv_sec = word_of_nat (t div 1000000000), tv_nsec = word_of_nat (t mod 1000000000)\<rparr>"

definition ideal_machine :: "nat \<Rightarrow> nat \<Rightarrow> nat machine" where
  "ideal_machine c d = \<lparr>hw_rdtsc = (\<lambda>t. (word_of_nat (c * t), t)),
                        hw_clock = (\<lambda>t. (timespec_at (t + d), t + d))\<rparr>"

definition exact :: "real arith" where
  "exact = \<lparr>of_i64 = (\<lambda>w. of_int (sint w)), of_u64 = (\<lambda>w. real (unat w)),
            fp_sub = (-), fp_div = (/)\<rparr>"

lemma ns_of_timespec_at [simp]: "ns_of (timespec_at t) = word_of_nat t"
proof -
  have "ns_of (timespec_at t) =
      word_of_nat (t div 1000000000 * 1000000000 + t mod 1000000000)"
    by (simp only: ns_of_def timespec_at_def timespec.simps of_nat_add of_nat_mult of_nat_numeral)
  then show ?thesis
    by (simp only: div_mult_mod_eq)
qed

lemma exact_i64: "n < 2 ^ 63 \<Longrightarrow> of_i64 exact (word_of_nat n) = real n"
  using sint_now [of n] by (simp add: exact_def del: of_int_sint)

lemma exact_u64: "n < 2 ^ 64 \<Longrightarrow> of_u64 exact (word_of_nat n) = real n"
  by (simp add: exact_def unat_word_of_nat_u64 del: of_nat_unat)

lemma exact_ops [simp]: "fp_sub exact = (-)" "fp_div exact = (/)"
  by (simp_all add: exact_def)

lemma ideal_rdtsc [simp]: "hw_rdtsc (ideal_machine c d) t = (word_of_nat (c * t), t)"
  by (simp add: ideal_machine_def)

lemma ideal_clock [simp]: "hw_clock (ideal_machine c d) t = (timespec_at (t + d), t + d)"
  by (simp add: ideal_machine_def)

interpretation ideal: steady_clock "ideal_machine c (Suc d)" id "Suc d" for c d
  by unfold_locales auto

lemma ideal_clock_calls:
  "clock_calls (ideal_machine c d) n (timespec_at t) t = (timespec_at (t + n * d), t + n * d)"
  by (induction n arbitrary: t) (simp_all add: add.assoc)

lemma ideal_warm_up: "warm_up (ideal_machine c d) n t = t + n * d"
  by (induction n arbitrary: t) (simp_all add: read_def)

lemma ideal_overhead:
  assumes "10000 * d < 2 ^ 63"
  shows "measure_overhead exact (ideal_machine c d) t = (real d, t + 10001 * d)"
proof -
  have "word_of_nat (t + d + 10000 * d) - word_of_nat (t + d) = (word_of_nat (10000 * d) :: i64)"
    by simp
  then show ?thesis
    using exact_i64 [OF assms] exact_i64 [of 10000]
    by (simp add: measure_overhead_def ideal_clock_calls)
qed

lemma ideal_busy_wait:
  assumes "0 < d" "t \<le> e + d" "e + d < 2 ^ 63"
  shows "busy_wait (ideal_machine c d) (word_of_nat e) (timespec_at t) t
    = Some (t + (e - t + d - 1) div d * d)"
  using assms(2)
proof (induction "e - t" arbitrary: t rule: less_induct)
  case less
  have sint: "sint (word_of_nat t :: i64) = int t" "sint (word_of_nat e :: i64) = int e"
    using less.prems assms by (simp_all add: sint_now)
  show ?case
  proof (cases "t < e")
    case True
    have "(e - t + d - 1) div d = Suc ((e - t - 1) div d)"
      using True assms(1) div_add_self2 [of d "e - t - 1"] by (simp add: algebra_simps)
    moreover have "(e - (t + d) + d - 1) div d = (e - t - 1) div d"
      using True assms(1) by (cases "t + d \<le> e") auto
    ultimately show ?thesis
      using less.hyps [of "t + d"] True assms(1) sint by (subst busy_wait.simps) simp
  next
    case False
    then show ?thesis
      using sint assms(1) by (subst busy_wait.simps) simp
  qed
qed

definition ideal_wait :: "nat \<Rightarrow> nat" where
  "ideal_wait d = (10000 + d - 1) div d * d"

lemma ideal_wait_ge: "0 < d \<Longrightarrow> 10000 \<le> ideal_wait d"
proof -
  assume "0 < d"
  then have "(10000 + d - 1) mod d \<le> d - 1"
    by (simp add: Suc_leI less_Suc_eq_le [symmetric])
  moreover have "ideal_wait d + (10000 + d - 1) mod d = 10000 + d - 1"
    unfolding ideal_wait_def by (rule div_mult_mod_eq)
  ultimately show ?thesis
    using \<open>0 < d\<close> by linarith
qed

lemma ideal_measurement:
  assumes "0 < d" "t + 10000 + 2 * d < 2 ^ 63" "c * (ideal_wait d + d) < 2 ^ 64"
  shows "measurement exact (ideal_machine c d) ov t =
    Some (real (c * (ideal_wait d + d)) / (10000 - ov), t + d + ideal_wait d)"
proof -
  have "busy_wait (ideal_machine c d) (word_of_nat (t + d + 10000)) (timespec_at (t + d)) (t + d)
      = Some (t + d + ideal_wait d)"
    using ideal_busy_wait [of d "t + d" "t + d + 10000" c] assms by (simp add: ideal_wait_def)
  moreover have "word_of_nat (c * (t + d + ideal_wait d)) - word_of_nat (c * t)
      = (word_of_nat (c * (ideal_wait d + d)) :: u64)"
    by (simp add: algebra_simps)
  ultimately show ?thesis
    using exact_u64 [OF assms(3)] exact_i64 [of 10000]
    by (simp add: measurement_def read_def)
qed


lemma ideal_wait_le: "0 < d \<Longrightarrow> ideal_wait d < 10000 + d"
  unfolding ideal_wait_def using div_times_less_eq_dividend [of "10000 + d - 1" d] by linarith

lemma ideal_measurements:
  assumes "0 < d" "t + n * (10000 + 2 * d) < 2 ^ 63" "c * (ideal_wait d + d) < 2 ^ 64"
  shows "measurements exact (ideal_machine c d) ov n t =
    Some (replicate n (real (c * (ideal_wait d + d)) / (10000 - ov)), t + n * (ideal_wait d + d))"
  using assms(2)
proof (induction n arbitrary: t)
  case (Suc n)
  have "t + 10000 + 2 * d < 2 ^ 63"
    using Suc.prems by simp
  moreover have "t + d + ideal_wait d + n * (10000 + 2 * d) < 2 ^ 63"
    using Suc.prems ideal_wait_le [OF assms(1)] by simp
  ultimately show ?case
    using Suc.IH [of "t + d + ideal_wait d"] ideal_measurement [OF assms(1) _ assms(3), of t ov]
    by (simp add: algebra_simps)
qed simp

lemma ideal_calibration:
  assumes "0 < d" "t + 10010000 + 20000 * d < 2 ^ 63" "c * (ideal_wait d + d) < 2 ^ 64"
  shows "measure_cycles_per_ns exact (ideal_machine c d) t =
    Some (real (c * (ideal_wait d + d)) / (10000 - real d), t + 11001 * d + 1001 * (ideal_wait d + d))"
proof -
  have "10000 * d < 2 ^ 63" "t + 11001 * d + 1001 * (10000 + 2 * d) < 2 ^ 63"
    using assms(2) by simp_all
  then show ?thesis
    using ideal_measurements [OF assms(1) _ assms(3), of "t + 11001 * d" 1001 "real d"]
    by (simp add: measure_cycles_per_ns_def ideal_overhead ideal_warm_up nth_element_replicate
        algebra_simps)
qed

text \<open>
  C37: on the ideal machine, with exact arithmetic, the calibration does not return the rate of the
  counter but more than it: the cycles of a measurement include the call of the clock that reads
  its start, and the time they are divided by is shortened by the duration of a call where it has
  to be lengthened by it. With calls of \<open>d\<close> ns the result is at least
  (10000 + \<open>d\<close>) / (10000 - \<open>d\<close>) times too large.
\<close>

theorem calibration_overestimates:
  assumes "0 < c" "0 < d" "d < 10000" "t + 10010000 + 20000 * d < 2 ^ 63" "c < 2 ^ 49"
  shows "\<exists>r t'. measure_cycles_per_ns exact (ideal_machine c d) t = Some (r, t') \<and>
    real c * (10000 + real d) / (10000 - real d) \<le> r \<and> real c < r"
proof -
  have w: "10000 \<le> ideal_wait d" "ideal_wait d + d < 2 ^ 15"
    using ideal_wait_ge [OF assms(2)] ideal_wait_le [OF assms(2)] assms(3) by simp_all
  have "c * (ideal_wait d + d) < 2 ^ 49 * 2 ^ 15"
    using w assms(5) by (intro mult_strict_mono) auto
  then have "measure_cycles_per_ns exact (ideal_machine c d) t =
    Some (real (c * (ideal_wait d + d)) / (10000 - real d), t + 11001 * d + 1001 * (ideal_wait d + d))"
    using ideal_calibration assms(2,4) by simp
  moreover have "real c * (10000 + real d) \<le> real (c * (ideal_wait d + d))"
    using w(1) by (simp add: mult_left_mono)
  then have "real c * (10000 + real d) / (10000 - real d) \<le> real (c * (ideal_wait d + d)) / (10000 - real d)"
    using assms(3) by (simp add: divide_right_mono)
  moreover have "real c < real c * (10000 + real d) / (10000 - real d)"
    using assms(1-3) by (simp add: pos_less_divide_eq)
  ultimately show ?thesis
    by (intro exI conjI) (assumption, assumption, rule less_le_trans)
qed

section \<open>Witnesses\<close>

text \<open>
  A 3 GHz counter and a clock of 25 ns per call, started at time 0: the calibration returns
  3 * 10025 / 9975, after 10310050 ns.
\<close>

lemma ideal_3ghz:
  "measure_cycles_per_ns exact (ideal_machine 3 25) 0 = Some (30075 / 9975, 10310050)"
  using ideal_calibration [of 25 0 3] by (simp add: ideal_wait_def)

theorem measure_cycles_median_witness:
  "\<exists>ms. measurements exact (ideal_machine 3 25)
        (fst (measure_overhead exact (ideal_machine 3 25) 0)) 1001
        (warm_up (ideal_machine 3 25) 1000 (snd (measure_overhead exact (ideal_machine 3 25) 0)))
        = Some (ms, 10310050) \<and> length ms = 1001 \<and> 30075 / 9975 \<in> set ms \<and>
      501 \<le> length (filter (\<lambda>x. x \<le> 30075 / 9975) ms) \<and>
      501 \<le> length (filter (\<lambda>x. 30075 / 9975 \<le> x) ms)"
  by (rule measure_cycles_median [OF ideal_3ghz])


theorem calibration_overestimates_witness:
  "\<exists>r t'. measure_cycles_per_ns exact (ideal_machine 3 25) 0 = Some (r, t') \<and>
    3 * 10025 / 9975 \<le> r \<and> 3 < r"
  using calibration_overestimates [of 3 25 0] by simp

end
