(* ===== verification/Bench_Utils.thy ===== *)
theory Bench_Utils
  imports Threads
begin

text \<open>
  \<^verbatim>\<open>bench/utils.hpp\<close>, and how the threads of the benchmarks begin: they pin and name themselves, and a
  reported failure ends the process. An exit is its status, as \<open>Inl\<close>.
\<close>

definition try_or_fail :: "PosixIpcError + 'a \<Rightarrow> int + unit" where
  "try_or_fail result = (case result of Inl e \<Rightarrow> Inl 1 | Inr _ \<Rightarrow> Inr ())"

text \<open>\<^verbatim>\<open>try_or_fail(threads::pin(cpu))\<close>\<close>

definition pin_or_fail :: "'w pthread_os \<Rightarrow> source_location \<Rightarrow> int \<Rightarrow> 'w \<Rightarrow> (int + unit) \<times> 'w" where
  "pin_or_fail os loc cpu w =
     (case pin_self os loc cpu w of (r, w1) \<Rightarrow> (try_or_fail r, w1))"

text \<open>The same, and then \<^verbatim>\<open>try_or_fail(threads::set_name(name))\<close>.\<close>

definition pin_and_name ::
    "'w pthread_os \<Rightarrow> source_location \<Rightarrow> int \<Rightarrow> string_view \<Rightarrow> 'w \<Rightarrow> (int + unit) \<times> 'w" where
  "pin_and_name os loc cpu name w =
     (case pin_or_fail os loc cpu w of
        (Inl status, w1) \<Rightarrow> (Inl status, w1)
      | (Inr _, w1) \<Rightarrow>
          (case set_name_self os loc name w1 of (r, w2) \<Rightarrow> (try_or_fail r, w2)))"

text \<open>A null-terminated literal.\<close>

definition literal :: "string \<Rightarrow> string_view" where
  "literal s = \<lparr>sv_mem = s @ [NUL], sv_size = length s\<rparr>"

lemma literal_c_str: "NUL \<notin> set s \<Longrightarrow> c_str (literal s) = s"
  unfolding c_str_def literal_def by (induction s) auto

text \<open>
  With the documented return values of the pthread calls the threads of the publish/subscribe benchmark
  always get past their first two lines, also when they could be neither pinned nor named; the system
  is asked for exactly that processor and that name.
\<close>

lemma benchmark_threads_begin:
  assumes "returns_error_numbers os" and "name = ''producer'' \<or> name = ''consumer''" and "0 \<le> cpu"
  shows "\<exists>w1. w1 = snd (pt_setaffinity os (pt_self os w) (CPU_SET cpu {}) w) \<and>
    pin_and_name os loc cpu (literal name) w = (Inr (), snd (pt_setname os (pt_self os w1) name w1))"
proof -
  have name: "c_str (literal name) = name" "length name = 8"
    using assms(2) by (auto intro!: literal_c_str simp: NUL_def)
  then have view: "view_of_data (literal name) = literal name"
    by (simp add: view_of_data_def literal_def)
  have "sv_size (literal name) \<le> 15" using name(2) by (simp add: literal_def)
  from set_name_ok [OF assms(1) this] pin_ok [OF assms(1)] assms(3) name(1) view show ?thesis
    by (simp add: pin_and_name_def pin_or_fail_def pin_self_def set_name_self_def try_or_fail_def)
qed

end
