(* ===== verification/PubSub_Benchmark.thy ===== *)
theory PubSub_Benchmark
  imports Pub_Sub Counting_Benchmarks
begin

text \<open>
  \<^verbatim>\<open>bench/bm_PubSub.cpp\<close>: a \<^verbatim>\<open>PubSub\<close> of one configuration and a subscriber of the same name, and between
  them a producer that publishes time stamps and a consumer that receives them. The loops are those of
  \<open>Queue_Benchmarks\<close>, here over the state of the process: the \<^verbatim>\<open>PubSub\<close> object, the system, which
  holds the shared memory that both ends map, and the consumer's local \<^verbatim>\<open>msg\<close>. Pinning and naming of
  threads, durations and rates are left out.
\<close>

section \<open>The code\<close>

type_synonym 'w psb_state = "PubSub \<times> 'w \<times> MessageView"

text \<open>
  \<open>data\<close> is the address of the producer's variable. As in \<open>Thread_Benchmarks\<close>, a call that faults or
  does not return would change nothing; that none does is part of what is shown.
\<close>

fun psb_push :: "'w posix_os \<Rightarrow> addr \<Rightarrow> u64 \<Rightarrow> 'w psb_state \<Rightarrow> bool \<times> 'w psb_state" where
  "psb_push os data stamp (ps, w, msg) =
     (case publish os [data \<mapsto> bytes_of_u64 stamp] (Message_borrows data 8) ps w of
        Some (Inr (b, ps', w')) \<Rightarrow> (b, ps', w', msg)
      | _ \<Rightarrow> (False, ps, w, msg))"

fun psb_front :: "'w posix_os \<Rightarrow> Subscriber \<Rightarrow> 'w psb_state \<Rightarrow> bool \<times> 'w psb_state" where
  "psb_front os sb (ps, w, msg) =
     (case subscriber_dequeue_begin os sb w of
        Some (Inr (v, w')) \<Rightarrow> (\<not> view_empty v, ps, w', v)
      | _ \<Rightarrow> (False, ps, w, msg))"

fun psb_item :: "'w posix_os \<Rightarrow> Subscriber \<Rightarrow> 'w psb_state \<Rightarrow> u64" where
  "psb_item os sb (ps, w, msg) =
     (case queue_region os (sub_queue sb) w of
        Inl _ \<Rightarrow> 0
      | Inr (q, mem) \<Rightarrow> own_item q (SPSCStorage_at mem, msg))"

fun psb_pop :: "'w posix_os \<Rightarrow> Subscriber \<Rightarrow> 'w psb_state \<Rightarrow> 'w psb_state" where
  "psb_pop os sb (ps, w, msg) =
     (case subscriber_dequeue_commit os sb msg w of
        Inl _ \<Rightarrow> (ps, w, msg)
      | Inr w' \<Rightarrow> (ps, w', msg))"

text \<open>\<open>read i\<close> is the time stamp taken for the \<open>i\<close>-th message.\<close>

definition pubsub_bench ::
    "'w posix_os \<Rightarrow> Subscriber \<Rightarrow> addr \<Rightarrow> (u64 \<Rightarrow> u64) \<Rightarrow> u64 \<Rightarrow> PubSub \<times> 'w \<Rightarrow>
       ('w psb_state, u64 \<times> u64 list) bench \<times>
       (('w psb_state, u64 \<times> u64 list) bench \<Rightarrow> ('w psb_state, u64 \<times> u64 list) bench \<Rightarrow> bool)" where
  "pubsub_bench os sb data read iters st =
     (bench_start (0, []) (fst st, snd st, MessageView_default),
      bench_step False read (0, []) (psb_push os data)
        (consumer_front print_latency (psb_front os sb) (psb_item os sb) (psb_pop os sb)) iters)"

text \<open>\<^verbatim>\<open>main\<close> uses a storage of one million bytes.\<close>

definition psb_storage_size :: u64 where "psb_storage_size = 1000000"

definition psb_iters :: u64 where "psb_iters = 100000000"

definition bench_cfg :: "u64 \<Rightarrow> PubSubConfig" where
  "bench_cfg size_bytes = \<lparr>cfg_shm_name = ''bench'', cfg_storage_size_bytes = size_bytes,
     cfg_queue_full_policy = DROP_NEWEST, cfg_log_message_drop = True\<rparr>"

text \<open>\<^verbatim>\<open>main\<close> up to its loop; an error makes it return 1.\<close>

definition psb_setup ::
    "'w posix_os \<Rightarrow> source_location \<Rightarrow> u64 \<Rightarrow> 'w \<Rightarrow> (PosixIpcError + Subscriber \<times> PubSub \<times> 'w) exec option" where
  "psb_setup os loc size_bytes w =
     (case sync_configs os loc [bench_cfg size_bytes] PubSub_new w of
        None \<Rightarrow> None
      | Some (Inl f) \<Rightarrow> Some (Inl f)
      | Some (Inr (Inl e, ps, w1)) \<Rightarrow> Some (Inr (Inl e))
      | Some (Inr (Inr _, ps, w1)) \<Rightarrow>
          (case Subscriber_from_config os loc (bench_cfg size_bytes) w1 of
             Inl f \<Rightarrow> Some (Inl f)
           | Inr (Inl e, w2) \<Rightarrow> Some (Inr (Inl e))
           | Inr (Inr sb, w2) \<Rightarrow> Some (Inr (Inr (sb, ps, w2)))))"

text \<open>The states that \<open>k\<close> calls of \<^verbatim>\<open>bench\<close> can end in: \<^verbatim>\<open>bench\<close> returns when both threads have ended.\<close>

inductive psb_runs ::
    "'w posix_os \<Rightarrow> Subscriber \<Rightarrow> addr \<Rightarrow> (nat \<Rightarrow> u64 \<Rightarrow> u64) \<Rightarrow> u64 \<Rightarrow> PubSub \<times> 'w \<Rightarrow> nat \<Rightarrow> PubSub \<times> 'w \<Rightarrow> bool"
  for os sb data reads iters st where
  psb_none: "psb_runs os sb data reads iters st 0 st"
| psb_next: "psb_runs os sb data reads iters st k st' \<Longrightarrow>
    (snd (pubsub_bench os sb data (reads k) iters st'))\<^sup>*\<^sup>* (fst (pubsub_bench os sb data (reads k) iters st')) b \<Longrightarrow>
    b_pc b = Finished \<Longrightarrow> b_produced b = iters \<Longrightarrow> b_queue b = (ps, w, msg) \<Longrightarrow>
    psb_runs os sb data reads iters st (Suc k) (ps, w)"

section \<open>The two ends as a queue\<close>

fun psb_rep ::
    "'w posix_os \<Rightarrow> ('w \<Rightarrow> addr \<Rightarrow> 'o option) \<Rightarrow> Publisher \<Rightarrow> Subscriber \<Rightarrow> nat \<Rightarrow> 'w psb_state \<Rightarrow> u64 list \<Rightarrow> bool" where
  "psb_rep os obj p sb B (ps, w, msg) xs \<longleftrightarrow>
     ps_publishers ps = [p] \<and> \<not> locked (ps_lock_obj ps) \<and>
     pubsub_rep os obj p sb B 16 w (map bytes_of_u64 xs) \<and> 40 \<le> B"

fun psb_held :: "'w posix_os \<Rightarrow> Subscriber \<Rightarrow> 'w psb_state \<Rightarrow> bool" where
  "psb_held os sb (ps, w, msg) \<longleftrightarrow>
     (case queue_region os (sub_queue sb) w of
        Inl _ \<Rightarrow> False
      | Inr (q, mem) \<Rightarrow> own_held q (SPSCStorage_at mem, msg))"

text \<open>The calls that the threads make in a state return, without a fault.\<close>

fun psb_calls_ok :: "'w posix_os \<Rightarrow> Subscriber \<Rightarrow> addr \<Rightarrow> u64 \<Rightarrow> 'w psb_state \<Rightarrow> bool" where
  "psb_calls_ok os sb data x (ps, w, msg) \<longleftrightarrow>
     (\<exists>r. publish os [data \<mapsto> bytes_of_u64 x] (Message_borrows data 8) ps w = Some (Inr r)) \<and>
     (\<exists>r. subscriber_dequeue_begin os sb w = Some (Inr r)) \<and>
     (\<exists>r. subscriber_dequeue_commit os sb msg w = Inr r)"

lemma psb_push_publisher:
  assumes "ps_publishers ps = [p]" and "\<not> locked (ps_lock_obj ps)"
  shows "psb_push os data x (ps, w, msg) =
    (case publisher_push os data p (bytes_of_u64 x) w of (b, w') \<Rightarrow> (b, ps, w', msg))"
  using assms
  by (auto simp: publish_def publisher_push_def guard_restores split: sum.splits prod.splits)

context posix_memory
begin

text \<open>What the subscriber finds after a store through either end.\<close>

lemma sub_region_store:
  assumes "sub_queue sb = Some qs" "obj w a = obj w (q_storage qs)"
    and "sys_region os a w = Some mem" "256 \<le> length mem"
    and "length (st_buffer s) = length (st_buffer (SPSCStorage_at mem))"
  shows "\<exists>mem'. queue_region os (sub_queue sb) (sys_store os a (SPSCStorage_put mem s) w) = Inr (qs, mem') \<and>
    SPSCStorage_at mem' = s"
proof -
  note put = put_at [OF assms(4,5)]
  have "sys_region os (q_storage qs) (sys_store os a (SPSCStorage_put mem s) w) = Some (SPSCStorage_put mem s)"
    using store_both [OF assms(3) put(2) assms(2)] .
  then show ?thesis
    using assms(1,4) put by (simp add: queue_region_def)
qed

lemma psb_push_held:
  assumes rep: "pubsub_rep os obj p sb B T w ms" and ok: "uniform_ok B T m" and ne: "ms \<noteq> []"
    and held: "psb_held os sb (ps, w, msg)" and push: "publisher_push os a p m w = (b, w')"
  shows "psb_held os sb (ps', w', msg)"
  using rep
proof (rule pubsub_repE)
  fix qp qs mem
  let ?s = "SPSCStorage_at mem"
  assume qs: "pub_queue p = Some qp" "sub_queue sb = Some qs"
    and obj: "obj w (q_storage qp) = obj w (q_storage qs)"
    and mem: "sys_region os (q_storage qp) w = Some mem" "256 \<le> length mem"
    and mem': "sys_region os (q_storage qs) w = Some mem"
    and u: "uniform_rep qp B T ?s ms" and B: "length (st_buffer ?s) = B"
  note pub = queue_region_Some [OF qs(1) mem] and sub = queue_region_Some [OF qs(2) mem' mem(2)]
  have h: "own_held qs (?s, msg)" using held sub by simp
  show ?thesis
  proof (cases "spsc_send qp a m ?s")
    case (Inl f)
    then have "w' = w"
      using push pub by (simp add: publisher_push_def publisher_publish_def spsc_send_def)
    then show ?thesis using held by simp
  next
    case (Inr r)
    obtain b' s' where r: "r = (b', s')" by (cases r)
    have step: "spsc_push qp a m ?s = (b', s')" using Inr r by (simp add: spsc_push_def)
    have w': "w' = sys_store os (q_storage qp) (SPSCStorage_put mem s') w"
      using push pub Inr r by (simp add: publisher_push_def publisher_publish_def spsc_send_def)
    have "length (st_buffer s') = B"
      using uniform_push_accept [OF u ok, of a s'] uniform_push_refuse [OF u ok, of a s'] step
      by (cases b') (auto dest: uniform_buffer)
    with B obtain mem1 where "queue_region os (sub_queue sb) w' = Inr (qs, mem1)" "SPSCStorage_at mem1 = s'"
      using sub_region_store [OF qs(2) obj mem, of s'] w' by auto
    moreover have "hdr s' = hdr ?s" "st_read_ix s' = st_read_ix ?s"
      using push_header [OF u ok ne step] by blast+
    then have "own_held qs (s', msg)" using h by simp
    ultimately show ?thesis by simp
  qed
qed

lemma psb_push_room:
  assumes rep: "pubsub_rep os obj p sb B 16 w []" and B: "40 \<le> B"
  shows "\<exists>w'. publisher_push os a p (bytes_of_u64 x) w = (True, w')"
  using rep
proof (rule pubsub_repE)
  fix qp qs mem
  let ?s = "SPSCStorage_at mem"
  assume q: "pub_queue p = Some qp"
    and mem: "sys_region os (q_storage qp) w = Some mem" "256 \<le> length mem"
    and u: "uniform_rep qp B 16 ?s []"
  have "own_rep qp B (?s, MessageView_default) []" using u B by simp
  from own_queue.push_room [OF this, of a False x]
  have "\<exists>s'. spsc_push qp a (bytes_of_u64 x) ?s = (True, s')"
    by (auto simp: own_push_spsc simp del: own_push.simps split: prod.splits)
  then show ?thesis
    using queue_region_Some [OF q mem]
    by (auto simp: publisher_push_def publisher_publish_def spsc_push_def spsc_send_def split: sum.splits)
qed

lemma psb_front_some:
  assumes rep: "pubsub_rep os obj p sb B 16 w (bytes_of_u64 x # ms)"
  shows "\<exists>w' v. psb_front os sb (ps, w, msg) = (True, ps, w', v) \<and>
    pubsub_rep os obj p sb B 16 w' (bytes_of_u64 x # ms) \<and> psb_held os sb (ps, w', v)"
  using rep
proof (rule pubsub_repE)
  fix qp qs mem
  let ?s = "SPSCStorage_at mem"
  assume qs: "pub_queue p = Some qp" "sub_queue sb = Some qs"
    and obj: "obj w (q_storage qp) = obj w (q_storage qs)"
    and mem: "sys_region os (q_storage qp) w = Some mem" "256 \<le> length mem"
    and mem': "sys_region os (q_storage qs) w = Some mem"
    and u: "uniform_rep qp B 16 ?s (bytes_of_u64 x # ms)" and att: "attached qs ?s"
    and B: "length (st_buffer ?s) = B"
  let ?v = "head_view qs ?s (bytes_of_u64 x)" and ?s1 = "skip_sentinel ?s"
  let ?w1 = "sys_store os (q_storage qs) (SPSCStorage_put mem ?s1) w"
  note head = own_head [OF uniform_swap [OF u att]]
  have front: "psb_front os sb (ps, w, msg) = (True, ps, ?w1, ?v)"
    using head(1,2) queue_region_Some [OF qs(2) mem' mem(2)] by (simp add: subscriber_dequeue_begin_def)
  have new: "uniform_rep qp B 16 ?s1 (bytes_of_u64 x # ms)" "attached qs ?s1"
    using own_head(3) [OF u] head(3) by (simp_all add: uniform_rep_def)
  obtain mem1 where "queue_region os (sub_queue sb) ?w1 = Inr (qs, mem1)" "SPSCStorage_at mem1 = ?s1"
    using sub_region_store [OF qs(2) refl mem' mem(2), of ?s1] uniform_buffer [OF new(1)] B by auto
  then have "psb_held os sb (ps, ?w1, ?v)" using head(4) by simp
  moreover have "pubsub_rep os obj p sb B 16 ?w1 (bytes_of_u64 x # ms)"
    using pubsub_rep_store [OF qs obj mem B new] by simp
  ultimately show ?thesis using front by blast
qed

lemma psb_front_none:
  assumes rep: "pubsub_rep os obj p sb B 16 w []"
  shows "\<exists>w' v. psb_front os sb (ps, w, msg) = (False, ps, w', v) \<and> pubsub_rep os obj p sb B 16 w' []"
  using rep
proof (rule pubsub_repE)
  fix qp qs mem
  let ?s = "SPSCStorage_at mem"
  assume qs: "pub_queue p = Some qp" "sub_queue sb = Some qs"
    and obj: "obj w (q_storage qp) = obj w (q_storage qs)"
    and mem: "sys_region os (q_storage qp) w = Some mem" "256 \<le> length mem"
    and mem': "sys_region os (q_storage qs) w = Some mem"
    and u: "uniform_rep qp B 16 ?s []" and att: "attached qs ?s" and B: "length (st_buffer ?s) = B"
  have "dequeue_begin qs ?s = Some (Inr (MessageView_default, ?s))"
    using u by (intro dequeue_begin_empty) (simp add: uniform_rep_def queue_rep_def)
  then have "psb_front os sb (ps, w, msg) =
      (False, ps, sys_store os (q_storage qs) (SPSCStorage_put mem ?s) w, MessageView_default)"
    using queue_region_Some [OF qs(2) mem' mem(2)]
    by (simp add: subscriber_dequeue_begin_def view_empty_def MessageView_default_def)
  then show ?thesis using pubsub_rep_store [OF qs obj mem B u att] by blast
qed

lemma psb_taken:
  assumes rep: "pubsub_rep os obj p sb B 16 w (bytes_of_u64 x # ms)" and held: "psb_held os sb (ps, w, msg)"
  shows "psb_item os sb (ps, w, msg) = x \<and>
    (\<exists>w'. psb_pop os sb (ps, w, msg) = (ps, w', msg) \<and> pubsub_rep os obj p sb B 16 w' ms)"
  using rep
proof (rule pubsub_repE)
  fix qp qs mem
  let ?s = "SPSCStorage_at mem"
  assume qs: "pub_queue p = Some qp" "sub_queue sb = Some qs"
    and obj: "obj w (q_storage qp) = obj w (q_storage qs)"
    and mem: "sys_region os (q_storage qp) w = Some mem" "256 \<le> length mem"
    and mem': "sys_region os (q_storage qs) w = Some mem"
    and u: "uniform_rep qp B 16 ?s (bytes_of_u64 x # ms)" and att: "attached qs ?s"
    and B: "length (st_buffer ?s) = B"
  note sub = queue_region_Some [OF qs(2) mem' mem(2)]
  note u' = uniform_swap [OF u att]
  have h: "own_held qs (?s, msg)" using held sub by simp
  then have v: "msg = head_view qs ?s (bytes_of_u64 x)" "skip_sentinel ?s = ?s"
    by (auto simp: head_view_index skip_none)
  have "psb_item os sb (ps, w, msg) = x" using own_load [OF u' h] sub by simp
  moreover have "uniform_rep qs B 16 (dequeue_commit msg ?s) ms"
    using uniform_pop_first [OF u'] v by simp
  then have "uniform_rep qp B 16 (dequeue_commit msg ?s) ms" "attached qs (dequeue_commit msg ?s)"
    using u att attached_swap [of qs ?s qp "dequeue_commit msg ?s"] by (auto simp: uniform_rep_def)
  from pubsub_rep_store [OF qs obj mem B this]
  have "pubsub_rep os obj p sb B 16
      (sys_store os (q_storage qs) (SPSCStorage_put mem (dequeue_commit msg ?s)) w) ms" by blast
  ultimately show ?thesis using sub by (simp add: subscriber_dequeue_commit_def)
qed

end

sublocale posix_memory \<subseteq> psb: front_channel
  "psb_rep os obj p sb B" "psb_held os sb" "psb_push os data" "psb_front os sb" "psb_item os sb" "psb_pop os sb"
  for p sb B data
proof
  fix st st' :: "'w psb_state" and xs x b
  obtain ps w msg where st: "st = (ps, w, msg)" by (cases st)
  {
    assume rep: "psb_rep os obj p sb B st xs" and push: "psb_push os data x st = (b, st')"
    then have p: "ps_publishers ps = [p]" "\<not> locked (ps_lock_obj ps)" and ok: "uniform_ok B 16 (bytes_of_u64 x)"
      and r: "pubsub_rep os obj p sb B 16 w (map bytes_of_u64 xs)"
      using number_ok by (auto simp: st)
    obtain w' where w': "publisher_push os data p (bytes_of_u64 x) w = (b, w')" "st' = (ps, w', msg)"
      using push unfolding st psb_push_publisher [OF p] by (auto split: prod.splits)
    show "psb_rep os obj p sb B st' (if b then xs @ [x] else xs)"
      using pubsub_push [OF r ok w'(1)] rep w'(2) by (cases b) (simp_all add: st)
    show "psb_held os sb st'" if "psb_held os sb st" "xs \<noteq> []"
      using psb_push_held [OF r ok _ _ w'(1)] that by (simp add: st w'(2))
  next
    assume rep: "psb_rep os obj p sb B st []"
    then have p: "ps_publishers ps = [p]" "\<not> locked (ps_lock_obj ps)" and B: "40 \<le> B"
      and r: "pubsub_rep os obj p sb B 16 w []" by (simp_all add: st)
    show "\<exists>st'. psb_push os data x st = (True, st')"
      using psb_push_room [OF r B, of data x] unfolding st psb_push_publisher [OF p] by force
    show "\<exists>st'. psb_front os sb st = (False, st') \<and> psb_rep os obj p sb B st' []"
      using psb_front_none [OF r, of ps msg] rep by (auto simp: st simp del: psb_front.simps)
  next
    assume rep: "psb_rep os obj p sb B st (x # xs)"
    then have r: "pubsub_rep os obj p sb B 16 w (bytes_of_u64 x # map bytes_of_u64 xs)" by (simp add: st)
    show "\<exists>st'. psb_front os sb st = (True, st') \<and> psb_rep os obj p sb B st' (x # xs) \<and> psb_held os sb st'"
      using psb_front_some [OF r, of ps msg] rep by (auto simp: st simp del: psb_front.simps psb_held.simps)
    assume held: "psb_held os sb st"
    show "psb_item os sb st = x" "psb_rep os obj p sb B (psb_pop os sb st) xs"
      using psb_taken [OF r, of ps msg] held rep
      by (auto simp: st simp del: psb_item.simps psb_pop.simps psb_held.simps)
  }
qed

context posix_memory
begin

lemma psb_bench_reach:
  assumes "psb_rep os obj p sb B (ps, w, msg) []"
    and "(snd (pubsub_bench os sb data read iters (ps, w)))\<^sup>*\<^sup>*
      (fst (pubsub_bench os sb data read iters (ps, w))) b"
  shows "bench_inv read (0, []) print_latency True (psb_rep os obj p sb B) (psb_held os sb) iters b \<and>
    (\<exists>b'. (snd (pubsub_bench os sb data read iters (ps, w)))\<^sup>*\<^sup>* b b' \<and> b_pc b' = Finished)"
  using psb.front_reach [of p sb B "(ps, w, MessageView_default)" False "read" "(0, [])" data print_latency iters b]
    assms by (simp add: pubsub_bench_def)

lemma psb_runs_rep:
  assumes "psb_runs os sb data reads iters st k st'" and "psb_rep os obj p sb B (fst st, snd st, msg) []"
  shows "psb_rep os obj p sb B (fst st', snd st', msg) []"
  using assms
proof (induction rule: psb_runs.induct)
  case (psb_next k st' b ps w msg')
  have "bench_inv (reads k) (0, []) print_latency True (psb_rep os obj p sb B) (psb_held os sb) iters b"
    using psb_bench_reach [of p sb B "fst st'" "snd st'" msg data "reads k" iters b] psb_next by simp
  moreover from this have "b_counter b = iters" using psb_next.hyps(3) by (simp add: bench_inv_def)
  ultimately have "psb_rep os obj p sb B (b_queue b) []"
    using psb_next.hyps(3,4) by (simp add: bench_inv_def unread_from_def sent_simps)
  then show ?case using psb_next.hyps(5) by simp
qed

text \<open>Every call of a reachable state returns, without a fault.\<close>

lemma psb_calls_return:
  assumes "psb_rep os obj p sb B (ps, w, msg) xs"
  shows "psb_calls_ok os sb data x (ps, w, msg)"
proof -
  have p: "ps_publishers ps = [p]" "\<not> locked (ps_lock_obj ps)" and B: "40 \<le> B"
    and "pubsub_rep os obj p sb B 16 w (map bytes_of_u64 xs)" using assms by simp_all
  from this(4) show ?thesis
  proof (rule pubsub_repE)
    fix qp qs mem
    let ?s = "SPSCStorage_at mem"
    assume qs: "pub_queue p = Some qp" "sub_queue sb = Some qs"
      and mem: "sys_region os (q_storage qp) w = Some mem" "256 \<le> length mem"
      and mem': "sys_region os (q_storage qs) w = Some mem"
      and u: "uniform_rep qp B 16 ?s (map bytes_of_u64 xs)" and att: "attached qs ?s"
    have "own_rep qp B (?s, msg) xs" "own_rep qs B (?s, msg) xs"
      using u uniform_swap [OF u att] B by simp_all
    then have calls: "\<exists>r. enqueue qp [data \<mapsto> bytes_of_u64 x] (Message_borrows data 8) ?s = Inr r"
      "\<exists>r. dequeue_begin qs ?s = Some (Inr r)"
      unfolding Message_borrows_def using own_calls_return by blast+
    note regions = queue_region_Some [OF qs(1) mem] queue_region_Some [OF qs(2) mem' mem(2)]
    from calls(1) have "\<exists>r. publish os [data \<mapsto> bytes_of_u64 x] (Message_borrows data 8) ps w = Some (Inr r)"
      using p regions(1) by (auto simp: publish_def publisher_publish_def split: prod.splits)
    moreover from calls(2) have "\<exists>r. subscriber_dequeue_begin os sb w = Some (Inr r)"
      using regions(2) by (auto simp: subscriber_dequeue_begin_def)
    moreover have "\<exists>r. subscriber_dequeue_commit os sb msg w = Inr r"
      using regions(2) by (auto simp: subscriber_dequeue_commit_def)
    ultimately show ?thesis by simp
  qed
qed

lemma psb_reach_calls:
  assumes "psb_rep os obj p sb B (ps, w, msg) []"
    and "(snd (pubsub_bench os sb data read iters (ps, w)))\<^sup>*\<^sup>*
      (fst (pubsub_bench os sb data read iters (ps, w))) b"
  shows "psb_calls_ok os sb data x (b_queue b)"
proof -
  have "psb_rep os obj p sb B (b_queue b) (sent read (unread_from b) (unat (b_produced b)))"
    using psb_bench_reach [OF assms] by (simp add: bench_inv_def)
  then show ?thesis using psb_calls_return by (cases "b_queue b") metis
qed

lemma psb_bench_delivers:
  assumes "psb_rep os obj p sb B (ps, w, msg) []"
  shows "delivers read (0, []) print_latency iters (pubsub_bench os sb data read iters (ps, w))"
  using psb_bench_reach [OF assms] by (auto simp: delivers_def bench_inv_def sent_def)

end

section \<open>Properties\<close>

lemma sync_one:
  assumes "sync_configs os loc [cfg] PubSub_new w = Some (Inr (Inr (), ps, w1))"
  shows "\<exists>p. Publisher_from_config os loc cfg w = Inr (Inr p, w1) \<and> ps_publishers ps = [p] \<and>
    \<not> locked (ps_lock_obj ps)"
  using assms
  by (auto simp: sync_configs_def PubSub_new_def SpinLock_new_def apply_changes_def
      SpinLockGuard_destroy_def spin_unlock_def split: sum.splits prod.splits option.splits)

lemma psb_setup_rep:
  assumes sys: "posix_shm os obj nm fdo" and fresh: "\<not> fst (shm_exists os ''bench'' w)"
    and size: "8 dvd unat size_bytes" "296 \<le> unat size_bytes" "unat size_bytes < 2 ^ 63"
    and "psb_setup os loc size_bytes w = Some (Inr (Inr (sb, ps, w2)))"
  shows "\<exists>p. psb_rep os obj p sb (unat size_bytes - 256) (ps, w2, msg) []"
proof -
  obtain w1 where sync: "sync_configs os loc [bench_cfg size_bytes] PubSub_new w = Some (Inr (Inr (), ps, w1))"
    and sub: "Subscriber_from_config os loc (bench_cfg size_bytes) w1 = Inr (Inr sb, w2)"
    using assms(6) unfolding psb_setup_def
    by (simp split: option.split_asm sum.split_asm prod.split_asm)
  obtain p where p: "Publisher_from_config os loc (bench_cfg size_bytes) w = Inr (Inr p, w1)"
    "ps_publishers ps = [p]" "\<not> locked (ps_lock_obj ps)"
    using sync_one [OF sync] by blast
  have "pubsub_rep os obj p sb (unat (cfg_storage_size_bytes (bench_cfg size_bytes)) - 256) 16 w2 []"
    using posix_shm.connect [OF sys p(1) _ sub refl] fresh size by (simp add: bench_cfg_def)
  with p(2,3) size(2) show ?thesis by (auto simp: bench_cfg_def)
qed


text \<open>The benchmark on the model of the system, which has no shared memory objects at the start.\<close>

lemma psb_setup_kernel: "\<exists>sb ps w. psb_setup kernel_os loc0 320 (boot 3) = Some (Inr (Inr (sb, ps, w)))"
proof -
  have "(case psb_setup kernel_os loc0 320 (boot 3) of Some (Inr (Inr _)) \<Rightarrow> True | _ \<Rightarrow> False)"
    by code_simp
  then show ?thesis by (auto split: option.splits sum.splits)
qed


end
