(* ===== verification/Mpmc_Program.thy ===== *)
theory Mpmc_Program
  imports Mpmc_Queue Threads "HOL-Library.Multiset"
begin

text \<open>
  \<^verbatim>\<open>examples/mpmc.cpp\<close>: threads that make a given sequence of blocking calls on the queue of
  \<open>Mpmc_Queue\<close>. \<^verbatim>\<open>main\<close> has two consumers that pop once, and pushes twice; \<^verbatim>\<open>bench\<close> has a consumer and
  a producer of equally many calls. Durations and rates are left out.
\<close>

section \<open>Pinning\<close>

text \<open>\<^verbatim>\<open>pinThread\<close>: \<open>Inl\<close> is the exit of the process.\<close>

definition pinThread :: "'w pthread_os \<Rightarrow> int \<Rightarrow> 'w \<Rightarrow> (int + unit) \<times> 'w" where
  "pinThread os cpu w =
     (if cpu < 0 then (Inr (), w)
      else let (rc, w1) = pt_setaffinity os (pt_self os w) (CPU_SET cpu {}) w in
        if rc = -1 then (Inl 1, w1) else (Inr (), w1))"

section \<open>Programs\<close>

text \<open>
  Thread \<open>k\<close> has still to make the calls of script \<open>k\<close>; the values that its calls of \<^verbatim>\<open>pop\<close> wrote are
  its \<open>mp_received\<close>. A thread that has returned from a call makes the next one.
\<close>

record 'a mpmc_program =
  mp_sys :: "'a mpmc_system"
  mp_scripts :: "'a mpmc_call list list"
  mp_received :: "nat \<Rightarrow> 'a list"

definition prog_start :: "'a Queue \<Rightarrow> 'a mpmc_call list list \<Rightarrow> 'a mpmc_program" where
  "prog_start q scripts = \<lparr>mp_sys = mpmc_start q, mp_scripts = scripts, mp_received = \<lambda>_. []\<rparr>"

definition after_call :: "nat \<Rightarrow> 'a mpmc_call \<Rightarrow> 'a mpmc_system \<Rightarrow> 'a mpmc_system" where
  "after_call k op c = c\<lparr>ms_pcs := (ms_pcs c)(k := mpmc_begin op)\<rparr>"

definition after_act :: "nat \<Rightarrow> 'a mpmc_pc \<Rightarrow> 'a Queue \<Rightarrow> 'a mpmc_system \<Rightarrow> 'a mpmc_system" where
  "after_act k pc q c =
     c\<lparr>ms_queue := q, ms_pcs := (ms_pcs c)(k := pc),
       ms_sent := ms_sent c @ sends (ms_pcs c k) (ms_queue c),
       ms_taken := ms_taken c + takes (ms_pcs c k) (ms_queue c),
       ms_log := ms_log c @ logs (ms_pcs c k)\<rparr>"

inductive prog_step :: "'a mpmc_program \<Rightarrow> 'a mpmc_program \<Rightarrow> bool" where
  prog_call: "k < length (mp_scripts p) \<Longrightarrow> mp_scripts p ! k = op # rest \<Longrightarrow>
    ms_pcs (mp_sys p) k = Returned r \<Longrightarrow>
    prog_step p (p\<lparr>mp_sys := after_call k op (mp_sys p), mp_scripts := (mp_scripts p)[k := rest]\<rparr>)"
| prog_act: "k < length (mp_scripts p) \<Longrightarrow> (\<And>r. ms_pcs (mp_sys p) k \<noteq> Returned r) \<Longrightarrow>
    mpmc_act (ms_pcs (mp_sys p) k) (ms_queue (mp_sys p)) = Some (pc, q) \<Longrightarrow>
    prog_step p (p\<lparr>mp_sys := after_act k pc q (mp_sys p),
      mp_received := (mp_received p)(k := mp_received p k @ map snd (logs (ms_pcs (mp_sys p) k)))\<rparr>)"

text \<open>All threads have ended and can be joined.\<close>

definition prog_finished :: "'a mpmc_program \<Rightarrow> bool" where
  "prog_finished p \<longleftrightarrow>
     (\<forall>k < length (mp_scripts p). mp_scripts p ! k = [] \<and> (\<exists>r. ms_pcs (mp_sys p) k = Returned r))"

definition mpmc_main :: "int mpmc_call list list" where
  "mpmc_main = [[Call_push 1, Call_push 2], [Call_pop], [Call_pop]]"

definition mpmc_bench :: "nat \<Rightarrow> u32 mpmc_call list list" where
  "mpmc_bench iters = [map (\<lambda>i. Call_push (word_of_nat i)) [0..<iters], replicate iters Call_pop]"

definition bench_queueSize :: u64 where "bench_queueSize = 1048576"

definition bench_iters :: nat where "bench_iters = 100000000"

section \<open>What is still to be done\<close>

definition pushes :: "'a mpmc_call list \<Rightarrow> 'a list" where
  "pushes ops = concat (map (\<lambda>op. case op of Call_push v \<Rightarrow> [v] | _ \<Rightarrow> []) ops)"

definition pops :: "'a mpmc_call list \<Rightarrow> nat" where
  "pops ops = length (filter (\<lambda>op. op = Call_pop) ops)"

lemma pushes_simps [simp]:
  "pushes [] = []" "pushes (Call_push v # ops) = v # pushes ops" "pushes (Call_pop # ops) = pushes ops"
  by (simp_all add: pushes_def)

lemma pops_simps [simp]:
  "pops [] = 0" "pops (Call_push v # ops) = pops ops" "pops (Call_pop # ops) = Suc (pops ops)"
  by (simp_all add: pops_def)

text \<open>A thread pushes only or pops only, and both calls are the blocking ones.\<close>

definition all_push :: "'a mpmc_call list \<Rightarrow> bool" where
  "all_push ops \<longleftrightarrow> (\<forall>op \<in> set ops. \<exists>v. op = Call_push v)"

definition all_pop :: "'a mpmc_call list \<Rightarrow> bool" where
  "all_pop ops \<longleftrightarrow> (\<forall>op \<in> set ops. op = Call_pop)"

fun push_pc :: "'a mpmc_pc \<Rightarrow> bool" where
  "push_pc (Returned r) = True"
| "push_pc (Emplace v) = True"
| "push_pc (Emplace_Wait v t) = True"
| "push_pc (Construct v t) = True"
| "push_pc (Publish t) = True"
| "push_pc _ = False"

fun pop_pc :: "'a mpmc_pc \<Rightarrow> bool" where
  "pop_pc (Returned r) = True"
| "pop_pc Pop = True"
| "pop_pc (Pop_Wait t) = True"
| "pop_pc (Move t) = True"
| "pop_pc (Destroy t v) = True"
| "pop_pc (Release t v) = True"
| "pop_pc _ = False"

definition to_send :: "'a mpmc_pc \<Rightarrow> 'a list" where
  "to_send pc = (case pc of Emplace v \<Rightarrow> [v] | _ \<Rightarrow> [])"

definition to_take :: "'a mpmc_pc \<Rightarrow> nat" where
  "to_take pc = (case pc of Pop \<Rightarrow> 1 | _ \<Rightarrow> 0)"

definition popping :: "'a mpmc_pc \<Rightarrow> nat" where
  "popping pc = (if push_pc pc then 0 else 1)"

definition unsent :: "'a mpmc_program \<Rightarrow> nat \<Rightarrow> 'a list" where
  "unsent p k = to_send (ms_pcs (mp_sys p) k) @ pushes (mp_scripts p ! k)"

definition untaken :: "'a mpmc_program \<Rightarrow> nat \<Rightarrow> nat" where
  "untaken p k = to_take (ms_pcs (mp_sys p) k) + pops (mp_scripts p ! k)"

definition unreceived :: "'a mpmc_program \<Rightarrow> nat \<Rightarrow> nat" where
  "unreceived p k = popping (ms_pcs (mp_sys p) k) + pops (mp_scripts p ! k)"

fun pc_work :: "'a mpmc_pc \<Rightarrow> nat" where
  "pc_work (Emplace v) = 4"
| "pc_work (Emplace_Wait v t) = 3"
| "pc_work (Construct v t) = 2"
| "pc_work (Publish t) = 1"
| "pc_work Pop = 5"
| "pc_work (Pop_Wait t) = 4"
| "pc_work (Move t) = 3"
| "pc_work (Destroy t v) = 2"
| "pc_work (Release t v) = 1"
| "pc_work _ = 0"

definition prog_work :: "'a mpmc_program \<Rightarrow> nat \<Rightarrow> nat" where
  "prog_work p k = 8 * length (mp_scripts p ! k) + pc_work (ms_pcs (mp_sys p) k)"

section \<open>The invariant\<close>

definition thread_pure :: "'a mpmc_program \<Rightarrow> nat \<Rightarrow> bool" where
  "thread_pure p k \<longleftrightarrow>
     all_push (mp_scripts p ! k) \<and> push_pc (ms_pcs (mp_sys p) k) \<or>
     all_pop (mp_scripts p ! k) \<and> pop_pc (ms_pcs (mp_sys p) k)"

definition prog_inv :: "'a mpmc_call list list \<Rightarrow> 'a mpmc_program \<Rightarrow> bool" where
  "prog_inv scripts p \<longleftrightarrow>
     (let n = length scripts in
      length (mp_scripts p) = n \<and> mpmc_inv (mp_sys p) \<and>
      (\<forall>k < n. thread_pure p k) \<and> (\<forall>k \<ge> n. \<exists>r. ms_pcs (mp_sys p) k = Returned r) \<and>
      mset (ms_sent (mp_sys p)) + (\<Sum>k < n. mset (unsent p k)) = (\<Sum>k < n. mset (pushes (scripts ! k))) \<and>
      ms_taken (mp_sys p) + (\<Sum>k < n. untaken p k) = (\<Sum>k < n. pops (scripts ! k)) \<and>
      mset (map snd (ms_log (mp_sys p))) = (\<Sum>k < n. mset (mp_received p k)) \<and>
      (\<forall>k < n. length (mp_received p k) + unreceived p k = pops (scripts ! k)))"

text \<open>A step of thread \<open>k\<close> moves \<open>x\<close> out of its share of a sum.\<close>

lemma sum_moves:
  fixes f g :: "nat \<Rightarrow> 'a::comm_monoid_add"
  assumes "k < n" and "f k = x + g k" and "\<And>j. j \<noteq> k \<Longrightarrow> f j = g j"
  shows "(\<Sum>j < n. f j) = x + (\<Sum>j < n. g j)"
proof -
  have "(\<Sum>j < n. f j) = f k + (\<Sum>j \<in> {..<n} - {k}. f j)"
    using assms(1) by (intro sum.remove) auto
  also have "(\<Sum>j \<in> {..<n} - {k}. f j) = (\<Sum>j \<in> {..<n} - {k}. g j)"
    using assms(3) by (intro sum.cong) auto
  also have "f k + \<dots> = x + (g k + (\<Sum>j \<in> {..<n} - {k}. g j))"
    by (simp add: assms(2) add.assoc)
  also have "g k + (\<Sum>j \<in> {..<n} - {k}. g j) = (\<Sum>j < n. g j)"
    using assms(1) by (intro sum.remove [symmetric]) auto
  finally show ?thesis .
qed

text \<open>What one access does to the counts, and that a thread stays in its kind of call.\<close>

lemmas flow_defs = to_send_def to_take_def popping_def sends_def takes_def logs_def

lemma act_flow:
  assumes "mpmc_act pc q = Some (pc', q')" and "push_pc pc \<or> pop_pc pc"
  shows "to_send pc = sends pc q @ to_send pc' \<and> to_take pc = takes pc q + to_take pc' \<and>
    popping pc = length (logs pc) + popping pc' \<and>
    (push_pc pc \<longrightarrow> push_pc pc') \<and> (pop_pc pc \<longrightarrow> pop_pc pc')"
  using assms by (cases pc) (auto simp: flow_defs split: option.splits if_splits)

lemma begin_flow:
  "to_send (mpmc_begin (Call_push v)) = [v]" "to_take (mpmc_begin (Call_push v)) = 0"
  "popping (mpmc_begin (Call_push v)) = 0" "to_send (mpmc_begin Call_pop) = []"
  "to_take (mpmc_begin Call_pop) = 1" "popping (mpmc_begin Call_pop) = 1"
  "to_send (Returned r) = []" "to_take (Returned r) = 0" "popping (Returned r) = 0"
  by (simp_all add: flow_defs)

lemma prog_inv_start:
  assumes "Queue_new capacity a = Inr q" and "\<forall>ops \<in> set scripts. all_push ops \<or> all_pop ops"
  shows "prog_inv scripts (prog_start q scripts)"
proof -
  have start: "ms_pcs (mpmc_start q) k = Returned Nothing" "ms_sent (mpmc_start q) = []"
    "ms_taken (mpmc_start q) = 0" "ms_log (mpmc_start q) = []" for k
    by (simp_all add: mpmc_start_def)
  show ?thesis
    unfolding prog_inv_def Let_def
    using assms mpmc_start_inv [OF assms(1)]
    by (auto simp: prog_start_def start thread_pure_def unsent_def untaken_def unreceived_def begin_flow)
qed

lemma prog_inv_call:
  assumes inv: "prog_inv scripts p" and few: "few_tickets (mp_sys p)"
    and k: "k < length (mp_scripts p)" "mp_scripts p ! k = op # rest" "ms_pcs (mp_sys p) k = Returned r"
  shows "prog_inv scripts (p\<lparr>mp_sys := after_call k op (mp_sys p), mp_scripts := (mp_scripts p)[k := rest]\<rparr>)"
    (is "prog_inv scripts ?p")
proof -
  have n: "length (mp_scripts p) = length scripts" and m: "mpmc_inv (mp_sys p)"
    and pure: "thread_pure p k" using inv k(1) by (auto simp: prog_inv_def Let_def)
  have op: "op = Call_pop \<and> all_pop rest \<or> (\<exists>v. op = Call_push v) \<and> all_push rest"
    using pure k(2) by (auto simp: thread_pure_def all_push_def all_pop_def)
  have "mpmc_inv (after_call k op (mp_sys p))"
    using mpmc_step_inv [OF mpmc_step.call [OF k(3), of op] m few] by (simp add: after_call_def)
  moreover have "unsent ?p j = unsent p j \<and> untaken ?p j = untaken p j \<and> unreceived ?p j = unreceived p j" for j
    using k op by (auto simp: unsent_def untaken_def unreceived_def after_call_def begin_flow nth_list_update
      simp del: mpmc_begin.simps)
  moreover have "thread_pure ?p j" if "thread_pure p j" for j
    using that k op by (auto simp: thread_pure_def after_call_def nth_list_update)
  ultimately show ?thesis
    using inv k(1) n by (auto simp: prog_inv_def Let_def after_call_def)
qed

lemma prog_inv_act:
  assumes inv: "prog_inv scripts p" and few: "few_tickets (mp_sys p)" and k: "k < length (mp_scripts p)"
    and act: "mpmc_act (ms_pcs (mp_sys p) k) (ms_queue (mp_sys p)) = Some (pc, q)"
  shows "prog_inv scripts (p\<lparr>mp_sys := after_act k pc q (mp_sys p),
      mp_received := (mp_received p)(k := mp_received p k @ map snd (logs (ms_pcs (mp_sys p) k)))\<rparr>)"
    (is "prog_inv scripts ?p")
proof -
  let ?c = "mp_sys p" and ?n = "length scripts"
  let ?pc = "ms_pcs ?c k"
  have n: "length (mp_scripts p) = ?n" and m: "mpmc_inv ?c" and pure: "thread_pure p k"
    using inv k by (auto simp: prog_inv_def Let_def)
  have flow: "to_send ?pc = sends ?pc (ms_queue ?c) @ to_send pc" "to_take ?pc = takes ?pc (ms_queue ?c) + to_take pc"
    "popping ?pc = length (logs ?pc) + popping pc" "push_pc ?pc \<Longrightarrow> push_pc pc" "pop_pc ?pc \<Longrightarrow> pop_pc pc"
    using act_flow [OF act] pure by (auto simp: thread_pure_def)
  have "mpmc_inv (after_act k pc q ?c)"
    using mpmc_step_inv [OF mpmc_step.act [OF act] m few] by (simp add: after_act_def)
  moreover have "(\<Sum>j < ?n. mset (unsent p j)) = mset (sends ?pc (ms_queue ?c)) + (\<Sum>j < ?n. mset (unsent ?p j))"
    using k n flow(1) by (intro sum_moves [of k]) (auto simp: unsent_def after_act_def)
  moreover have "(\<Sum>j < ?n. untaken p j) = takes ?pc (ms_queue ?c) + (\<Sum>j < ?n. untaken ?p j)"
    using k n flow(2) by (intro sum_moves [of k]) (auto simp: untaken_def after_act_def)
  moreover have "(\<Sum>j < ?n. mset (mp_received ?p j)) = mset (map snd (logs ?pc)) + (\<Sum>j < ?n. mset (mp_received p j))"
    using k n by (intro sum_moves [of k]) auto
  moreover have "length (mp_received ?p j) + unreceived ?p j = length (mp_received p j) + unreceived p j" for j
    using flow(3) by (auto simp: unreceived_def after_act_def)
  moreover have "thread_pure ?p j" if "thread_pure p j" for j
    using that flow(4,5) by (auto simp: thread_pure_def after_act_def)
  ultimately show ?thesis
    using inv k n unfolding prog_inv_def Let_def
    by (simp add: after_act_def ac_simps)
qed

section \<open>Somebody can go on\<close>

definition waits :: "'a mpmc_system \<Rightarrow> nat \<Rightarrow> bool" where
  "waits c k \<longleftrightarrow>
     (case ms_pcs c k of
        Emplace_Wait v t \<Rightarrow> turn (ms_queue c) t * 2 \<noteq> slot_turn (slot_at (ms_queue c) t)
      | Pop_Wait t \<Rightarrow> turn (ms_queue c) t * 2 + 1 \<noteq> slot_turn (slot_at (ms_queue c) t)
      | _ \<Rightarrow> False)"

lemma waits_tv:
  assumes "mpmc_inv c" and "few_tickets c" and "waits c k"
  shows "(\<exists>v t. ms_pcs c k = Emplace_Wait v t \<and> unat t < length (ms_sent c) \<and>
      tv (ms_queue c) (unat t) < 2 * rnd (ms_queue c) (unat t)) \<or>
    (\<exists>t. ms_pcs c k = Pop_Wait t \<and> unat t < ms_taken c \<and>
      tv (ms_queue c) (unat t) \<le> 2 * rnd (ms_queue c) (unat t))"
proof -
  have th: "thread_ok (ms_queue c) (ms_sent c) (ms_taken c) (ms_pcs c k)"
    using assms(1) by (simp add: mpmc_inv_def)
  have small: "unat t < 2 ^ 62" if "unat t < length (ms_sent c) \<or> unat t < ms_taken c" for t :: u64
    using that assms(2) by (auto simp: few_tickets_def)
  show ?thesis
    using assms(3) th small
    by (auto simp: waits_def turn_eq_iff split: mpmc_pc.splits)
qed

text \<open>When all threads wait or have returned, a pop that waits has a push that waits before it.\<close>

lemma pushed_done:
  assumes inv: "mpmc_inv c" and few: "few_tickets c" and all: "\<And>k. waits c k \<or> (\<exists>r. ms_pcs c k = Returned r)"
    and t: "t < length (ms_sent c)" and no: "\<And>k v h. ms_pcs c k = Emplace_Wait v h \<Longrightarrow> unat h \<noteq> t"
  shows "2 * rnd (ms_queue c) t < tv (ms_queue c) t"
proof -
  have "push_ticket (ms_pcs c k) \<noteq> Some t" for k
    using all [of k] no [of k] by (auto simp: waits_def split: mpmc_pc.splits)
  then show ?thesis using inv t by (auto simp: mpmc_inv_def held_or_done_def)
qed

lemma popped_done:
  assumes inv: "mpmc_inv c" and few: "few_tickets c" and all: "\<And>k. waits c k \<or> (\<exists>r. ms_pcs c k = Returned r)"
    and t: "t < ms_taken c" and pushed: "2 * rnd (ms_queue c) t < tv (ms_queue c) t"
  shows "2 * rnd (ms_queue c) t + 1 < tv (ms_queue c) t"
proof -
  have "pop_ticket (ms_pcs c k) \<noteq> Some t" for k
    using all [of k] waits_tv [OF inv few, of k] pushed by (auto simp: waits_def split: mpmc_pc.splits)
  then show ?thesis using inv t by (auto simp: mpmc_inv_def held_or_done_def)
qed

text \<open>
  If a push waits, then the pops are used up: the first push that waits needs the pop one round before
  it, and this pop has not been called.
\<close>

lemma waiting_push:
  assumes inv: "mpmc_inv c" and few: "few_tickets c" and all: "\<And>k. waits c k \<or> (\<exists>r. ms_pcs c k = Returned r)"
    and "ms_pcs c j = Emplace_Wait v h"
  shows "ms_taken c + cap (ms_queue c) < length (ms_sent c) \<and> (\<forall>k t. ms_pcs c k \<noteq> Pop_Wait t)"
proof -
  let ?q = "ms_queue c"
  define W where "W = {t. \<exists>k v h. ms_pcs c k = Emplace_Wait v h \<and> unat h = t}"
  define t where "t = (LEAST t. t \<in> W)"
  have "unat h \<in> W" using assms(4) by (auto simp: W_def)
  then have tW: "t \<in> W" and least: "\<And>u. u \<in> W \<Longrightarrow> t \<le> u"
    unfolding t_def by (auto intro: LeastI Least_le)
  then obtain k v' h' where k: "ms_pcs c k = Emplace_Wait v' h'" "unat h' = t" by (auto simp: W_def)
  have t: "t < length (ms_sent c)" "tv ?q t < 2 * rnd ?q t"
    using waits_tv [OF inv few, of k] all [of k] k by auto
  have cap: "0 < cap ?q" using inv by (simp add: mpmc_inv_def shaped_def)
  have "cap ?q \<le> t"
  proof (rule ccontr)
    assume "\<not> cap ?q \<le> t"
    then have "rnd ?q t = 0" by (simp add: rnd_def)
    then show False using t(2) by simp
  qed
  define u where "u = t - cap ?q"
  have ut: "t = u + cap ?q" using \<open>cap ?q \<le> t\<close> by (simp add: u_def)
  have u: "rnd ?q t = rnd ?q u + 1" "tv ?q t = tv ?q u"
    using cap div_add_self2 [of "cap ?q" u] unfolding ut by (simp_all add: rnd_def tv_def)
  have before: "2 * rnd ?q x < tv ?q x" if "x < t" for x
    using that least t(1) by (intro pushed_done [OF inv few all]) (fastforce simp: W_def)+
  have "u < t" using ut cap by simp
  have "\<not> u < ms_taken c"
    using popped_done [OF inv few all _ before [OF \<open>u < t\<close>]] t(2) u by auto
  then have taken: "ms_taken c \<le> u" by simp
  have "ms_pcs c k' \<noteq> Pop_Wait x" for k' x
    using waits_tv [OF inv few, of k'] all [of k'] before [of "unat x"] taken \<open>u < t\<close> by fastforce
  then show ?thesis using taken t(1) ut by simp
qed

text \<open>If no push waits, no pop waits for one of the pushed elements.\<close>

lemma waiting_pop:
  assumes inv: "mpmc_inv c" and few: "few_tickets c" and all: "\<And>k. waits c k \<or> (\<exists>r. ms_pcs c k = Returned r)"
    and "\<And>k v h. ms_pcs c k \<noteq> Emplace_Wait v h" and pop: "ms_pcs c k = Pop_Wait t"
  shows "length (ms_sent c) \<le> unat t \<and> unat t < ms_taken c"
  using waits_tv [OF inv few, of k] all [of k] pushed_done [OF inv few all, of "unat t"] assms(4) pop
  by fastforce

lemma unsent_Nil:
  assumes "waits (mp_sys p) k \<or> (\<exists>r. ms_pcs (mp_sys p) k = Returned r)" and "pushes (mp_scripts p ! k) = []"
  shows "unsent p k = []"
  using assms by (auto simp: unsent_def to_send_def waits_def split: mpmc_pc.splits)

lemma untaken_0:
  assumes "waits (mp_sys p) k \<or> (\<exists>r. ms_pcs (mp_sys p) k = Returned r)" and "pops (mp_scripts p ! k) = 0"
  shows "untaken p k = 0"
  using assms by (auto simp: untaken_def to_take_def waits_def split: mpmc_pc.splits)

lemma all_pop_pushes: "all_pop ops \<Longrightarrow> pushes ops = []"
  by (induction ops) (auto simp: all_pop_def)

lemma all_push_pops: "all_push ops \<Longrightarrow> pops ops = 0"
  by (induction ops) (auto simp: all_push_def)

definition balanced :: "'a mpmc_call list list \<Rightarrow> bool" where
  "balanced scripts \<longleftrightarrow>
     (\<forall>ops \<in> set scripts. all_push ops \<or> all_pop ops) \<and>
     (\<Sum>k < length scripts. length (pushes (scripts ! k))) = (\<Sum>k < length scripts. pops (scripts ! k)) \<and>
     (\<Sum>k < length scripts. pops (scripts ! k)) < 2 ^ 62"

lemma prog_counts:
  assumes "prog_inv scripts p" and "balanced scripts"
  shows "length (ms_sent (mp_sys p)) + (\<Sum>k < length scripts. length (unsent p k)) =
      (\<Sum>k < length scripts. pops (scripts ! k))"
    and "ms_taken (mp_sys p) + (\<Sum>k < length scripts. untaken p k) = (\<Sum>k < length scripts. pops (scripts ! k))"
    and "few_tickets (mp_sys p)"
proof -
  have "size (mset (ms_sent (mp_sys p)) + (\<Sum>k < length scripts. mset (unsent p k))) =
      size (\<Sum>k < length scripts. mset (pushes (scripts ! k)))"
    using assms(1) by (simp add: prog_inv_def Let_def)
  then show sent: "length (ms_sent (mp_sys p)) + (\<Sum>k < length scripts. length (unsent p k)) =
      (\<Sum>k < length scripts. pops (scripts ! k))"
    using assms(2) by (simp add: size_multiset_sum balanced_def)
  show taken: "ms_taken (mp_sys p) + (\<Sum>k < length scripts. untaken p k) = (\<Sum>k < length scripts. pops (scripts ! k))"
    using assms(1) by (simp add: prog_inv_def Let_def)
  show "few_tickets (mp_sys p)"
    using sent taken assms(2) by (auto simp: few_tickets_def balanced_def)
qed

lemma not_stuck:
  assumes inv: "prog_inv scripts p" and bal: "balanced scripts" and "\<not> prog_finished p"
  shows "\<exists>k < length (mp_scripts p).
    (\<exists>r op rest. ms_pcs (mp_sys p) k = Returned r \<and> mp_scripts p ! k = op # rest) \<or>
    (\<forall>r. ms_pcs (mp_sys p) k \<noteq> Returned r) \<and> \<not> waits (mp_sys p) k"
proof (rule ccontr)
  let ?c = "mp_sys p" and ?n = "length scripts"
  assume stuck: "\<not> ?thesis"
  have n: "length (mp_scripts p) = ?n" and m: "mpmc_inv ?c" and pure: "\<And>k. k < ?n \<Longrightarrow> thread_pure p k"
    and out: "\<And>k. ?n \<le> k \<Longrightarrow> \<exists>r. ms_pcs ?c k = Returned r"
    using inv by (auto simp: prog_inv_def Let_def)
  note few = prog_counts(3) [OF inv bal]
  have all: "waits ?c k \<or> (\<exists>r. ms_pcs ?c k = Returned r)" for k
    using stuck out [of k] n by (cases "k < ?n") auto
  have idle: "mp_scripts p ! k = []" if "k < ?n" "ms_pcs ?c k = Returned r" for k r
    using stuck that n by (cases "mp_scripts p ! k") auto
  have no_push: "ms_pcs ?c j \<noteq> Emplace_Wait v h" for j v h
  proof
    assume "ms_pcs ?c j = Emplace_Wait v h"
    from waiting_push [OF m few all this]
    have w: "ms_taken ?c + cap (ms_queue ?c) < length (ms_sent ?c)" "\<And>k t. ms_pcs ?c k \<noteq> Pop_Wait t"
      by blast+
    have "untaken p k = 0" if "k < ?n" for k
    proof (rule untaken_0 [OF all])
      show "pops (mp_scripts p ! k) = 0"
        using pure [OF that] all [of k] w(2) [of k] idle [OF that]
        by (auto simp: thread_pure_def all_push_pops waits_def split: mpmc_pc.splits)
    qed
    then show False
      using prog_counts(1,2) [OF inv bal] w(1) by simp
  qed
  have "unsent p k = []" if "k < ?n" for k
  proof (rule unsent_Nil [OF all])
    show "pushes (mp_scripts p ! k) = []"
      using pure [OF that] all [of k] no_push [of k] idle [OF that]
      by (auto simp: thread_pure_def all_pop_pushes waits_def split: mpmc_pc.splits)
  qed
  then have sent: "ms_taken ?c \<le> length (ms_sent ?c)"
    using prog_counts(1,2) [OF inv bal] by simp
  have "ms_pcs ?c k \<noteq> Pop_Wait t" for k t
    using waiting_pop [OF m few all no_push, of k t] sent by fastforce
  then have "\<exists>r. ms_pcs ?c k = Returned r" for k
    using all [of k] no_push [of k] by (auto simp: waits_def split: mpmc_pc.splits)
  then show False
    using assms(3) idle n unfolding prog_finished_def by metis
qed

text \<open>A step that is not a wait leaves its thread less to do.\<close>

lemma act_work:
  assumes "mpmc_act (ms_pcs c k) (ms_queue c) = Some (pc, q)" and "\<not> waits c k"
    and "\<And>r. ms_pcs c k \<noteq> Returned r" and "push_pc (ms_pcs c k) \<or> pop_pc (ms_pcs c k)"
  shows "pc_work pc < pc_work (ms_pcs c k)"
proof (cases "ms_pcs c k")
  case (Returned r)
  then show ?thesis using assms(3) by simp
qed (use assms in \<open>auto simp: waits_def split: option.splits if_splits\<close>)

lemma begin_work: "pc_work (mpmc_begin op) < 8"
  by (cases op) simp_all

lemma sum_less:
  fixes f g :: "nat \<Rightarrow> nat"
  assumes "k < n" and "g k < f k" and "\<And>j. j \<noteq> k \<Longrightarrow> g j = f j"
  shows "(\<Sum>j < n. g j) < (\<Sum>j < n. f j)"
  using sum_moves [of k n f "f k - g k" g] assms by simp

lemma prog_progress:
  assumes inv: "prog_inv scripts p" and bal: "balanced scripts" and "\<not> prog_finished p"
  shows "\<exists>p'. prog_step p p' \<and> (\<Sum>k < length scripts. prog_work p' k) < (\<Sum>k < length scripts. prog_work p k)"
proof -
  let ?c = "mp_sys p"
  have n: "length (mp_scripts p) = length scripts" and m: "mpmc_inv ?c"
    using inv by (auto simp: prog_inv_def Let_def)
  obtain k where k: "k < length scripts" and
    "(\<exists>r op rest. ms_pcs ?c k = Returned r \<and> mp_scripts p ! k = op # rest) \<or>
      (\<forall>r. ms_pcs ?c k \<noteq> Returned r) \<and> \<not> waits ?c k"
    using not_stuck [OF assms] n by auto
  then consider (call) r op rest where "ms_pcs ?c k = Returned r" "mp_scripts p ! k = op # rest"
    | (act) "\<And>r. ms_pcs ?c k \<noteq> Returned r" "\<not> waits ?c k" by blast
  then show ?thesis
  proof cases
    case call
    let ?p = "p\<lparr>mp_sys := after_call k op ?c, mp_scripts := (mp_scripts p)[k := rest]\<rparr>"
    have "prog_step p ?p" using k n call by (intro prog_step.prog_call) auto
    moreover have "(\<Sum>k < length scripts. prog_work ?p k) < (\<Sum>k < length scripts. prog_work p k)"
      using k n call begin_work [of op] by (intro sum_less [of k]) (auto simp: prog_work_def after_call_def)
    ultimately show ?thesis by blast
  next
    case act
    obtain pc q where run: "mpmc_act (ms_pcs ?c k) (ms_queue ?c) = Some (pc, q)"
      using mpmc_act_inv [OF m prog_counts(3) [OF inv bal], of k] by blast
    let ?p = "p\<lparr>mp_sys := after_act k pc q ?c,
      mp_received := (mp_received p)(k := mp_received p k @ map snd (logs (ms_pcs ?c k)))\<rparr>"
    have "prog_step p ?p" using k n act(1) run by (intro prog_step.prog_act) auto
    moreover have "push_pc (ms_pcs ?c k) \<or> pop_pc (ms_pcs ?c k)"
      using inv k by (auto simp: prog_inv_def Let_def thread_pure_def)
    then have "(\<Sum>k < length scripts. prog_work ?p k) < (\<Sum>k < length scripts. prog_work p k)"
      using k act_work [OF run act(2,1)] by (intro sum_less [of k]) (auto simp: prog_work_def after_act_def)
    ultimately show ?thesis by blast
  qed
qed

lemma prog_step_inv:
  assumes "prog_step p p'" and "prog_inv scripts p" and "balanced scripts"
  shows "prog_inv scripts p'"
  using assms(1)
proof cases
  case (prog_call k op rest r)
  then show ?thesis using prog_inv_call [OF assms(2) prog_counts(3) [OF assms(2,3)]] by simp
next
  case (prog_act k pc q)
  then show ?thesis using prog_inv_act [OF assms(2) prog_counts(3) [OF assms(2,3)]] by simp
qed

lemma prog_ends:
  assumes "prog_inv scripts p" and "balanced scripts"
  shows "\<exists>p'. prog_step\<^sup>*\<^sup>* p p' \<and> prog_finished p'"
  using assms(1)
proof (induction "\<Sum>k < length scripts. prog_work p k" arbitrary: p rule: less_induct)
  case less
  show ?case
  proof (cases "prog_finished p")
    case False
    then obtain p1 where "prog_step p p1"
      "(\<Sum>k < length scripts. prog_work p1 k) < (\<Sum>k < length scripts. prog_work p k)"
      using prog_progress [OF less.prems assms(2)] by blast
    with less.hyps prog_step_inv [OF _ less.prems assms(2)] show ?thesis
      by (meson converse_rtranclp_into_rtranclp)
  qed blast
qed

lemma prog_reach_inv:
  assumes "Queue_new capacity a = Inr q" and "balanced scripts" and "prog_step\<^sup>*\<^sup>* (prog_start q scripts) p"
  shows "prog_inv scripts p"
  using assms(3)
proof (induction rule: rtranclp_induct)
  case base
  show ?case using prog_inv_start [OF assms(1)] assms(2) by (simp add: balanced_def)
next
  case (step p1 p2)
  then show ?case using prog_step_inv assms(2) by blast
qed

section \<open>Properties\<close>

lemma log_mset:
  assumes inv: "mpmc_inv c" and ret: "all_returned c" and all: "ms_taken c = length (ms_sent c)"
  shows "mset (map snd (ms_log c)) = mset (ms_sent c)"
proof -
  let ?l = "ms_log c" and ?s = "ms_sent c"
  have log: "log_ok (ms_queue c) ?s ?l" using inv by (simp add: mpmc_inv_def)
  have "distinct (map (\<lambda>x. unat (fst x)) ?l)"
    using log by (auto simp: log_ok_def distinct_map inj_on_def u64_eq_iff)
  moreover have "set (map (\<lambda>x. unat (fst x)) ?l) = set [0..<length ?s]"
  proof (intro set_eqI iffI)
    fix t assume "t \<in> set [0..<length ?s]"
    then have "t < ms_taken c" using all by simp
    then obtain h v where "(h, v) \<in> set ?l" "unat h = t"
      using returned_done(2) [OF inv ret, of t] log unfolding log_ok_def by blast
    then show "t \<in> set (map (\<lambda>x. unat (fst x)) ?l)" by force
  qed (use log in \<open>auto simp: log_ok_def\<close>)
  ultimately have tickets: "mset (map (\<lambda>x. unat (fst x)) ?l) = mset [0..<length ?s]"
    by (simp add: set_eq_iff_mset_eq_distinct [symmetric] del: mset_map mset_upt set_upt)
  have "map snd ?l = map (\<lambda>x. ?s ! unat (fst x)) ?l"
    using log by (auto simp: log_ok_def)
  then have "mset (map snd ?l) = mset (map (\<lambda>x. ?s ! unat (fst x)) ?l)" by (rule arg_cong)
  also have "\<dots> = image_mset ((!) ?s) (mset (map (\<lambda>x. unat (fst x)) ?l))"
    by (simp add: multiset.map_comp comp_def)
  also have "\<dots> = mset (map ((!) ?s) [0..<length ?s])" unfolding tickets by simp
  finally show ?thesis by (simp only: map_nth)
qed

lemma finished_counts:
  assumes inv: "prog_inv scripts p" and bal: "balanced scripts" and fin: "prog_finished p"
  shows "(\<Sum>k < length scripts. mset (mp_received p k)) = (\<Sum>k < length scripts. mset (pushes (scripts ! k)))"
    and "k < length scripts \<Longrightarrow> length (mp_received p k) = pops (scripts ! k)"
proof -
  let ?n = "length scripts" and ?c = "mp_sys p"
  have n: "length (mp_scripts p) = ?n" and m: "mpmc_inv ?c"
    and sent: "mset (ms_sent ?c) + (\<Sum>k < ?n. mset (unsent p k)) = (\<Sum>k < ?n. mset (pushes (scripts ! k)))"
    and log: "mset (map snd (ms_log ?c)) = (\<Sum>k < ?n. mset (mp_received p k))"
    and out: "\<And>k. ?n \<le> k \<Longrightarrow> \<exists>r. ms_pcs ?c k = Returned r"
    and rcv: "\<And>k. k < ?n \<Longrightarrow> length (mp_received p k) + unreceived p k = pops (scripts ! k)"
    using inv by (auto simp: prog_inv_def Let_def)
  have none: "unsent p k = [] \<and> untaken p k = 0 \<and> unreceived p k = 0" if "k < ?n" for k
    using fin that n by (auto simp: prog_finished_def unsent_def untaken_def unreceived_def begin_flow)
  have ret: "all_returned ?c"
    unfolding all_returned_def using out fin n by (metis not_le prog_finished_def)
  have "ms_taken ?c = length (ms_sent ?c)"
    using prog_counts(1,2) [OF inv bal] none by simp
  from log_mset [OF m ret this] sent log none
  show "(\<Sum>k < ?n. mset (mp_received p k)) = (\<Sum>k < ?n. mset (pushes (scripts ! k)))" by simp
  show "length (mp_received p k) = pops (scripts ! k)" if "k < ?n"
    using rcv [OF that] none [OF that] by simp
qed

text \<open>
  C24: threads that only push or only pop, as often as each other in total, with the blocking calls:
  whatever the capacity of the queue and the interleaving, from every state all of them can come to
  their end, so they never wait for each other in a circle; no access is undefined; and when they have
  ended, the elements received are exactly the elements pushed, each once, and every thread received as
  many as it asked for.
\<close>

theorem mpmc_program_ends:
  assumes "Queue_new capacity a = Inr q" and "balanced scripts" and "prog_step\<^sup>*\<^sup>* (prog_start q scripts) p"
  shows "(\<exists>p'. prog_step\<^sup>*\<^sup>* p p' \<and> prog_finished p') \<and>
    mpmc_act (ms_pcs (mp_sys p) k) (ms_queue (mp_sys p)) \<noteq> None \<and>
    (prog_finished p \<longrightarrow>
       (\<Sum>k < length scripts. mset (mp_received p k)) = (\<Sum>k < length scripts. mset (pushes (scripts ! k))) \<and>
       (\<forall>k < length scripts. length (mp_received p k) = pops (scripts ! k)))"
proof -
  have inv: "prog_inv scripts p" using prog_reach_inv [OF assms] .
  then have "mpmc_inv (mp_sys p)" by (simp add: prog_inv_def Let_def)
  from mpmc_act_inv [OF this prog_counts(3) [OF inv assms(2)], of k] prog_ends [OF inv assms(2)]
    finished_counts [OF inv assms(2)]
  show ?thesis by auto
qed

lemma balanced_main: "balanced mpmc_main"
  by (simp add: balanced_def mpmc_main_def all_push_def all_pop_def lessThan_Suc)

lemma pushes_map: "pushes (map (\<lambda>i. Call_push (f i)) xs) = map f xs"
  by (induction xs) simp_all

lemma pops_replicate: "pops (replicate n Call_pop) = n"
  by (induction n) simp_all

lemma balanced_bench: "iters < 2 ^ 62 \<Longrightarrow> balanced (mpmc_bench iters)"
  by (auto simp: balanced_def mpmc_bench_def all_push_def all_pop_def lessThan_Suc pushes_map pops_replicate
    all_push_pops all_pop_pushes)

text \<open>
  \<^verbatim>\<open>main\<close> of the example: it always can come to its end, and then one of the two consumers has printed
  1 and the other 2.
\<close>

theorem mpmc_main_prints:
  assumes "Queue_new 10 a = Inr q" and "prog_step\<^sup>*\<^sup>* (prog_start q mpmc_main) p"
  shows "(\<exists>p'. prog_step\<^sup>*\<^sup>* p p' \<and> prog_finished p') \<and>
    (prog_finished p \<longrightarrow> mp_received p 1 = [1] \<and> mp_received p 2 = [2] \<or>
                         mp_received p 1 = [2] \<and> mp_received p 2 = [1])"
proof (intro conjI impI)
  have inv: "prog_inv mpmc_main p" using prog_reach_inv [OF assms(1) balanced_main assms(2)] .
  show "\<exists>p'. prog_step\<^sup>*\<^sup>* p p' \<and> prog_finished p'" using prog_ends [OF inv balanced_main] .
  assume fin: "prog_finished p"
  note counts = finished_counts [OF inv balanced_main fin]
  have "length (mp_received p 0) = 0" "length (mp_received p 1) = 1" "length (mp_received p 2) = 1"
    using counts(2) [of 0] counts(2) [of 1] counts(2) [of 2] by (simp_all add: mpmc_main_def)
  then obtain x y where r: "mp_received p 0 = []" "mp_received p 1 = [x]" "mp_received p 2 = [y]"
    by (auto simp: length_Suc_conv)
  have "{#x, y#} = {#1, 2#}"
    using counts(1) r by (simp add: mpmc_main_def lessThan_Suc numeral_2_eq_2 add_mset_commute)
  then show "mp_received p 1 = [1] \<and> mp_received p 2 = [2] \<or> mp_received p 1 = [2] \<and> mp_received p 2 = [1]"
    using r by (auto simp: add_eq_conv_ex)
qed

text \<open>
  \<^verbatim>\<open>pthread_setaffinity_np\<close> reports an error by a positive number, which \<^verbatim>\<open>pinThread\<close> does not look for: it
  never exits.
\<close>

lemma pinThread_never_exits:
  assumes "\<And>t s w. 0 \<le> fst (pt_setaffinity os t s w)"
  shows "fst (pinThread os cpu w) = Inr ()"
  using assms [of "pt_self os w" "CPU_SET cpu {}" w] by (auto simp: pinThread_def split: prod.splits)

section \<open>Witnesses\<close>

definition main_queue :: "int Queue" where
  "main_queue = \<lparr>mq_capacity = 10, mq_slots = replicate 10 Slot_new, mq_head = 0, mq_tail = 0\<rparr>"

lemma main_queue_new: "Queue_new 10 (Some 4096) = Inr main_queue"
  by (simp add: Queue_new_def main_queue_def)

text \<open>The benchmark, with its queue size and number of iterations.\<close>

theorem mpmc_program_ends_witness:
  "\<exists>q p. Queue_new bench_queueSize (Some 4096) = Inr q \<and>
     prog_step\<^sup>*\<^sup>* (prog_start q (mpmc_bench bench_iters)) p \<and> prog_finished p \<and>
     mset (mp_received p 1) = mset (map word_of_nat [0..<bench_iters])"
proof -
  obtain q :: "u32 Queue" where q: "Queue_new bench_queueSize (Some 4096) = Inr q"
    by (simp add: Queue_new_def bench_queueSize_def)
  have bal: "balanced (mpmc_bench bench_iters)" by (rule balanced_bench) (simp add: bench_iters_def)
  obtain p where p: "prog_step\<^sup>*\<^sup>* (prog_start q (mpmc_bench bench_iters)) p" "prog_finished p"
    using mpmc_program_ends [OF q bal rtranclp.rtrancl_refl] by blast
  have n: "length (mpmc_bench bench_iters) = Suc (Suc 0)" by (simp add: mpmc_bench_def)
  have "(\<Sum>k < Suc (Suc 0). mset (mp_received p k)) = (\<Sum>k < Suc (Suc 0). mset (pushes (mpmc_bench bench_iters ! k)))"
    "length (mp_received p 0) = pops (mpmc_bench bench_iters ! 0)"
    using mpmc_program_ends [OF q bal p(1)] p(2) unfolding n by blast+
  then have "mset (mp_received p 1) = mset (map word_of_nat [0..<bench_iters])"
    by (simp add: mpmc_bench_def lessThan_Suc pushes_map all_pop_pushes all_push_pops all_pop_def all_push_def
        del: upt_conv_Cons)
  with q p show ?thesis by blast
qed

theorem mpmc_main_prints_witness:
  "\<exists>p. prog_step\<^sup>*\<^sup>* (prog_start main_queue mpmc_main) p \<and> prog_finished p \<and>
     (mp_received p 1 = [1] \<and> mp_received p 2 = [2] \<or> mp_received p 1 = [2] \<and> mp_received p 2 = [1])"
proof -
  obtain p where p: "prog_step\<^sup>*\<^sup>* (prog_start main_queue mpmc_main) p" "prog_finished p"
    using mpmc_main_prints [OF main_queue_new rtranclp.rtrancl_refl] by blast
  with mpmc_main_prints [OF main_queue_new p(1)] show ?thesis by blast
qed

end
