(* ===== verification/Pub_Sub_Examples.thy ===== *)
theory Pub_Sub_Examples
  imports Thread_Benchmarks "HOL-Library.List_Lexorder" "HOL-Library.Char_ord" "HOL-Library.Multiset"
begin

text \<open>
  \<^verbatim>\<open>examples/pubsub_server/main.cpp\<close> and \<^verbatim>\<open>examples/pubsub_client/main.cpp\<close>. Both use an older library,
  \<^verbatim>\<open>quant_base\<close>, that is not part of the repository: its \<^verbatim>\<open>PubSub\<close>, its configuration parser and its queue
  are parameters, as are the file system and the time stamp counter. Logging and the registration of
  the directory watcher are left out; a call of its callback is a call of the handler.
\<close>

section \<open>The server\<close>

text \<open>
  \<open>fs_entries\<close> lists the names in a directory in some order, or throws (\<open>None\<close>); parsing a file throws
  (\<open>Inl\<close>) or gives a configuration.
\<close>

record ('w, 'e, 'cfg) server_env =
  fs_entries :: "string \<Rightarrow> 'w \<Rightarrow> string list option"
  from_cfg_file :: "string \<Rightarrow> 'w \<Rightarrow> 'e + 'cfg"
  sync_subscribers :: "'cfg list \<Rightarrow> 'w \<Rightarrow> 'w"
  publish_bytes :: "byte list \<Rightarrow> 'w \<Rightarrow> 'w"
  rdtsc_get :: "'w \<Rightarrow> u64 \<times> 'w"

text \<open>
  \<^verbatim>\<open>path::extension\<close> of a file name: what starts at its last period, unless this is its first
  character, or the name is one of the two special ones.
\<close>

definition extension :: "string \<Rightarrow> string" where
  "extension f =
     (let rest = rev (takeWhile (\<lambda>c. c \<noteq> CHR ''.'') (rev f)) in
      if f = ''.'' \<or> f = ''..'' \<or> length f \<le> length rest + 1 then []
      else CHR ''.'' # rest)"

fun parse_cfgs ::
    "('w, 'e, 'cfg) server_env \<Rightarrow> string \<Rightarrow> 'w \<Rightarrow> string list \<Rightarrow> 'cfg list \<Rightarrow> 'cfg list" where
  "parse_cfgs env dir w [] cfgs = cfgs"
| "parse_cfgs env dir w (file # files) cfgs =
     (case from_cfg_file env (dir @ ''/'' @ file) w of
        Inl e \<Rightarrow> parse_cfgs env dir w files cfgs
      | Inr cfg \<Rightarrow> parse_cfgs env dir w files (cfgs @ [cfg]))"

definition cfg_files :: "string list \<Rightarrow> string list" where
  "cfg_files entries = sort (filter (\<lambda>f. extension f = ''.cfg'') entries)"

definition cfg_change_handler :: "('w, 'e, 'cfg) server_env \<Rightarrow> string \<Rightarrow> 'w \<Rightarrow> 'w option" where
  "cfg_change_handler env cfgs_path w =
     (case fs_entries env cfgs_path w of
        None \<Rightarrow> None
      | Some entries \<Rightarrow>
          Some (sync_subscribers env (parse_cfgs env cfgs_path w (cfg_files entries) []) w))"

definition server_publish :: "('w, 'e, 'cfg) server_env \<Rightarrow> 'w \<Rightarrow> 'w" where
  "server_publish env w =
     (let (clock, w1) = rdtsc_get env w in publish_bytes env (bytes_of_u64 clock) w1)"

lemma inc_max: "i < - 1 \<Longrightarrow> unat (i + 1) = Suc (unat (i :: u64))"
  using unat_inc [of i "- 1"] .

text \<open>\<^verbatim>\<open>for (uint64 i = 1; i < UINT64_MAX; ++i)\<close>\<close>

function server_loop :: "('w, 'e, 'cfg) server_env \<Rightarrow> u64 \<Rightarrow> 'w \<Rightarrow> 'w" where
  "server_loop env i w = (if i < - 1 then server_loop env (i + 1) (server_publish env w) else w)"
  by auto

termination
proof (relation "measure (\<lambda>(env, i, w). 2 ^ 64 - unat i)")
  fix env :: "('w, 'e, 'cfg) server_env" and i :: u64 and w :: 'w
  assume "i < - 1"
  then show "((env, i + 1, server_publish env w), env, i, w) \<in> measure (\<lambda>(env, i, w). 2 ^ 64 - unat i)"
    using inc_max [of i] unat_u64_bound [of "i + 1"] by simp
qed simp

declare server_loop.simps [simp del]

definition server_main :: "('w, 'e, 'cfg) server_env \<Rightarrow> string \<Rightarrow> 'w \<Rightarrow> 'w option" where
  "server_main env cfgs_path w =
     (case cfg_change_handler env cfgs_path w of
        None \<Rightarrow> None
      | Some w1 \<Rightarrow> Some (server_loop env 1 w1))"

section \<open>The client\<close>

text \<open>
  The variables of the receiving loop, and what it has printed: the stamp and the latency of the last
  message and the average latency, all in cycles.
\<close>

record client =
  cl_i :: u64
  cl_avg_latency :: u64
  cl_printed :: "(u64 \<times> u64 \<times> u64) list"

definition client_start :: client where
  "client_start = \<lparr>cl_i = 0, cl_avg_latency = 0, cl_printed = []\<rparr>"

definition client_log_interval :: u64 where "client_log_interval = 50000000"

definition client_receive :: "u64 \<Rightarrow> u64 \<Rightarrow> client \<Rightarrow> client" where
  "client_receive val_recv val_srv c =
     (let i = cl_i c + 1;
          delta_cycles = val_recv - val_srv;
          avg_latency = cl_avg_latency c + delta_cycles in
      if i mod client_log_interval = 0
      then c\<lparr>cl_i := 0, cl_avg_latency := 0,
             cl_printed := cl_printed c @ [(val_srv, delta_cycles, avg_latency div client_log_interval)]\<rparr>
      else c\<lparr>cl_i := i, cl_avg_latency := avg_latency\<rparr>)"

text \<open>One pass of the loop, in which the counter would read \<open>val_recv\<close>: \<open>front\<close> is \<^verbatim>\<open>dequeue_begin\<close>, \<open>item\<close>
  reads the payload and \<open>pop\<close> is \<^verbatim>\<open>dequeue_commit\<close>.\<close>

definition client_poll ::
    "('s \<Rightarrow> bool \<times> 's) \<Rightarrow> ('s \<Rightarrow> u64) \<Rightarrow> ('s \<Rightarrow> 's) \<Rightarrow> u64 \<Rightarrow> 's \<times> client \<Rightarrow> 's \<times> client" where
  "client_poll front item pop val_recv st =
     (case front (fst st) of
        (True, s) \<Rightarrow> (pop s, client_receive val_recv (item s) (snd st))
      | (False, s) \<Rightarrow> (s, snd st))"

section \<open>What the handler does\<close>

lemma parse_cfgs_eq:
  "parse_cfgs env dir w files cfgs =
     cfgs @ [cfg. Inr cfg \<leftarrow> map (\<lambda>f. from_cfg_file env (dir @ ''/'' @ f) w) files]"
  by (induction files arbitrary: cfgs) (simp_all split: sum.splits)

lemma cfg_files_mset: "mset entries = mset entries' \<Longrightarrow> cfg_files entries = cfg_files entries'"
  unfolding cfg_files_def by (intro properties_for_sort) simp_all

lemma server_loop_iterates:
  "server_loop env i w = (server_publish env ^^ (2 ^ 64 - 1 - unat i)) w"
proof (induction env i w rule: server_loop.induct)
  case (1 env i w)
  have max: "unat (- 1 :: u64) = 2 ^ 64 - 1" by (simp add: unsigned_minus_1_eq_mask mask_eq_exp_minus_1)
  show ?case
  proof (cases "i < - 1")
    case True
    then have "unat i < 2 ^ 64 - 1" using max by (simp add: u64_less_iff)
    then have "2 ^ 64 - 1 - unat i = Suc (2 ^ 64 - 1 - unat (i + 1))"
      using inc_max [OF True] by simp
    then show ?thesis
      using 1 [OF True] True by (subst server_loop.simps) (simp add: funpow_swap1)
  next
    case False
    then have "\<not> unat i < 18446744073709551615" using max by (simp add: u64_less_iff)
    with unat_u64_bound [of i] have "unat i = 18446744073709551615" by linarith
    then show ?thesis using False by (subst server_loop.simps) simp
  qed
qed

section \<open>What the client prints\<close>

definition interval :: nat where "interval = 50000000"

definition latency :: "u64 \<times> u64 \<Rightarrow> u64" where
  "latency m = fst m - snd m"

text \<open>The messages of the \<open>k\<close>-th interval, and what is printed at its end.\<close>

definition window :: "(u64 \<times> u64) list \<Rightarrow> nat \<Rightarrow> (u64 \<times> u64) list" where
  "window ms k = take interval (drop (k * interval) ms)"

definition window_report :: "(u64 \<times> u64) list \<Rightarrow> u64 \<times> u64 \<times> u64" where
  "window_report ms =
     (snd (last ms), latency (last ms), sum_list (map latency ms) div word_of_nat interval)"

definition client_after :: "(u64 \<times> u64) list \<Rightarrow> client" where
  "client_after ms =
     \<lparr>cl_i = word_of_nat (length ms mod interval),
      cl_avg_latency = sum_list (map latency (drop (length ms div interval * interval) ms)),
      cl_printed = map (\<lambda>k. window_report (window ms k)) [0..<length ms div interval]\<rparr>"

lemma window_append:
  assumes "k < length ms div interval"
  shows "window (ms @ ms') k = window ms k"
proof -
  have "Suc k * interval \<le> length ms"
    using assms by (metis Suc_leI div_le_mono div_mult_self_is_m le_trans mult_le_mono1 times_div_less_eq_dividend mult.commute)
  then show ?thesis by (simp add: window_def)
qed

lemma client_after_snoc:
  "client_after (ms @ [(r, s)]) = client_receive r s (client_after ms)"
proof -
  let ?n = "length ms"
  have log: "client_log_interval = word_of_nat interval" "unat client_log_interval = interval"
    by (simp_all add: client_log_interval_def interval_def)
  have pos: "0 < interval" by (simp add: interval_def)
  have old: "map (\<lambda>k. window_report (window (ms @ [(r, s)]) k)) [0..<?n div interval] =
      map (\<lambda>k. window_report (window ms k)) [0..<?n div interval]"
    by (simp add: window_append)
  have "Suc (?n mod interval) < 2 ^ 64"
    using mod_less_divisor [OF pos, of ?n] by (simp add: interval_def)
  then have "unat (word_of_nat (?n mod interval) + 1 :: u64) = Suc (?n mod interval)"
    using unat_word_of_nat_u64 [of "Suc (?n mod interval)"] by (simp add: add.commute)
  then have test: "(word_of_nat (?n mod interval) + 1) mod client_log_interval = 0 \<longleftrightarrow>
      Suc ?n mod interval = 0"
    using mod_Suc [of ?n interval] log(2) mod_less_divisor [OF pos, of ?n]
    by (auto simp: u64_eq_iff unat_mod_u64 mod_Suc)
  show ?thesis
  proof (cases "Suc ?n mod interval = 0")
    case True
    then have d: "Suc ?n div interval = Suc (?n div interval)" by (simp add: div_Suc)
    then have len: "Suc (?n div interval) * interval = Suc ?n" using True by (metis add_0_right div_mult_mod_eq)
    then have le: "?n div interval * interval \<le> ?n" by simp
    have w: "window (ms @ [(r, s)]) (?n div interval) = drop (?n div interval * interval) ms @ [(r, s)]"
      using len le by (simp add: window_def)
    have "window_report (window (ms @ [(r, s)]) (?n div interval)) =
        (s, r - s, (sum_list (map latency (drop (?n div interval * interval) ms)) + (r - s)) div word_of_nat interval)"
      by (simp add: w window_report_def latency_def)
    then show ?thesis
      using True test d len le old by (simp add: client_after_def client_receive_def log(1) Let_def)
  next
    case False
    then have d: "Suc ?n div interval = ?n div interval" "Suc ?n mod interval = Suc (?n mod interval)"
      by (auto simp: div_Suc mod_Suc split: if_splits)
    have le: "?n div interval * interval \<le> ?n" by simp
    show ?thesis
      using False test d le old
      by (simp add: client_after_def client_receive_def latency_def Let_def add.commute)
  qed
qed

lemma client_received:
  "fold (\<lambda>(r, s). client_receive r s) ms client_start = client_after ms"
proof (induction ms rule: rev_induct)
  case Nil
  show ?case by (simp add: client_after_def client_start_def interval_def)
next
  case (snoc m ms)
  then show ?case by (cases m) (simp add: client_after_snoc)
qed

lemma client_polls:
  assumes ch: "front_channel rep held push front item pop" and "rep s xs" and "length ts = length xs"
  shows "\<exists>s'. fold (client_poll front item pop) ts (s, c) =
      (s', fold (\<lambda>(r, x). client_receive r x) (zip ts xs) c) \<and> rep s' []"
  using assms(2,3)
proof (induction xs arbitrary: s c ts)
  case (Cons x xs)
  then obtain t ts' where ts: "ts = t # ts'" "length ts' = length xs" by (cases ts) auto
  obtain s1 where s1: "front s = (True, s1)" "rep s1 (x # xs)" "held s1"
    using front_channel.front_some [OF ch Cons.prems(1)] by blast
  then have "client_poll front item pop t (s, c) = (pop s1, client_receive t x c)"
    using front_channel.item_first [OF ch] by (simp add: client_poll_def)
  moreover have "rep (pop s1) xs" using front_channel.pop_rest [OF ch s1(2,3)] .
  ultimately show ?case using Cons.IH [of "pop s1" ts' "client_receive t x c"] ts by simp
qed simp

section \<open>Properties\<close>



definition demo_env :: "(string list, unit, nat) server_env" where
  "demo_env = \<lparr>fs_entries = (\<lambda>dir w. Some w),
     from_cfg_file = (\<lambda>path w. if path = ''d/b.cfg'' then Inl () else Inr (length path)),
     sync_subscribers = (\<lambda>cfgs w. map (\<lambda>n. replicate n CHR ''x'') cfgs),
     publish_bytes = (\<lambda>_ w. w), rdtsc_get = (\<lambda>w. (0, w))\<rparr>"



end
