(* ===== verification/Spec2Isabelle.thy ===== *)
theory Spec2Isabelle
  imports Pub_Sub Threads SPSC_Layout Direct_Benchmarks Counting_Benchmarks Mpmc_Queue Client_Server Ping_Pong
    Lock_Benchmarks Signal_Reader Time_Stamps Bench_Utils PubSub_Benchmark Mpmc_Program Pub_Sub_Examples
begin

text \<open>
  \<^bold>\<open>posixipc-cpp: a library for inter-process communication over POSIX shared memory.\<close>

  The library moves variable-sized messages from one thread or process to another through a lock-free
  single-producer single-consumer ring buffer whose bytes lie on the heap or in a shared memory object,
  and builds a publish/subscribe layer on top of it. This theory is the root of its verification; it
  only collects the others.

  \<^bold>\<open>Parts and theories.\<close> In the order of the code, below \<^verbatim>\<open>src/include/posix_ipc\<close>:
  \<^item> \<open>Ipc_Prelude\<close>: machine words and bytes, checked reads and writes of memory blocks, little-endian
    encodings, decimal printing, and the outcome type of code that can fault.
  \<^item> \<open>Ipc_Errors\<close> (\<^verbatim>\<open>errors.hpp\<close>): error codes, their names and numbers, error values, their printing.
  \<^item> \<open>Ipc_Message\<close> (\<^verbatim>\<open>queues/Message.hpp\<close>): message views, owning and borrowed messages over a heap of
    allocated arrays, destructors and moves.
  \<^item> \<open>SPSC_Storage\<close> (\<^verbatim>\<open>queues/spsc/SPSCStorage.hpp\<close>): the storage object as a record and as the bytes of
    its layout, creation on the heap, mapping of existing memory with all its checks.
  \<^item> \<open>SPSC_Queue\<close> (\<^verbatim>\<open>queues/spsc/SPSCQueue.hpp\<close>): the queue object and its operations, one whole call at a
    time. \<open>SPSC_Ring\<close> relates the bytes of the ring to the list of unread messages; \<open>SPSC_Client\<close> shows the
    queue to be a \<open>fifo_channel\<close> (the interface of theory \<open>Fifo_Channel\<close>) for clients whose messages take
    equal space; \<open>SPSC_Correct\<close> holds the properties of single calls and of sequences of calls, \<open>SPSC_Layout\<close>
    what no call changes.
  \<^item> \<open>SPSC_Concurrent\<close>: the same operations split at their accesses to the shared storage, with program
    counters for both threads, and all interleavings of one producer with one consumer.
  \<^item> \<open>Posix_Api\<close>: the calls of the operating system as a record of functions over an arbitrary state, their
    documented behaviour as locales, and a small kernel that satisfies them. \<open>Shared_Memory\<close>
    (\<^verbatim>\<open>SharedMemory.hpp\<close>): opening, creating, probing, moving and destroying shared memory objects over it.
  \<^item> \<open>Pub_Sub_Config\<close> (\<^verbatim>\<open>queues/pubsub/enums.hpp\<close>, \<^verbatim>\<open>PubSubConfig.hpp\<close>), \<open>Pub_Sub_Ends\<close> (\<^verbatim>\<open>Publisher.hpp\<close>,
    \<^verbatim>\<open>Subscriber.hpp\<close>), \<open>Pub_Sub\<close> (\<^verbatim>\<open>PubSub.hpp\<close>): the publish/subscribe layer.
  \<^item> \<open>Spin_Lock\<close> (\<^verbatim>\<open>synchronization.hpp\<close> and the locks of \<^verbatim>\<open>bench/bm_thread_sync.cpp\<close>) and \<open>Threads\<close>
    (\<^verbatim>\<open>threads.hpp\<close>). \<open>Time_Stamps\<close> (\<^verbatim>\<open>rdtsc.hpp\<close>): the time stamp counter and its calibration.
  \<^item> \<open>Ring_Buffers\<close> (\<^verbatim>\<open>examples/SPSC.cpp\<close>): the five ring buffers the examples compare. \<open>Mpmc_Queue\<close>
    (\<^verbatim>\<open>examples/mpmc.hpp\<close>): the queue for many producers and consumers, access by access. \<open>Mpmc_Program\<close>
    (\<^verbatim>\<open>examples/mpmc.cpp\<close>): threads that make given sequences of calls on it.
  \<^item> \<open>Queue_Benchmarks\<close>: the loops of the benchmarks over an arbitrary queue; \<open>Thread_Benchmarks\<close>
    (\<^verbatim>\<open>bench/bm_spsc_threads.cpp\<close>), \<open>Direct_Benchmarks\<close> (\<^verbatim>\<open>bench/bm_spsc_direct.cpp\<close>), \<open>Counting_Benchmarks\<close>
    (\<^verbatim>\<open>bench/bm_SPSCQueue.cpp\<close> and \<^verbatim>\<open>bench\<close> of \<^verbatim>\<open>examples/SPSC.cpp\<close>), \<open>PubSub_Benchmark\<close>
    (\<^verbatim>\<open>bench/bm_PubSub.cpp\<close>): the benchmarks. \<open>Bench_Utils\<close> (\<^verbatim>\<open>bench/utils.hpp\<close>): how their threads begin.
  \<^item> \<open>Client_Server\<close> (\<^verbatim>\<open>examples/condvar_client_server.cpp\<close>, \<^verbatim>\<open>examples/atomic_client_server.cpp\<close>) and
    \<open>Ping_Pong\<close> (\<^verbatim>\<open>examples/condvar_test.cpp\<close>): threads that meet at a mutex with condition variables, or at
    an atomic pointer.
  \<^item> \<open>Lock_Benchmarks\<close> (the loops of \<^verbatim>\<open>bench/bm_thread_sync.cpp\<close>) and \<open>Signal_Reader\<close> (\<^verbatim>\<open>examples/jl.cpp\<close>, a
    program that prints the messages of a queue in shared memory). \<open>Pub_Sub_Examples\<close>
    (\<^verbatim>\<open>examples/pubsub_server\<close>, \<^verbatim>\<open>examples/pubsub_client\<close>): a server that follows a directory of configurations
    and publishes time stamps, and a client that averages latencies.

  \<^bold>\<open>Modelling.\<close> Objects are records with the fields of the classes, operations are functions from the old
  state to the result and the new state, the 64-bit arithmetic of indices and counters is kept as words.
  \<^verbatim>\<open>std::expected\<close> is a sum type with the error on the left. A failed assertion (assertions are enabled) and
  an access outside a buffer or through a null pointer are faults, values of the type \<open>exec\<close>; code without
  such accesses has no fault in its type. Loops that need not end (\<^verbatim>\<open>dequeue_begin\<close>, \<^verbatim>\<open>SpinLock::lock\<close>) are
  partial functions into an option type, where \<open>None\<close> means that the call does not return (so is the busy wait
  of the calibration); no fuel is used,
  except that \<open>run_alone\<close> counts accesses, of which an uninterrupted \<^verbatim>\<open>enqueue\<close> makes at most seven. The
  operating system, the pthread library, the allocator, the clocks and the operations on \<^verbatim>\<open>double\<close> are parameters; hypotheses about them are
  locales or named predicates that state their documented behaviour, and each is satisfied by a concrete
  instance.

  \<^bold>\<open>What is shown.\<close> Of the queue: every call on a well-formed ring is memory safe and leaves a well-formed
  ring; \<^verbatim>\<open>enqueue\<close> appends and \<^verbatim>\<open>dequeue_begin\<close> with \<^verbatim>\<open>dequeue_commit\<close> removes the oldest message, as long as no
  message overtakes unread ones that wrap around; for messages of equal space that never happens, so that
  any sequence of calls, and any interleaving of the accesses of the two threads, delivers what was accepted
  in order, without a data race; exactly when a message is refused, when the retry loop returns, and what
  the observers report. Messages of different sizes can overtake, and then unread messages are lost. Of the
  storage: layout round trip, exactly which memory is accepted, and that calls keep it acceptable. Of the shared memory objects: the
  accounting of descriptors, mappings and names on every path. Of the publish/subscribe layer: delivery
  from configuration to reception, the effect of synchronising configurations and of broadcasting, and what
  a failed synchronisation leaves behind. Of the locks: mutual exclusion. Of the ring buffers: equivalence
  with a bounded list. Of the queue for many threads: each element is delivered once, and the turns keep
  threads out of each other's slots, for fewer than \<open>2\<^sup>6\<^sup>2\<close> tickets, below which the 64-bit ticket and turn
  numbers do not wrap around; programs that push and pop equally often never block each other for good.
  Of the calibration: it returns if the clock advances, with the median of its measurements, which on an
  ideal machine is too large. Of the benchmarks: whatever the interleaving, their sanity checks and
  assertions hold and their threads can finish; for other libraries' queues this rests on their documented
  order and capacity; the one of the publish/subscribe layer is followed from the configuration through
  shared memory to the last time stamp. Of the examples: each request is served exactly once and no wake-up is lost, although
  a client may wait for ever for a reply that is ready; the server uses the readable configurations in the
  order of their names, and the client's averages are over the intervals it prints them for.

  \<^bold>\<open>Interfaces.\<close> \<open>fifo_channel\<close> and \<open>bounded_channel\<close> (a queue as its clients see it; interpreted by the SPSC
  queue, the two ends of a publish/subscribe queue and the ring buffers), \<open>lock_contract\<close> (interpreted by the
  three working locks), \<open>posix_resources\<close>, \<open>posix_memory\<close> and \<open>posix_shm\<close> (the operating system; interpreted by
  the kernel of \<open>Posix_Api\<close>), \<open>accepting_channel\<close> and \<open>front_channel\<close> (what a benchmark asks of a queue;
  interpreted by a ring buffer, by a list, by the SPSC queue, and by \<^verbatim>\<open>PubSub\<close> with a subscriber on any
  system that satisfies \<open>posix_memory\<close>), \<open>steady_clock\<close> (what the calibration asks of the machine; interpreted
  by the ideal machine).

  \<^bold>\<open>Not modelled.\<close> Weak memory: accesses are steps of a sequentially consistent memory; the absence of data
  races is what the acquire and release orders of the code need. Processes that die inside a call.
  Durations, rates, log output and the conversion of printed latencies to nanoseconds; command lines. The
  library \<^verbatim>\<open>quant_base\<close> that two examples include is not in the repository: what they call of it is a
  parameter. Doubles are values of a linear order with given operations, so there is no NaN. And
  the scratch program, which is commented out. In the benchmarks each call of a queue is one step; that
  the accesses of overlapping calls do not disturb each other is the subject of \<open>SPSC_Concurrent\<close>.
\<close>

end
